(* ===== verification/TxPrelude.thy ===== *)
theory TxPrelude
  imports Main "HOL-Library.Word" "HOL-Library.Monad_Syntax"
begin

text \<open>
  Shared vocabulary of the development: machine types, the panic monad, list lemmas.

  A C function that can \<open>Panic\<close>, fail an \<open>Assert\<close> (both call \<open>abort\<close>), dereference a
  null pointer, run off the end of a buffer or loop forever is modelled by a function into
  \<open>'a option\<close>: \<^term>\<open>None\<close> says that the call does not return normally. A theorem with
  conclusion \<open>\<dots> = Some r\<close> therefore also says that no assertion fails and that every loop ends.
\<close>

type_synonym addr = nat
  \<comment> \<open>a heap address; \<open>0\<close> is the null pointer\<close>
type_synonym byte = "8 word"
type_synonym pin_t = "32 word"
type_synonym size_t = "64 word"

named_theorems panic_simps \<open>rewriting of the panic monad\<close>

text \<open>\<open>Assert(pred)\<close> of \<open>lib/message.h\<close>: panics unless \<open>pred\<close> holds.\<close>

definition Assert :: "bool \<Rightarrow> unit option" where
  "Assert p = (if p then Some () else None)"

lemma Assert_simps [simp, panic_simps]:
  "Assert True = Some ()" "Assert False = None"
  by (simp_all add: Assert_def)

lemma Assert_eq_Some [simp]: "Assert p = Some u \<longleftrightarrow> p"
  by (simp add: Assert_def)

lemma Assert_bind_eq_Some [simp]:
  "Option.bind (Assert p) (\<lambda>u. f u) = Some x \<longleftrightarrow> p \<and> f () = Some x"
  by (simp add: Assert_def)

lemma Assert_bind [panic_simps]: "p \<Longrightarrow> Option.bind (Assert p) f = f ()"
  by simp

section \<open>Lists sorted by a key\<close>

lemma filter_less_eq_takeWhile:
  fixes f :: "'a \<Rightarrow> 'b::linorder"
  shows "sorted (map f xs) \<Longrightarrow> filter (\<lambda>x. f x < u) xs = takeWhile (\<lambda>x. f x < u) xs"
proof (induction xs)
  case (Cons x xs)
  from Cons.prems have "\<not> f x < u \<Longrightarrow> filter (\<lambda>y. f y < u) xs = []"
    by (auto simp: filter_empty_conv)
  with Cons show ?case by auto
qed simp

lemma filter_ge_eq_dropWhile:
  fixes f :: "'a \<Rightarrow> 'b::linorder"
  shows "sorted (map f xs) \<Longrightarrow> filter (\<lambda>x. l \<le> f x) xs = dropWhile (\<lambda>x. f x < l) xs"
proof (induction xs)
  case (Cons x xs)
  from Cons.prems have "l \<le> f x \<Longrightarrow> filter (\<lambda>y. l \<le> f y) xs = xs"
    by (auto simp: filter_id_conv)
  with Cons show ?case by auto
qed simp

lemma sorted_map_filter_sub: "sorted (map f xs) \<Longrightarrow> sorted (map f (filter P xs))"
  by (induction xs) auto

section \<open>Words\<close>

lemma less_inc_iff: "w \<noteq> - 1 \<Longrightarrow> v < w + 1 \<longleftrightarrow> v \<le> w"
  for v w :: "'a::len word"
  by (metis inc_less_eq_triv_imp less_inc_imp_less_eq linorder_not_less order_le_less_trans)

section \<open>Heaps\<close>

text \<open>
  The objects of one C type live in a partial map from addresses. Reading through a null or
  dangling pointer is \<^term>\<open>None\<close>; \<open>upd\<close> is a write to fields of an existing object.
\<close>

type_synonym 'n heap = "addr \<rightharpoonup> 'n"

definition upd :: "'n heap \<Rightarrow> addr \<Rightarrow> ('n \<Rightarrow> 'n) \<Rightarrow> 'n heap option" where
  "upd h x f = (case h x of None \<Rightarrow> None | Some n \<Rightarrow> Some (h(x \<mapsto> f n)))"

lemma upd_Some [simp]: "h x = Some n \<Longrightarrow> upd h x f = Some (h(x \<mapsto> f n))"
  by (simp add: upd_def)

lemma upd_eq_Some: "upd h x f = Some h' \<longleftrightarrow> (\<exists>n. h x = Some n \<and> h' = h(x \<mapsto> f n))"
  by (auto simp: upd_def split: option.splits)

section \<open>Doubly linked segments\<close>

text \<open>
  \<open>dll nx pv p xs n\<close>: the objects \<open>xs\<close> are chained by the links \<open>nx\<close> and \<open>pv\<close>, the first one
  points back to \<open>p\<close> and the last one forward to \<open>n\<close>.
\<close>

definition hd1 :: "addr list \<Rightarrow> addr \<Rightarrow> addr" where
  "hd1 xs n = (case xs of [] \<Rightarrow> n | x # _ \<Rightarrow> x)"

definition last1 :: "addr list \<Rightarrow> addr \<Rightarrow> addr" where
  "last1 xs p = (if xs = [] then p else last xs)"

fun dll :: "(addr \<Rightarrow> addr) \<Rightarrow> (addr \<Rightarrow> addr) \<Rightarrow> addr \<Rightarrow> addr list \<Rightarrow> addr \<Rightarrow> bool" where
  "dll nx pv p [] n = True"
| "dll nx pv p (x # xs) n = (pv x = p \<and> nx x = hd1 xs n \<and> dll nx pv x xs n)"

lemma hd1_simps [simp]: "hd1 [] n = n" "hd1 (x # xs) n = x" "hd1 (xs @ y # ys) n = hd1 xs y"
  by (simp_all add: hd1_def split: list.split)

lemma last1_simps [simp]:
  "last1 [] p = p" "last1 (x # xs) p = last1 xs x" "last1 (xs @ [y]) p = y"
  "last1 (xs @ y # ys) p = last1 ys y"
  by (simp_all add: last1_def)

lemma hd1_in: "xs \<noteq> [] \<Longrightarrow> hd1 xs n \<in> set xs"
  by (simp add: hd1_def split: list.split)

lemma last1_in: "xs \<noteq> [] \<Longrightarrow> last1 xs p \<in> set xs"
  by (simp add: last1_def)

lemma hd1_append: "hd1 (xs @ ys) n = hd1 xs (hd1 ys n)"
  by (cases xs) simp_all

lemma last1_append: "last1 (xs @ ys) p = last1 ys (last1 xs p)"
  by (simp add: last1_def)

lemma dll_append [simp]:
  "dll nx pv p (xs @ ys) n \<longleftrightarrow> dll nx pv p xs (hd1 ys n) \<and> dll nx pv (last1 xs p) ys n"
  by (induction xs arbitrary: p) (auto simp: hd1_append)

lemma dll_cong:
  "(\<And>x. x \<in> set xs \<Longrightarrow> nx x = nx' x \<and> pv x = pv' x) \<Longrightarrow> dll nx pv p xs n = dll nx' pv' p xs n"
  by (induction xs arbitrary: p) auto

lemma dll_insert:
  assumes "dll nx pv p (us @ vs) n" "distinct (us @ a # vs)"
    and "\<And>x. x \<in> set (us @ a # vs) \<Longrightarrow>
           nx' x = (if x = a then hd1 vs n else if us \<noteq> [] \<and> x = last us then a else nx x)"
    and "\<And>x. x \<in> set (us @ a # vs) \<Longrightarrow>
           pv' x = (if x = a then last1 us p else if vs \<noteq> [] \<and> x = hd vs then a else pv x)"
  shows "dll nx' pv' p (us @ a # vs) n"
proof -
  have l: "us \<noteq> [] \<Longrightarrow> last us \<notin> set vs"
    using assms(2) by (auto simp: disjoint_iff)
  have "dll nx' pv' p us a"
  proof (cases us rule: rev_cases)
    case (snoc ys y)
    with assms have "dll nx' pv' p ys y = dll nx pv p ys y" by (intro dll_cong) auto
    with snoc assms show ?thesis by auto
  qed simp
  moreover have "dll nx' pv' a vs n"
  proof (cases vs)
    case (Cons y ys)
    with assms l have "dll nx' pv' y ys n = dll nx pv y ys n" by (intro dll_cong) auto
    with Cons assms l show ?thesis by auto
  qed simp
  ultimately show ?thesis using assms(3,4)[of a] by simp
qed

lemma dll_remove:
  assumes "dll nx pv p (us @ a # vs) n" "distinct (us @ a # vs)"
    and "\<And>x. x \<in> set (us @ vs) \<Longrightarrow>
           nx' x = (if us \<noteq> [] \<and> x = last us then hd1 vs n else nx x)"
    and "\<And>x. x \<in> set (us @ vs) \<Longrightarrow>
           pv' x = (if vs \<noteq> [] \<and> x = hd vs then last1 us p else pv x)"
  shows "dll nx' pv' p (us @ vs) n"
proof -
  have l: "us \<noteq> [] \<Longrightarrow> last us \<notin> set vs"
    using assms(2) by (auto simp: disjoint_iff)
  have "dll nx' pv' p us (hd1 vs n)"
  proof (cases us rule: rev_cases)
    case (snoc ys y)
    with assms have "dll nx' pv' p ys y = dll nx pv p ys y" by (intro dll_cong) auto
    with snoc assms show ?thesis by auto
  qed simp
  moreover have "dll nx' pv' (last1 us p) vs n"
  proof (cases vs)
    case (Cons y ys)
    with assms l have "dll nx' pv' y ys n = dll nx pv y ys n" by (intro dll_cong) auto
    with Cons assms l show ?thesis by auto
  qed simp
  ultimately show ?thesis by simp
qed

lemma dll_at:
  "dll nx pv p (us @ x # vs) n \<Longrightarrow> pv x = last1 us p \<and> nx x = hd1 vs n"
  by simp

end
