(* ===== verification/Interval.thy ===== *)
theory Interval
  imports TxPrelude
begin

text \<open>
  Pins and validity intervals: \<open>src/src/lib/interval.h\<close>.

  A pin is a 32-bit logical timestamp. An interval \<open>[lower, upper)\<close> says for which pins a
  cached value is known to be right; \<open>stillValid\<close> says that no invalidation of it has been
  seen, so that its upper end moves with the newest timestamp \<open>now\<close>.
\<close>

definition PIN_INVALID :: pin_t where "PIN_INVALID = 0"
definition PIN_NEG_INF :: pin_t where "PIN_NEG_INF = 1"
definition PIN_MIN :: pin_t where "PIN_MIN = 2"
definition PIN_INF :: pin_t where "PIN_INF = - 1"

lemmas pin_consts = PIN_INVALID_def PIN_NEG_INF_def PIN_MIN_def PIN_INF_def

definition PIN_SPECIAL :: "pin_t \<Rightarrow> bool" where
  "PIN_SPECIAL p \<longleftrightarrow> p = PIN_INVALID \<or> p = PIN_NEG_INF \<or> p = PIN_INF"

record interval_t =
  lower :: pin_t
  upper :: pin_t
  stillValid :: bool

text \<open>The macro \<open>MAX(x,y)\<close>.\<close>

definition MAX_pin :: "pin_t \<Rightarrow> pin_t \<Rightarrow> pin_t" where
  "MAX_pin x y = (if x < y then y else x)"

text \<open>The conjunction of the assertions of \<open>Interval_AssertValid\<close>.\<close>

definition Interval_AssertValid :: "interval_t \<Rightarrow> unit option" where
  "Interval_AssertValid a = do {
     Assert (lower a \<noteq> PIN_INVALID);
     Assert (upper a \<noteq> PIN_INVALID);
     Assert (lower a \<noteq> PIN_INF);
     Assert (upper a \<noteq> PIN_NEG_INF);
     Assert (lower a = PIN_NEG_INF \<or> upper a = PIN_INF \<or> lower a < upper a) }"

definition Interval_Overlaps :: "interval_t \<Rightarrow> interval_t \<Rightarrow> pin_t \<Rightarrow> bool option" where
  "Interval_Overlaps a b now = do {
     Interval_AssertValid a;
     Interval_AssertValid b;
     if lower a = PIN_NEG_INF \<or> lower a < lower b then
       let aUpper = (if stillValid a then MAX_pin (upper a) now else upper a)
       in Some (upper a = PIN_INF \<or> aUpper > lower b)
     else
       let bUpper = (if stillValid b then MAX_pin (upper b) now else upper b)
       in Some (upper b = PIN_INF \<or> bUpper > lower a) }"

definition Interval_Intersect :: "interval_t \<Rightarrow> interval_t \<Rightarrow> pin_t \<Rightarrow> interval_t option" where
  "Interval_Intersect a b now = do {
     ov \<leftarrow> Interval_Overlaps a b now;
     Assert ov;
     let a = (if stillValid a then a\<lparr>upper := MAX_pin (upper a) now\<rparr> else a);
         b = (if stillValid b then b\<lparr>upper := MAX_pin (upper b) now\<rparr> else b);
         res = a\<lparr>stillValid := stillValid a \<and> stillValid b\<rparr>;
         res = (if lower a < lower b then res\<lparr>lower := lower b\<rparr> else res);
         res = (if upper a > upper b then res\<lparr>upper := upper b\<rparr> else res)
     in Some res }"

section \<open>What an interval means\<close>

text \<open>An interval is well formed when it is a non-empty range above \<^const>\<open>PIN_INVALID\<close>.\<close>

definition wf_interval :: "interval_t \<Rightarrow> bool" where
  "wf_interval a \<longleftrightarrow> 0 < lower a \<and> lower a < upper a"

text \<open>The upper end at time \<open>now\<close>, and the set of pins the interval covers.\<close>

definition eff_upper :: "pin_t \<Rightarrow> interval_t \<Rightarrow> pin_t" where
  "eff_upper now a = (if stillValid a then max (upper a) now else upper a)"

definition pins_of :: "pin_t \<Rightarrow> interval_t \<Rightarrow> pin_t set" where
  "pins_of now a = {p. lower a \<le> p \<and> p < eff_upper now a}"

lemma pin_max_eq_max [simp]: "MAX_pin = max"
  by (auto simp: MAX_pin_def max_def fun_eq_iff)

lemma pin_less_1_iff: "(x :: pin_t) < 1 \<longleftrightarrow> x = 0"
  by (metis word_less_1)

lemma pin_pos_iff: "(0 :: pin_t) < x \<longleftrightarrow> x \<noteq> 0"
  by (simp add: word_neq_0_conv)

lemma pin_le_PIN_INF [simp]: "p \<le> PIN_INF"
  by (simp add: pin_consts)

lemma less_PIN_INF_iff: "p < PIN_INF \<longleftrightarrow> p \<noteq> PIN_INF"
  by (metis pin_le_PIN_INF order_le_less less_irrefl)

lemma Interval_AssertValid_iff:
  "Interval_AssertValid a = Some u \<longleftrightarrow> wf_interval a"
proof -
  have 1: "(0::pin_t) < lower a \<longleftrightarrow> lower a \<noteq> 0" "(0::pin_t) < upper a \<longleftrightarrow> upper a \<noteq> 0"
    by (simp_all add: pin_pos_iff)
  have 2: "upper a \<le> - 1" "lower a \<le> - 1" by simp_all
  have 3: "lower a = 1 \<Longrightarrow> upper a \<noteq> 0 \<Longrightarrow> upper a \<noteq> 1 \<Longrightarrow> lower a < upper a"
    by (metis linorder_less_linear pin_less_1_iff)
  have 4: "lower a < upper a \<Longrightarrow> lower a \<noteq> 0 \<Longrightarrow> upper a \<noteq> 1"
    using pin_less_1_iff by metis
  have 5: "lower a \<noteq> - 1 \<Longrightarrow> lower a < - 1"
    by (simp add: order_less_le)
  show ?thesis
    using 1 2 3 4 5
    by (auto simp: Interval_AssertValid_def wf_interval_def pin_consts)
qed

lemma Interval_AssertValid_wf [simp]:
  "wf_interval a \<Longrightarrow> Interval_AssertValid a = Some ()"
  by (simp add: Interval_AssertValid_iff)

lemma eff_upper_ge: "upper a \<le> eff_upper now a"
  by (simp add: eff_upper_def)

lemma eff_upper_PIN_INF [simp]: "upper a = PIN_INF \<Longrightarrow> eff_upper now a = PIN_INF"
  by (simp add: eff_upper_def max_absorb1)

lemma eff_upper_mono: "now \<le> now' \<Longrightarrow> eff_upper now a \<le> eff_upper now' a"
  by (auto simp: eff_upper_def max_def)

lemma pins_of_mono: "now \<le> now' \<Longrightarrow> pins_of now a \<subseteq> pins_of now' a"
  using eff_upper_mono [of now now' a] by (auto simp: pins_of_def)

lemma wf_interval_lower_less_eff: "wf_interval a \<Longrightarrow> lower a < eff_upper now a"
  using eff_upper_ge [of a now] by (auto simp: wf_interval_def intro: order_less_le_trans)

lemma wf_interval_lower_in_pins: "wf_interval a \<Longrightarrow> lower a \<in> pins_of now a"
  by (simp add: pins_of_def wf_interval_lower_less_eff)

lemma pins_of_meet_iff:
  assumes "wf_interval a" "wf_interval b"
  shows "pins_of now a \<inter> pins_of now b \<noteq> {} \<longleftrightarrow>
    lower a < eff_upper now b \<and> lower b < eff_upper now a"
proof
  assume "pins_of now a \<inter> pins_of now b \<noteq> {}"
  then show "lower a < eff_upper now b \<and> lower b < eff_upper now a"
    by (auto simp: pins_of_def)
next
  assume "lower a < eff_upper now b \<and> lower b < eff_upper now a"
  then have "max (lower a) (lower b) \<in> pins_of now a \<inter> pins_of now b"
    using assms by (auto simp: pins_of_def max_def wf_interval_lower_less_eff)
  then show "pins_of now a \<inter> pins_of now b \<noteq> {}" by blast
qed

lemma eff_upper_case:
  "(if stillValid a then MAX_pin (upper a) now else upper a) = eff_upper now a"
  by (simp add: eff_upper_def)

lemma upper_inf_or_less:
  assumes "wf_interval b"
  shows "upper a = PIN_INF \<or> eff_upper now a > lower b \<longleftrightarrow> eff_upper now a > lower b"
proof -
  have "lower b < PIN_INF"
    using assms pin_le_PIN_INF [of "upper b"] by (auto simp: wf_interval_def simp del: pin_le_PIN_INF)
  then show ?thesis by auto
qed

section \<open>Properties\<close>

lemma Interval_Overlaps_eq:
  assumes a: "wf_interval a" and b: "wf_interval b"
  shows "Interval_Overlaps a b now = Some (pins_of now a \<inter> pins_of now b \<noteq> {})"
proof (cases "lower a = PIN_NEG_INF \<or> lower a < lower b")
  case True
  have "lower a \<le> lower b"
    using True b pin_less_1_iff [of "lower b"]
    by (auto simp: PIN_NEG_INF_def wf_interval_def pin_pos_iff simp flip: linorder_not_less)
  then have "lower a < eff_upper now b"
    using wf_interval_lower_less_eff [OF b, of now] by simp
  with True show ?thesis
    by (simp add: Interval_Overlaps_def a b Let_def eff_upper_case upper_inf_or_less
        pins_of_meet_iff del: pin_max_eq_max)
next
  case False
  then have "lower b < eff_upper now a"
    using wf_interval_lower_less_eff [OF a, of now]
    by (meson linorder_not_less order_le_less_trans)
  with False show ?thesis
    by (simp add: Interval_Overlaps_def a b Let_def eff_upper_case upper_inf_or_less
        pins_of_meet_iff del: pin_max_eq_max)
qed

text \<open>C1: on well-formed intervals \<open>Interval_Overlaps\<close> fails no assertion, and it answers whether the
  two intervals have a pin in common at time \<open>now\<close>. The special cases for the infinite bounds
  agree with the plain comparison.\<close>

theorem Interval_Overlaps_correct:
  assumes a: "wf_interval a" and b: "wf_interval b"
  shows "Interval_Overlaps a b now = Some (pins_of now a \<inter> pins_of now b \<noteq> {})"
  using assms by (rule Interval_Overlaps_eq)

theorem Interval_Overlaps_correct_witness:
  "wf_interval \<lparr>lower = 5, upper = 8, stillValid = True\<rparr> \<and>
   wf_interval \<lparr>lower = 9, upper = PIN_INF, stillValid = False\<rparr> \<and>
   Interval_Overlaps \<lparr>lower = 5, upper = 8, stillValid = True\<rparr>
     \<lparr>lower = 9, upper = PIN_INF, stillValid = False\<rparr> 10 =
   Some (pins_of 10 \<lparr>lower = 5, upper = 8, stillValid = True\<rparr> \<inter>
         pins_of 10 \<lparr>lower = 9, upper = PIN_INF, stillValid = False\<rparr> \<noteq> {})"
proof -
  have w: "wf_interval \<lparr>lower = 5, upper = 8, stillValid = True\<rparr>"
    "wf_interval \<lparr>lower = 9, upper = PIN_INF, stillValid = False\<rparr>"
    by (simp_all add: wf_interval_def PIN_INF_def)
  show ?thesis using w Interval_Overlaps_correct [OF w] by blast
qed

lemma Interval_Intersect_props:
  assumes a: "wf_interval a" and b: "wf_interval b"
    and ov: "pins_of now a \<inter> pins_of now b \<noteq> {}"
  shows "\<exists>res. Interval_Intersect a b now = Some res \<and> wf_interval res \<and>
    pins_of now res = pins_of now a \<inter> pins_of now b \<and>
    (\<forall>later\<ge>now. pins_of later res \<subseteq> pins_of later a \<inter> pins_of later b) \<and>
    (stillValid res \<longleftrightarrow> stillValid a \<and> stillValid b)"
proof -
  define res where "res = \<lparr>lower = max (lower a) (lower b),
    upper = min (eff_upper now a) (eff_upper now b), stillValid = stillValid a \<and> stillValid b\<rparr>"
  have eq: "Interval_Intersect a b now = Some res"
    using a b ov
    by (auto simp: Interval_Intersect_def Interval_Overlaps_eq Let_def res_def
        eff_upper_def max_def min_def)
  have wf: "wf_interval res"
    using a b ov unfolding pins_of_meet_iff [OF a b]
    by (auto simp: res_def wf_interval_def wf_interval_lower_less_eff max_def)
  have eff: "eff_upper now res = min (eff_upper now a) (eff_upper now b)"
    by (auto simp: res_def eff_upper_def max_def min_def)
  have pins: "pins_of now res = pins_of now a \<inter> pins_of now b"
    using eff by (auto simp: pins_of_def res_def)
  have "pins_of later res \<subseteq> pins_of later a \<inter> pins_of later b" if "later \<ge> now" for later
    using that eff_upper_mono [OF that, of a] eff_upper_mono [OF that, of b]
    by (auto simp: pins_of_def res_def eff_upper_def less_max_iff_disj split: if_splits
        intro: order_less_le_trans)
  with eq wf pins show ?thesis by (auto simp: res_def)
qed

text \<open>C2: the intersection of two overlapping intervals is a well-formed interval that covers
  exactly the pins both cover at time \<open>now\<close>; at any later time it covers no pin that one of
  them does not cover, and it is still valid only when both are.\<close>

theorem Interval_Intersect_correct:
  assumes a: "wf_interval a" and b: "wf_interval b"
    and ov: "pins_of now a \<inter> pins_of now b \<noteq> {}"
  shows "\<exists>res. Interval_Intersect a b now = Some res \<and> wf_interval res \<and>
    pins_of now res = pins_of now a \<inter> pins_of now b \<and>
    (\<forall>later\<ge>now. pins_of later res \<subseteq> pins_of later a \<inter> pins_of later b) \<and>
    (stillValid res \<longleftrightarrow> stillValid a \<and> stillValid b)"
  using assms by (rule Interval_Intersect_props)

theorem Interval_Intersect_correct_witness:
  "Interval_Intersect \<lparr>lower = 5, upper = 8, stillValid = True\<rparr>
     \<lparr>lower = 9, upper = PIN_INF, stillValid = False\<rparr> 10 =
     Some \<lparr>lower = 9, upper = 10, stillValid = False\<rparr> \<and>
   wf_interval \<lparr>lower = 9, upper = 10, stillValid = False\<rparr>"
proof -
  let ?a = "\<lparr>lower = 5, upper = 8, stillValid = True\<rparr>"
  let ?b = "\<lparr>lower = 9, upper = PIN_INF, stillValid = False\<rparr>"
  have w: "wf_interval ?a" "wf_interval ?b"
    by (simp_all add: wf_interval_def PIN_INF_def)
  have ov: "pins_of 10 ?a \<inter> pins_of 10 ?b \<noteq> {}"
    unfolding pins_of_meet_iff [OF w] by (simp add: eff_upper_def PIN_INF_def max_def)
  have i: "Interval_Intersect ?a ?b 10 = Some \<lparr>lower = 9, upper = 10, stillValid = False\<rparr>"
    by (simp add: Interval_Intersect_def Interval_Overlaps_def Interval_AssertValid_def
        Let_def pin_consts max_def)
  show ?thesis using Interval_Intersect_correct [OF w ov] i by simp
qed

end
