(* ===== verification/PinSet.thy ===== *)
theory PinSet
  imports Interval
begin

text \<open>
  Pin sets: \<open>src/src/lib/pinset.h\<close>, \<open>src/src/lib/pinset.c\<close> and the time stamps of
  \<open>src/src/lib/timeval.h\<close>.

  A pin set is the set of snapshots a read-only transaction may still run at, plus possibly
  \<open>*\<close>, the present. Its array of stamps is allocated by the caller of \<open>PinSet_Init\<close>; a set of
  exactly one pin keeps it in \<open>onePin\<close> and frees the array. The model keeps the array as a
  list, a pointer into it as a base and an offset, and a read outside of the array is
  \<^term>\<open>None\<close>. \<open>PARANOID\<close> is on, as in a default build.
\<close>

section \<open>Time stamps\<close>

record timeval =
  tv_sec :: int
  tv_usec :: int

definition timeval_sub :: "timeval \<Rightarrow> timeval \<Rightarrow> timeval" where
  "timeval_sub a b =
     (if tv_usec a < tv_usec b
      then \<lparr>tv_sec = tv_sec a - tv_sec b - 1, tv_usec = tv_usec a + 1000000 - tv_usec b\<rparr>
      else \<lparr>tv_sec = tv_sec a - tv_sec b, tv_usec = tv_usec a - tv_usec b\<rparr>)"

definition timeval_lessthan :: "timeval \<Rightarrow> timeval \<Rightarrow> bool" where
  "timeval_lessthan a b \<longleftrightarrow>
     tv_sec a < tv_sec b \<or> (tv_sec a = tv_sec b \<and> tv_usec a < tv_usec b)"

section \<open>Pin sets\<close>

record PinStamp_t =
  pin :: pin_t
  tv :: timeval

text \<open>A pointer to a stamp: null, \<open>&ps->onePin + n\<close>, \<open>ps->pins + n\<close>, or the address of a
  local variable that holds the stamp.\<close>

datatype PinPtr = PNull | POne nat | PArr nat | PVar PinStamp_t

record PinSet_t =
  pins :: "PinStamp_t list option"
  firstPin :: PinPtr
  onePin :: PinStamp_t
  nPins :: int
  andStar :: bool

definition PINSTAMP_INVALID :: PinStamp_t where
  "PINSTAMP_INVALID = \<lparr>pin = PIN_INVALID, tv = \<lparr>tv_sec = 0, tv_usec = 0\<rparr>\<rparr>"

fun ptr_add :: "PinPtr \<Rightarrow> nat \<Rightarrow> PinPtr" where
  "ptr_add PNull n = PNull"
| "ptr_add (POne k) n = POne (k + n)"
| "ptr_add (PArr k) n = PArr (k + n)"
| "ptr_add (PVar s) n = (if n = 0 then PVar s else PNull)"

fun deref :: "PinSet_t \<Rightarrow> PinPtr \<Rightarrow> PinStamp_t option" where
  "deref ps PNull = None"
| "deref ps (POne k) = (if k = 0 then Some (onePin ps) else None)"
| "deref ps (PArr k) =
     (case pins ps of None \<Rightarrow> None | Some b \<Rightarrow> if k < length b then Some (b ! k) else None)"
| "deref ps (PVar s) = Some s"

text \<open>The loop of \<open>PinSetAssertValid\<close>: no invalid pin, and no pin greater than the next.\<close>

fun PinSet_checkOrder :: "PinStamp_t list \<Rightarrow> nat \<Rightarrow> unit option" where
  "PinSet_checkOrder b 0 = Some ()"
| "PinSet_checkOrder b (Suc i) = do {
     PinSet_checkOrder b i;
     Assert (Suc i < length b);
     Assert (pin (b ! i) \<noteq> PIN_INVALID);
     Assert (\<not> pin (b ! i) > pin (b ! Suc i)) }"

definition PinSetAssertValid :: "PinSet_t \<Rightarrow> unit option" where
  "PinSetAssertValid ps =
     (if nPins ps = 0 then do {
        Assert (pins ps = None);
        Assert (firstPin ps = PNull);
        Assert (pin (onePin ps) = PIN_INVALID) }
      else if nPins ps = 1 then do {
        Assert (pins ps = None);
        Assert (firstPin ps = PNull);
        Assert (pin (onePin ps) \<noteq> PIN_INVALID) }
      else do {
        b \<leftarrow> pins ps;
        Assert (firstPin ps \<noteq> PNull);
        Assert (case firstPin ps of PArr k \<Rightarrow> True | _ \<Rightarrow> False);
        Assert (pin (onePin ps) = PIN_INVALID);
        PinSet_checkOrder b (nat (nPins ps) - 1);
        Assert (nat (nPins ps) \<le> length b);
        Assert (pin (b ! (nat (nPins ps) - 1)) \<noteq> PIN_INVALID) })"

definition PinSetUpdate :: "PinSet_t \<Rightarrow> PinPtr \<Rightarrow> int \<Rightarrow> bool \<Rightarrow> PinSet_t option" where
  "PinSetUpdate ps first n star = do {
     Assert (n \<ge> 0);
     ps \<leftarrow> (if n \<le> 1 then do {
               one \<leftarrow> (if n = 0 then Some PINSTAMP_INVALID else deref ps first);
               Some (ps\<lparr>onePin := one, pins := None, firstPin := PNull\<rparr>) }
             else Some (ps\<lparr>firstPin := first, onePin := PINSTAMP_INVALID\<rparr>));
     let ps = ps\<lparr>nPins := n, andStar := star\<rparr>;
     PinSetAssertValid ps;
     Some ps }"

text \<open>\<open>PinSet_Init\<close> overwrites the structure it is given, whatever it holds.\<close>

definition PinSet_Init ::
  "PinSet_t \<Rightarrow> PinStamp_t list option \<Rightarrow> int \<Rightarrow> bool \<Rightarrow> PinSet_t option" where
  "PinSet_Init ps ps_pins n star = do {
     Assert (n > 0 \<or> star);
     PinSetUpdate (ps\<lparr>pins := ps_pins\<rparr>) (case ps_pins of None \<Rightarrow> PNull | Some _ \<Rightarrow> PArr 0) n star }"

definition PinSet_Release :: "PinSet_t \<Rightarrow> PinSet_t option" where
  "PinSet_Release ps = PinSetUpdate ps PNull 0 False"

definition PinSetFirstPin :: "PinSet_t \<Rightarrow> PinPtr" where
  "PinSetFirstPin ps = (if nPins ps = 1 then POne 0 else firstPin ps)"

text \<open>The two loops of \<open>PinSet_IntersectWith\<close>. The first moves \<open>last\<close> down; its state is the
  number \<open>last - first + 1\<close> of stamps left. The second moves \<open>first\<close> up.\<close>

fun PinSet_trimLast :: "PinSet_t \<Rightarrow> PinPtr \<Rightarrow> pin_t \<Rightarrow> nat \<Rightarrow> nat option" where
  "PinSet_trimLast ps first up 0 = Some 0"
| "PinSet_trimLast ps first up (Suc n) = do {
     s \<leftarrow> deref ps (ptr_add first n);
     if pin s \<ge> up then PinSet_trimLast ps first up n else Some (Suc n) }"

fun PinSet_trimFirst :: "PinSet_t \<Rightarrow> PinPtr \<Rightarrow> pin_t \<Rightarrow> nat \<Rightarrow> (PinPtr \<times> nat) option" where
  "PinSet_trimFirst ps first lo 0 = Some (first, 0)"
| "PinSet_trimFirst ps first lo (Suc n) = do {
     s \<leftarrow> deref ps first;
     if pin s < lo then PinSet_trimFirst ps (ptr_add first 1) lo n else Some (first, Suc n) }"

definition PinSet_IntersectWith :: "PinSet_t \<Rightarrow> interval_t \<Rightarrow> PinSet_t option" where
  "PinSet_IntersectWith ps interval = do {
     let first = PinSetFirstPin ps;
     (first, n) \<leftarrow> (if first \<noteq> PNull then do {
                    n \<leftarrow> PinSet_trimLast ps first (upper interval) (nat (nPins ps));
                    PinSet_trimFirst ps first (lower interval) n }
                  else Some (first, nat (nPins ps)));
     Assert (andStar ps \<or> n > 0);
     PinSetUpdate ps first (int n) (andStar ps \<and> upper interval = PIN_INF) }"

text \<open>The loop of \<open>PinSet_Contains\<close>: \<open>n\<close> is \<open>end - cur\<close>.\<close>

fun PinSet_scan :: "PinSet_t \<Rightarrow> PinPtr \<Rightarrow> nat \<Rightarrow> pin_t \<Rightarrow> bool option" where
  "PinSet_scan ps cur 0 p = Some False"
| "PinSet_scan ps cur (Suc n) p = do {
     s \<leftarrow> deref ps cur;
     if pin s < p then PinSet_scan ps (ptr_add cur 1) n p else Some (pin s = p) }"

definition PinSet_Contains :: "PinSet_t \<Rightarrow> pin_t \<Rightarrow> bool option" where
  "PinSet_Contains ps p =
     (if p = PIN_INF then Some (andStar ps)
      else if p = PIN_INVALID then Some False
      else PinSet_scan ps (PinSetFirstPin ps) (nat (nPins ps)) p)"

definition PinSet_ReifyStar :: "PinSet_t \<Rightarrow> PinStamp_t \<Rightarrow> PinSet_t option" where
  "PinSet_ReifyStar ps real = do {
     Assert (andStar ps);
     PinSetUpdate ps (PVar real) 1 False }"

definition PinSet_JustStar :: "PinSet_t \<Rightarrow> bool" where
  "PinSet_JustStar ps \<longleftrightarrow> nPins ps = 0 \<and> andStar ps"

definition PinSet_BoundsWithoutStar :: "PinSet_t \<Rightarrow> interval_t option" where
  "PinSet_BoundsWithoutStar ps = do {
     Assert (nPins ps > 0);
     lo \<leftarrow> deref ps (PinSetFirstPin ps);
     hi \<leftarrow> deref ps (ptr_add (PinSetFirstPin ps) (nat (nPins ps) - 1));
     Some \<lparr>lower = pin lo, upper = pin hi + 1, stillValid = False\<rparr> }"

text \<open>\<open>PinSet_GetPins\<close>: the first pointer and the number of pins.\<close>

definition PinSet_GetPins :: "PinSet_t \<Rightarrow> PinPtr \<times> int" where
  "PinSet_GetPins ps = (PinSetFirstPin ps, nPins ps)"

section \<open>The stamps of a pin set\<close>

definition ps_list :: "PinSet_t \<Rightarrow> PinStamp_t list" where
  "ps_list ps = (if nPins ps = 1 then [onePin ps]
     else case (pins ps, firstPin ps) of
       (Some b, PArr k) \<Rightarrow> take (nat (nPins ps)) (drop k b) | _ \<Rightarrow> [])"

text \<open>An array of stamps as the pin cushion sends it: in numeric order, no invalid pin.\<close>

definition stamps_ok :: "PinStamp_t list \<Rightarrow> bool" where
  "stamps_ok b \<longleftrightarrow> sorted (map pin b) \<and> (\<forall>s \<in> set b. pin s \<noteq> PIN_INVALID \<and> pin s \<noteq> PIN_INF)"

definition wf_PinSet :: "PinSet_t \<Rightarrow> bool" where
  "wf_PinSet ps \<longleftrightarrow> nPins ps \<ge> 0 \<and>
     (if nPins ps \<le> 1 then pins ps = None \<and> firstPin ps = PNull \<and>
        (if nPins ps = 0 then onePin ps = PINSTAMP_INVALID else stamps_ok [onePin ps])
      else onePin ps = PINSTAMP_INVALID \<and>
        (case (pins ps, firstPin ps) of
           (Some b, PArr k) \<Rightarrow> stamps_ok b \<and> k + nat (nPins ps) \<le> length b | _ \<Rightarrow> False))"

text \<open>\<open>stamps_at ps p xs\<close>: the stamps \<open>xs\<close> can be read from pointer \<open>p\<close> on.\<close>

definition stamps_at :: "PinSet_t \<Rightarrow> PinPtr \<Rightarrow> PinStamp_t list \<Rightarrow> bool" where
  "stamps_at ps p xs \<longleftrightarrow> (\<forall>i < length xs. deref ps (ptr_add p i) = Some (xs ! i))"

lemma ptr_add_0 [simp]: "ptr_add p 0 = p"
  by (cases p) auto

lemma ptr_add_add [simp]: "ptr_add (ptr_add p m) n = ptr_add p (m + n)"
  by (cases p) auto

lemma stamps_at_Cons [simp]:
  "stamps_at ps p (x # xs) \<longleftrightarrow> deref ps p = Some x \<and> stamps_at ps (ptr_add p 1) xs"
  by (auto simp: stamps_at_def less_Suc_eq_0_disj)

lemma stamps_at_nth: "stamps_at ps p xs \<Longrightarrow> i < length xs \<Longrightarrow> deref ps (ptr_add p i) = Some (xs ! i)"
  by (simp add: stamps_at_def)

lemma stamps_at_drop: "stamps_at ps p xs \<Longrightarrow> stamps_at ps (ptr_add p k) (drop k xs)"
  by (auto simp: stamps_at_def)

lemma stamps_at_take: "stamps_at ps p xs \<Longrightarrow> stamps_at ps p (take k xs)"
  by (auto simp: stamps_at_def)

lemma stamps_ok_take_drop: "stamps_ok b \<Longrightarrow> stamps_ok (take n (drop k b))"
  by (auto simp: stamps_ok_def sorted_wrt_take sorted_wrt_drop dest: in_set_takeD in_set_dropD
      simp flip: take_map drop_map)

lemma wf_PinSet_stamps_ok: "wf_PinSet ps \<Longrightarrow> stamps_ok (ps_list ps)"
  by (auto simp: wf_PinSet_def ps_list_def stamps_ok_take_drop split: if_splits option.splits PinPtr.splits)
    (simp add: stamps_ok_def)

lemma wf_PinSet_length: "wf_PinSet ps \<Longrightarrow> length (ps_list ps) = nat (nPins ps)"
  by (auto simp: wf_PinSet_def ps_list_def split: if_splits option.splits PinPtr.splits)

lemma wf_PinSet_stamps_at: "wf_PinSet ps \<Longrightarrow> stamps_at ps (PinSetFirstPin ps) (ps_list ps)"
  by (auto simp: wf_PinSet_def ps_list_def PinSetFirstPin_def stamps_at_def
      split: if_splits option.splits PinPtr.splits)

lemma ps_list_Nil_iff: "wf_PinSet ps \<Longrightarrow> ps_list ps = [] \<longleftrightarrow> nPins ps = 0"
  using wf_PinSet_length [of ps] by (auto simp: wf_PinSet_def)

lemma PinSetFirstPin_Null_iff: "wf_PinSet ps \<Longrightarrow> PinSetFirstPin ps = PNull \<longleftrightarrow> nPins ps = 0"
  by (auto simp: wf_PinSet_def PinSetFirstPin_def split: if_splits option.splits PinPtr.splits)

section \<open>The loops\<close>

lemma PinSet_trimLast_sorted:
  "stamps_at ps p xs \<Longrightarrow> sorted (map pin xs) \<Longrightarrow> n \<le> length xs \<Longrightarrow>
   PinSet_trimLast ps p up n = Some (length (takeWhile (\<lambda>s. pin s < up) (take n xs)))"
proof (induction n)
  case (Suc n)
  have s: "deref ps (ptr_add p n) = Some (xs ! n)"
    using Suc.prems by (simp add: stamps_at_nth)
  have t: "take (Suc n) xs = take n xs @ [xs ! n]"
    using Suc.prems by (simp add: take_Suc_conv_app_nth)
  show ?case
  proof (cases "up \<le> pin (xs ! n)")
    case True
    with Suc s t show ?thesis
      by (auto simp: takeWhile_append takeWhile_eq_all_conv [THEN iffD2] linorder_not_le [symmetric])
  next
    case False
    have "pin x < up" if "x \<in> set (take n xs)" for x
    proof -
      from that obtain i where "i < n" "i < length xs" "x = xs ! i"
        by (auto simp: in_set_conv_nth)
      then have "pin x \<le> pin (xs ! n)"
        using Suc.prems by (auto simp: sorted_iff_nth_mono)
      with False show ?thesis by (meson linorder_not_less order_le_less_trans)
    qed
    moreover from False have "pin (xs ! n) < up" by (simp add: linorder_not_le)
    ultimately show ?thesis
      using False s t Suc.prems by (simp add: takeWhile_append2)
  qed
qed simp

lemma PinSet_trimFirst_eq:
  "stamps_at ps p xs \<Longrightarrow> PinSet_trimFirst ps p lo (length xs) =
     Some (let k = length (takeWhile (\<lambda>s. pin s < lo) xs) in (ptr_add p k, length xs - k))"
proof (induction xs arbitrary: p)
  case (Cons x xs)
  show ?case
  proof (cases "pin x < lo")
    case True
    with Cons show ?thesis by (simp add: Let_def)
  qed (use Cons.prems in \<open>simp\<close>)
qed simp

lemma PinSet_scan_sorted:
  "stamps_at ps p xs \<Longrightarrow> sorted (map pin xs) \<Longrightarrow>
   PinSet_scan ps p (length xs) q = Some (q \<in> pin ` set xs)"
proof (induction xs arbitrary: p)
  case (Cons x xs)
  then show ?case
    by (auto simp: not_less)
qed simp

lemma PinSet_checkOrder_ok:
  "stamps_ok b \<Longrightarrow> n < length b \<Longrightarrow> PinSet_checkOrder b n = Some ()"
  by (induction n) (auto simp: stamps_ok_def sorted_iff_nth_mono not_less)

lemma PinSetUpdate_ok:
  assumes at: "stamps_at ps p ys" and ok: "stamps_ok ys"
    and arr: "length ys \<ge> 2 \<Longrightarrow> \<exists>b k. pins ps = Some b \<and> p = PArr k \<and> stamps_ok b \<and> k + length ys \<le> length b"
  shows "\<exists>ps'. PinSetUpdate ps p (int (length ys)) star = Some ps' \<and> wf_PinSet ps' \<and>
    ps_list ps' = ys \<and> andStar ps' = star"
proof -
  consider "ys = []" | y where "ys = [y]" | "length ys \<ge> 2"
    by (cases ys rule: remdups_adj.cases) auto
  then show ?thesis
  proof cases
    case 1
    then show ?thesis
      by (simp add: PinSetUpdate_def PinSetAssertValid_def wf_PinSet_def ps_list_def PINSTAMP_INVALID_def)
  next
    case 2
    with at ok show ?thesis
      by (simp add: PinSetUpdate_def PinSetAssertValid_def wf_PinSet_def ps_list_def stamps_ok_def)
  next
    case 3
    with arr obtain b k where b: "pins ps = Some b" "p = PArr k" "stamps_ok b" "k + length ys \<le> length b"
      by auto
    have "PinSet_checkOrder b (length ys - 1) = Some ()"
      using b 3 by (intro PinSet_checkOrder_ok) auto
    moreover have "pin (b ! (length ys - 1)) \<noteq> PIN_INVALID"
      using b 3 by (auto simp: stamps_ok_def)
    moreover have "take (length ys) (drop k b) = ys"
      using at b by (intro nth_equalityI) (auto simp: stamps_at_def)
    moreover have "ys \<noteq> []" using 3 by auto
    ultimately show ?thesis
      using b 3 by (simp add: PinSetUpdate_def PinSetAssertValid_def wf_PinSet_def ps_list_def
          PINSTAMP_INVALID_def Let_def)
  qed
qed

section \<open>Intersection as a filter\<close>

definition pins_in :: "interval_t \<Rightarrow> PinStamp_t list \<Rightarrow> PinStamp_t list" where
  "pins_in i xs = filter (\<lambda>s. lower i \<le> pin s \<and> pin s < upper i) xs"

lemma pins_in_stamps_ok: "stamps_ok xs \<Longrightarrow> stamps_ok (pins_in i xs)"
  by (auto simp: pins_in_def stamps_ok_def sorted_map_filter_sub)

lemma pins_in_eq_drop_take:
  assumes sorted: "sorted (map pin xs)" and ys_def: "ys = takeWhile (\<lambda>s. pin s < upper i) xs"
  shows "pins_in i xs = drop (length (takeWhile (\<lambda>s. pin s < lower i) ys)) ys"
proof -
  have ys: "ys = filter (\<lambda>s. pin s < upper i) xs"
    using sorted by (simp add: ys_def filter_less_eq_takeWhile)
  then have "sorted (map pin ys)" using sorted by (simp add: sorted_map_filter_sub)
  then have "filter (\<lambda>s. lower i \<le> pin s) ys = dropWhile (\<lambda>s. pin s < lower i) ys"
    by (rule filter_ge_eq_dropWhile)
  moreover have "pins_in i xs = filter (\<lambda>s. lower i \<le> pin s) ys"
    by (simp add: ys pins_in_def conj_commute)
  ultimately show ?thesis by (simp add: dropWhile_eq_drop)
qed

lemma PinSet_trim_loops:
  assumes wf: "wf_PinSet ps"
  defines "p \<equiv> PinSetFirstPin ps"
  obtains k where "(if p \<noteq> PNull then Option.bind (PinSet_trimLast ps p (upper i) (nat (nPins ps)))
      (\<lambda>n. PinSet_trimFirst ps p (lower i) n) else Some (p, nat (nPins ps)))
    = Some (ptr_add p k, length (pins_in i (ps_list ps)))"
    and "stamps_at ps (ptr_add p k) (pins_in i (ps_list ps))"
    and "k + length (pins_in i (ps_list ps)) \<le> length (ps_list ps) \<or> pins_in i (ps_list ps) = []"
proof -
  let ?xs = "ps_list ps"
  define ys where "ys = takeWhile (\<lambda>s. pin s < upper i) ?xs"
  define k where "k = length (takeWhile (\<lambda>s. pin s < lower i) ys)"
  have at: "stamps_at ps p ?xs" and len: "nat (nPins ps) = length ?xs" and sorted: "sorted (map pin ?xs)"
    using wf wf_PinSet_stamps_ok [OF wf]
    by (simp_all add: p_def wf_PinSet_stamps_at wf_PinSet_length stamps_ok_def)
  have aty: "stamps_at ps p ys"
    using stamps_at_take [OF at, of "length ys"] by (simp add: ys_def takeWhile_eq_take [symmetric])
  have keep: "pins_in i ?xs = drop k ys"
    using pins_in_eq_drop_take [OF sorted ys_def] by (simp add: k_def)
  have loops: "(if p \<noteq> PNull then Option.bind (PinSet_trimLast ps p (upper i) (nat (nPins ps)))
      (\<lambda>n. PinSet_trimFirst ps p (lower i) n) else Some (p, nat (nPins ps)))
    = Some (ptr_add p k, length (pins_in i ?xs))"
  proof (cases "p = PNull")
    case True
    with wf have "?xs = []" by (simp add: p_def PinSetFirstPin_Null_iff ps_list_Nil_iff)
    with True len show ?thesis by (simp add: pins_in_def k_def)
  next
    case False
    then show ?thesis
      using PinSet_trimLast_sorted [OF at sorted, of "length ?xs" "upper i"]
        PinSet_trimFirst_eq [OF aty, of "lower i"]
      by (simp add: len keep k_def Let_def flip: ys_def)
  qed
  have "length ys \<le> length ?xs" by (simp add: ys_def length_takeWhile_le)
  moreover have "k \<le> length ys" by (simp add: k_def length_takeWhile_le)
  ultimately show ?thesis
    using that [OF loops] stamps_at_drop [OF aty, of k] by (simp add: keep)
qed

section \<open>Properties\<close>

lemma PinSet_IntersectWith_eq:
  assumes wf: "wf_PinSet ps"
  shows "if andStar ps \<or> pins_in i (ps_list ps) \<noteq> []
    then \<exists>ps'. PinSet_IntersectWith ps i = Some ps' \<and> wf_PinSet ps' \<and>
      ps_list ps' = pins_in i (ps_list ps) \<and> andStar ps' = (andStar ps \<and> upper i = PIN_INF)
    else PinSet_IntersectWith ps i = None"
proof -
  let ?kept = "pins_in i (ps_list ps)" and ?p = "PinSetFirstPin ps"
  define star where "star = (andStar ps \<and> upper i = PIN_INF)"
  obtain k where loops: "(if ?p \<noteq> PNull then Option.bind (PinSet_trimLast ps ?p (upper i) (nat (nPins ps)))
      (\<lambda>n. PinSet_trimFirst ps ?p (lower i) n) else Some (?p, nat (nPins ps)))
      = Some (ptr_add ?p k, length ?kept)"
    and at: "stamps_at ps (ptr_add ?p k) ?kept"
    and k: "k + length ?kept \<le> length (ps_list ps) \<or> ?kept = []"
    using PinSet_trim_loops [OF wf, of i] by blast
  have "\<exists>b j. pins ps = Some b \<and> ptr_add ?p k = PArr j \<and> stamps_ok b \<and> j + length ?kept \<le> length b"
    if two: "length ?kept \<ge> 2"
  proof -
    from two k have "k + length ?kept \<le> nat (nPins ps)" by (auto simp: wf_PinSet_length [OF wf])
    with two wf show ?thesis
      by (auto simp: wf_PinSet_def PinSetFirstPin_def split: option.splits PinPtr.splits if_splits)
  qed
  then obtain ps' where ps': "PinSetUpdate ps (ptr_add ?p k) (int (length ?kept)) star = Some ps'"
      "wf_PinSet ps'" "ps_list ps' = ?kept" "andStar ps' = star"
    using PinSetUpdate_ok [OF at pins_in_stamps_ok [OF wf_PinSet_stamps_ok [OF wf]]] by blast
  have "PinSet_IntersectWith ps i =
    Option.bind (Assert (andStar ps \<or> ?kept \<noteq> [])) (\<lambda>_. Some ps')"
    unfolding PinSet_IntersectWith_def Let_def loops using ps'(1) by (simp add: star_def)
  with ps' show ?thesis by (simp add: star_def)
qed

text \<open>C3: \<open>PinSet_IntersectWith\<close> keeps exactly the pins that lie in the interval, in their order, and
  keeps \<open>*\<close> only for an interval without upper end. It panics exactly when \<open>*\<close> was not in the
  set and no pin is left. No read is outside of the array, and the result is well formed.\<close>

theorem PinSet_IntersectWith_correct:
  assumes wf: "wf_PinSet ps"
  shows "if andStar ps \<or> pins_in i (ps_list ps) \<noteq> []
    then \<exists>ps'. PinSet_IntersectWith ps i = Some ps' \<and> wf_PinSet ps' \<and>
      ps_list ps' = pins_in i (ps_list ps) \<and> andStar ps' = (andStar ps \<and> upper i = PIN_INF)
    else PinSet_IntersectWith ps i = None"
  using assms by (rule PinSet_IntersectWith_eq)

theorem PinSet_IntersectWith_correct_witness:
  "\<exists>ps'. PinSet_IntersectWith
    \<lparr>pins = Some [\<lparr>pin = 5, tv = \<lparr>tv_sec = 0, tv_usec = 0\<rparr>\<rparr>, \<lparr>pin = 7, tv = \<lparr>tv_sec = 1, tv_usec = 0\<rparr>\<rparr>],
      firstPin = PArr 0, onePin = PINSTAMP_INVALID, nPins = 2, andStar = True\<rparr>
    \<lparr>lower = 6, upper = 9, stillValid = False\<rparr> = Some ps' \<and> map pin (ps_list ps') = [7] \<and> \<not> andStar ps'"
proof -
  let ?ps = "\<lparr>pins = Some [\<lparr>pin = 5, tv = \<lparr>tv_sec = 0, tv_usec = 0\<rparr>\<rparr>, \<lparr>pin = 7, tv = \<lparr>tv_sec = 1, tv_usec = 0\<rparr>\<rparr>],
      firstPin = PArr 0, onePin = PINSTAMP_INVALID, nPins = 2, andStar = True\<rparr>"
  have wf: "wf_PinSet ?ps"
    by (simp add: wf_PinSet_def stamps_ok_def pin_consts)
  have "pins_in \<lparr>lower = 6, upper = 9, stillValid = False\<rparr> (ps_list ?ps)
    = [\<lparr>pin = 7, tv = \<lparr>tv_sec = 1, tv_usec = 0\<rparr>\<rparr>]"
    by (simp add: pins_in_def ps_list_def)
  with PinSet_IntersectWith_correct [OF wf, of "\<lparr>lower = 6, upper = 9, stillValid = False\<rparr>"]
  show ?thesis by (auto simp: PIN_INF_def)
qed

lemma PinSet_Contains_eq:
  assumes wf: "wf_PinSet ps"
  shows "PinSet_Contains ps p = Some (if p = PIN_INF then andStar ps else p \<in> pin ` set (ps_list ps))"
proof -
  have ok: "stamps_ok (ps_list ps)" using wf by (rule wf_PinSet_stamps_ok)
  then have "PIN_INVALID \<notin> pin ` set (ps_list ps)" by (auto simp: stamps_ok_def)
  then show ?thesis
    using PinSet_scan_sorted [OF wf_PinSet_stamps_at [OF wf], of p] ok
    by (auto simp: PinSet_Contains_def wf_PinSet_length [OF wf] stamps_ok_def)
qed

text \<open>C4: \<open>PinSet_Contains\<close> decides membership: \<^const>\<open>PIN_INF\<close> stands for \<open>*\<close>, and every other pin is in
  the set when one of the stamps carries it.\<close>

theorem PinSet_Contains_correct:
  assumes wf: "wf_PinSet ps"
  shows "PinSet_Contains ps p = Some (if p = PIN_INF then andStar ps else p \<in> pin ` set (ps_list ps))"
  using assms by (rule PinSet_Contains_eq)

theorem PinSet_Contains_correct_witness:
  "PinSet_Contains
    \<lparr>pins = Some [\<lparr>pin = 5, tv = \<lparr>tv_sec = 0, tv_usec = 0\<rparr>\<rparr>, \<lparr>pin = 7, tv = \<lparr>tv_sec = 1, tv_usec = 0\<rparr>\<rparr>],
      firstPin = PArr 0, onePin = PINSTAMP_INVALID, nPins = 2, andStar = True\<rparr> 7 = Some True"
proof -
  have wf: "wf_PinSet
    \<lparr>pins = Some [\<lparr>pin = 5, tv = \<lparr>tv_sec = 0, tv_usec = 0\<rparr>\<rparr>, \<lparr>pin = 7, tv = \<lparr>tv_sec = 1, tv_usec = 0\<rparr>\<rparr>],
      firstPin = PArr 0, onePin = PINSTAMP_INVALID, nPins = 2, andStar = True\<rparr>"
    by (simp add: wf_PinSet_def stamps_ok_def pin_consts)
  show ?thesis
    using PinSet_Contains_correct [OF wf, of 7] by (simp add: ps_list_def PIN_INF_def)
qed

lemma PinSet_BoundsWithoutStar_eq:
  assumes wf: "wf_PinSet ps" and ne: "ps_list ps \<noteq> []"
  shows "\<exists>b. PinSet_BoundsWithoutStar ps = Some b \<and> wf_interval b \<and> \<not> stillValid b \<and>
    lower b = pin (hd (ps_list ps)) \<and> upper b = pin (last (ps_list ps)) + 1 \<and>
    (\<forall>s \<in> set (ps_list ps). lower b \<le> pin s \<and> pin s < upper b)"
proof -
  let ?xs = "ps_list ps"
  have ok: "stamps_ok ?xs" and at: "stamps_at ps (PinSetFirstPin ps) ?xs"
    using wf by (simp_all add: wf_PinSet_stamps_ok wf_PinSet_stamps_at)
  have n: "nPins ps > 0" "nat (nPins ps) = length ?xs"
    using wf ne by (auto simp: ps_list_Nil_iff wf_PinSet_length) (simp add: wf_PinSet_def)
  have lo: "deref ps (PinSetFirstPin ps) = Some (hd ?xs)"
    using stamps_at_nth [OF at, of 0] ne by (simp add: hd_conv_nth)
  have hi: "deref ps (ptr_add (PinSetFirstPin ps) (nat (nPins ps) - 1)) = Some (last ?xs)"
    using stamps_at_nth [OF at, of "length ?xs - 1"] ne n(2) by (simp add: last_conv_nth)
  have le: "pin (hd ?xs) \<le> pin s \<and> pin s \<le> pin (last ?xs)" if "s \<in> set ?xs" for s
    using that ok ne by (auto simp: stamps_ok_def in_set_conv_nth sorted_iff_nth_mono hd_conv_nth last_conv_nth)
  have "last ?xs \<in> set ?xs" using ne by simp
  then have "pin (last ?xs) \<noteq> - 1" and "pin (hd ?xs) \<noteq> 0"
    using ok ne by (auto simp: stamps_ok_def pin_consts)
  then have inc: "p < pin (last ?xs) + 1 \<longleftrightarrow> p \<le> pin (last ?xs)" for p
    by (simp add: less_inc_iff)
  show ?thesis
    unfolding PinSet_BoundsWithoutStar_def using n lo hi le ne \<open>pin (hd ?xs) \<noteq> 0\<close>
    by (auto simp: wf_interval_def inc pin_pos_iff)
qed

text \<open>C5: the bounds of a set with at least one pin form a well-formed interval that starts at its
  least pin and contains every pin; the \<open>+ 1\<close> does not wrap around.\<close>

theorem PinSet_BoundsWithoutStar_correct:
  assumes wf: "wf_PinSet ps" and ne: "ps_list ps \<noteq> []"
  shows "\<exists>b. PinSet_BoundsWithoutStar ps = Some b \<and> wf_interval b \<and> \<not> stillValid b \<and>
    lower b = pin (hd (ps_list ps)) \<and> upper b = pin (last (ps_list ps)) + 1 \<and>
    (\<forall>s \<in> set (ps_list ps). lower b \<le> pin s \<and> pin s < upper b)"
  using assms by (rule PinSet_BoundsWithoutStar_eq)

theorem PinSet_BoundsWithoutStar_correct_witness:
  "\<exists>b. PinSet_BoundsWithoutStar
    \<lparr>pins = Some [\<lparr>pin = 5, tv = \<lparr>tv_sec = 0, tv_usec = 0\<rparr>\<rparr>, \<lparr>pin = 7, tv = \<lparr>tv_sec = 1, tv_usec = 0\<rparr>\<rparr>],
      firstPin = PArr 0, onePin = PINSTAMP_INVALID, nPins = 2, andStar = True\<rparr> = Some b \<and> lower b = 5 \<and> upper b = 8"
proof -
  let ?ps = "\<lparr>pins = Some [\<lparr>pin = 5, tv = \<lparr>tv_sec = 0, tv_usec = 0\<rparr>\<rparr>, \<lparr>pin = 7, tv = \<lparr>tv_sec = 1, tv_usec = 0\<rparr>\<rparr>],
      firstPin = PArr 0, onePin = PINSTAMP_INVALID, nPins = 2, andStar = True\<rparr>"
  have wf: "wf_PinSet ?ps"
    by (simp add: wf_PinSet_def stamps_ok_def pin_consts)
  have ne: "ps_list ?ps \<noteq> []" by (simp add: ps_list_def)
  show ?thesis
    using PinSet_BoundsWithoutStar_correct [OF wf ne] by (auto simp: ps_list_def)
qed

end
