(* ===== verification/PinPolicy.thy ===== *)
theory PinPolicy
  imports PinSet
begin

text \<open>
  The policies that choose the pin a query runs at: \<open>src/src/client/policy.c\<close>.

  The time of day and the value of \<open>rand()\<close> are arguments of the model. A failing
  \<open>gettimeofday\<close> panics: the time is then \<^term>\<open>None\<close>.
\<close>

definition ChooseLargestBoundedPin :: "PinSet_t \<Rightarrow> pin_t option" where
  "ChooseLargestBoundedPin ps =
     (if PinSet_JustStar ps then Some PIN_INF
      else do { b \<leftarrow> PinSet_BoundsWithoutStar ps; Some (upper b - 1) })"

definition ChooseLargestPin :: "PinSet_t \<Rightarrow> pin_t option" where
  "ChooseLargestPin ps =
     (if andStar ps then Some PIN_INF
      else do { b \<leftarrow> PinSet_BoundsWithoutStar ps; Some (upper b - 1) })"

text \<open>\<open>rand () % n\<close> on the non-negative result of \<open>rand\<close>.\<close>

definition ChooseVariety :: "timeval option \<Rightarrow> nat \<Rightarrow> PinSet_t \<Rightarrow> nat \<Rightarrow> nat \<Rightarrow> pin_t option" where
  "ChooseVariety now rand ps secsMin secsMax =
     (if PinSet_JustStar ps then Some PIN_INF
      else if andStar ps then do {
        let (first, n) = PinSet_GetPins ps;
        let secs = (if secsMax = secsMin then secsMin
                    else rand mod (secsMax - secsMin + 1) + secsMin);
        bound \<leftarrow> now;
        let bound = bound\<lparr>tv_sec := tv_sec bound - int secs\<rparr>;
        latest \<leftarrow> deref ps (ptr_add first (nat (n - 1)));
        if timeval_lessthan (tv latest) bound then Some PIN_INF else Some PIN_INVALID }
      else Some PIN_INVALID)"

definition ChooseMiddlePinWithVariety5 :: "timeval option \<Rightarrow> nat \<Rightarrow> PinSet_t \<Rightarrow> pin_t option" where
  "ChooseMiddlePinWithVariety5 now rand ps = do {
     variety \<leftarrow> ChooseVariety now rand ps 5 5;
     if variety \<noteq> PIN_INVALID then Some variety
     else do {
       let (first, n) = PinSet_GetPins ps;
       s \<leftarrow> deref ps (ptr_add first (nat (n div 2)));
       Some (pin s) } }"

definition ChooseLatestBoundedPinWithVariety5 :: "timeval option \<Rightarrow> nat \<Rightarrow> PinSet_t \<Rightarrow> pin_t option" where
  "ChooseLatestBoundedPinWithVariety5 now rand ps = do {
     variety \<leftarrow> ChooseVariety now rand ps 5 5;
     if variety \<noteq> PIN_INVALID then Some variety
     else do {
       let (first, n) = PinSet_GetPins ps;
       s \<leftarrow> deref ps (ptr_add first (nat (n - 1)));
       Some (pin s) } }"

definition ChooseLatestBoundedPinWithVariety5To20 :: "timeval option \<Rightarrow> nat \<Rightarrow> PinSet_t \<Rightarrow> pin_t option" where
  "ChooseLatestBoundedPinWithVariety5To20 now rand ps = do {
     variety \<leftarrow> ChooseVariety now rand ps 5 20;
     if variety \<noteq> PIN_INVALID then Some variety
     else do {
       let (first, n) = PinSet_GetPins ps;
       s \<leftarrow> deref ps (ptr_add first (nat (n - 1)));
       Some (pin s) } }"

text \<open>The registered policies, by the name \<open>nodes.txt\<close> selects them with.\<close>

datatype Policy = LargestBoundedPin | LargestPin | MiddlePinWithVariety5
  | LatestBoundedPinWithVariety5 | LatestBoundedPinWithVariety5To20

fun policy_name :: "Policy \<Rightarrow> string" where
  "policy_name LargestBoundedPin = ''largest bounded pin''"
| "policy_name LargestPin = ''largest pin''"
| "policy_name MiddlePinWithVariety5 = ''middle pin with variety (5 secs)''"
| "policy_name LatestBoundedPinWithVariety5 = ''latest bounded pin with variety (5 secs)''"
| "policy_name LatestBoundedPinWithVariety5To20 = ''latest bounded pin with variety (5 to 20 secs)''"

fun policy_fn :: "Policy \<Rightarrow> timeval option \<Rightarrow> nat \<Rightarrow> PinSet_t \<Rightarrow> pin_t option" where
  "policy_fn LargestBoundedPin now rand ps = ChooseLargestBoundedPin ps"
| "policy_fn LargestPin now rand ps = ChooseLargestPin ps"
| "policy_fn MiddlePinWithVariety5 now rand ps = ChooseMiddlePinWithVariety5 now rand ps"
| "policy_fn LatestBoundedPinWithVariety5 now rand ps = ChooseLatestBoundedPinWithVariety5 now rand ps"
| "policy_fn LatestBoundedPinWithVariety5To20 now rand ps = ChooseLatestBoundedPinWithVariety5To20 now rand ps"

lemma bounds_upper_minus_1:
  assumes "wf_PinSet ps" "ps_list ps \<noteq> []"
  shows "\<exists>b. PinSet_BoundsWithoutStar ps = Some b \<and> upper b - 1 \<in> pin ` set (ps_list ps)"
proof -
  let ?xs = "ps_list ps"
  have at: "stamps_at ps (PinSetFirstPin ps) ?xs" using assms(1) by (rule wf_PinSet_stamps_at)
  have n: "nPins ps > 0" "nat (nPins ps) = length ?xs"
    using assms by (auto simp: ps_list_Nil_iff wf_PinSet_length) (simp add: wf_PinSet_def)
  have "deref ps (PinSetFirstPin ps) = Some (hd ?xs)"
    "deref ps (ptr_add (PinSetFirstPin ps) (length ?xs - 1)) = Some (last ?xs)"
    using stamps_at_nth [OF at, of 0] stamps_at_nth [OF at, of "length ?xs - 1"] assms(2)
    by (simp_all add: hd_conv_nth last_conv_nth)
  then show ?thesis using n assms(2) by (simp add: PinSet_BoundsWithoutStar_def)
qed

lemma deref_in_stamps:
  assumes "wf_PinSet ps" "i < nat (nPins ps)"
  shows "\<exists>s \<in> set (ps_list ps). deref ps (ptr_add (PinSetFirstPin ps) i) = Some s"
  using assms stamps_at_nth [OF wf_PinSet_stamps_at [OF assms(1)], of i]
  by (auto simp: wf_PinSet_length)

definition in_pin_set :: "PinSet_t \<Rightarrow> pin_t \<Rightarrow> bool" where
  "in_pin_set ps p \<longleftrightarrow> (p = PIN_INF \<and> andStar ps) \<or> p \<in> pin ` set (ps_list ps)"

lemma ChooseVariety_result:
  assumes "wf_PinSet ps" "now \<noteq> None"
  shows "\<exists>p. ChooseVariety now rand ps lo hi = Some p \<and>
    (p = PIN_INVALID \<and> \<not> PinSet_JustStar ps \<or> p = PIN_INF \<and> andStar ps)"
proof (cases "andStar ps \<and> \<not> PinSet_JustStar ps")
  case True
  then have "nPins ps > 0" using assms(1) by (auto simp: PinSet_JustStar_def wf_PinSet_def)
  then have "nat (nPins ps - 1) < nat (nPins ps)" by linarith
  then show ?thesis
    using deref_in_stamps [OF assms(1)] True assms(2)
    by (fastforce simp: ChooseVariety_def PinSet_GetPins_def Let_def)
qed (auto simp: ChooseVariety_def PinSet_JustStar_def)

lemma variety_then_pick:
  assumes wf: "wf_PinSet ps" and now: "now \<noteq> None"
    and i: "\<not> PinSet_JustStar ps \<Longrightarrow> i < nat (nPins ps)"
  shows "\<exists>p. Option.bind (ChooseVariety now rand ps lo hi) (\<lambda>variety.
      if variety \<noteq> PIN_INVALID then Some variety
      else Option.bind (deref ps (ptr_add (PinSetFirstPin ps) i)) (\<lambda>s. Some (pin s))) = Some p \<and>
    in_pin_set ps p"
proof -
  obtain p where p: "ChooseVariety now rand ps lo hi = Some p"
    "p = PIN_INVALID \<and> \<not> PinSet_JustStar ps \<or> p = PIN_INF \<and> andStar ps"
    using ChooseVariety_result [OF wf now] by blast
  show ?thesis
  proof (cases "p = PIN_INVALID")
    case True
    with p(2) have "\<not> PinSet_JustStar ps" by (auto simp: pin_consts)
    with deref_in_stamps [OF wf i] obtain s where
      "s \<in> set (ps_list ps)" "deref ps (ptr_add (PinSetFirstPin ps) i) = Some s" by blast
    with True p(1) show ?thesis by (auto simp: in_pin_set_def)
  next
    case False
    with p show ?thesis by (auto simp: in_pin_set_def)
  qed
qed

lemma policy_fn_cases:
  assumes wf: "wf_PinSet ps" and ne: "andStar ps \<or> ps_list ps \<noteq> []" and now: "now \<noteq> None"
  shows "\<exists>p. policy_fn pol now rand ps = Some p \<and> in_pin_set ps p"
proof -
  have "nPins ps \<ge> 0" using wf by (simp add: wf_PinSet_def)
  then have pos: "\<not> PinSet_JustStar ps \<Longrightarrow> nPins ps > 0"
    using ne by (auto simp: PinSet_JustStar_def ps_list_Nil_iff [OF wf])
  then have lst: "\<not> PinSet_JustStar ps \<Longrightarrow> ps_list ps \<noteq> []"
    by (auto simp: ps_list_Nil_iff [OF wf])
  from pos have last: "\<not> PinSet_JustStar ps \<Longrightarrow> nat (nPins ps - 1) < nat (nPins ps)"
    and mid: "\<not> PinSet_JustStar ps \<Longrightarrow> nat (nPins ps div 2) < nat (nPins ps)"
    by auto
  note pick = variety_then_pick [OF wf now last] variety_then_pick [OF wf now mid]
  show ?thesis
  proof (cases pol)
    case LargestBoundedPin
    show ?thesis
      using bounds_upper_minus_1 [OF wf] lst
      by (cases "PinSet_JustStar ps")
        (auto simp: LargestBoundedPin ChooseLargestBoundedPin_def in_pin_set_def PinSet_JustStar_def)
  next
    case LargestPin
    show ?thesis
      using bounds_upper_minus_1 [OF wf] ne
      by (cases "andStar ps") (auto simp: LargestPin ChooseLargestPin_def in_pin_set_def)
  next
    case MiddlePinWithVariety5
    show ?thesis
      unfolding MiddlePinWithVariety5 policy_fn.simps ChooseMiddlePinWithVariety5_def PinSet_GetPins_def Let_def prod.case
      by (rule pick(2))
  next
    case LatestBoundedPinWithVariety5
    show ?thesis
      unfolding LatestBoundedPinWithVariety5 policy_fn.simps ChooseLatestBoundedPinWithVariety5_def PinSet_GetPins_def Let_def prod.case
      by (rule pick(1))
  next
    case LatestBoundedPinWithVariety5To20
    show ?thesis
      unfolding LatestBoundedPinWithVariety5To20 policy_fn.simps ChooseLatestBoundedPinWithVariety5To20_def PinSet_GetPins_def Let_def prod.case
      by (rule pick(1))
  qed
qed

lemma in_pin_set_Contains:
  assumes "wf_PinSet ps"
  shows "in_pin_set ps p \<longleftrightarrow> PinSet_Contains ps p = Some True"
  using wf_PinSet_stamps_ok [OF assms] PinSet_Contains_eq [OF assms, of p]
  by (auto simp: in_pin_set_def stamps_ok_def)

lemma policy_fn_contained:
  assumes wf: "wf_PinSet ps" and ne: "andStar ps \<or> ps_list ps \<noteq> []" and now: "now \<noteq> None"
  shows "\<exists>p. policy_fn pol now rand ps = Some p \<and> p \<noteq> PIN_INVALID \<and> PinSet_Contains ps p = Some True"
proof -
  obtain p where p: "policy_fn pol now rand ps = Some p" "PinSet_Contains ps p = Some True"
    using policy_fn_cases [OF assms] in_pin_set_Contains [OF wf] by blast
  moreover have "PinSet_Contains ps PIN_INVALID = Some False"
    by (simp add: PinSet_Contains_def pin_consts)
  ultimately show ?thesis by auto
qed

text \<open>C6: whatever the clock and the random number, every registered policy chooses a pin of the pin
  set (\<^const>\<open>PIN_INF\<close> only when \<open>*\<close> is in it), never the invalid pin: the panic "Pin set does
  not contain chosen pin" and the assertion of \<open>Client_Exec\<close> cannot fire on a non-empty set.\<close>

theorem policy_pin_contained:
  assumes "wf_PinSet ps" and "andStar ps \<or> ps_list ps \<noteq> []" and "now \<noteq> None"
  shows "\<exists>p. policy_fn pol now rand ps = Some p \<and> p \<noteq> PIN_INVALID \<and> PinSet_Contains ps p = Some True"
  using assms by (rule policy_fn_contained)

theorem policy_pin_contained_witness:
  "\<exists>p. policy_fn LatestBoundedPinWithVariety5To20 (Some \<lparr>tv_sec = 100, tv_usec = 0\<rparr>) 3
      \<lparr>pins = None, firstPin = PNull, onePin = \<lparr>pin = 9, tv = \<lparr>tv_sec = 0, tv_usec = 0\<rparr>\<rparr>,
       nPins = 1, andStar = True\<rparr> = Some p \<and> p \<noteq> PIN_INVALID"
proof -
  let ?ps = "\<lparr>pins = None, firstPin = PNull, onePin = \<lparr>pin = 9, tv = \<lparr>tv_sec = 0, tv_usec = 0\<rparr>\<rparr>,
       nPins = 1, andStar = True\<rparr>"
  have wf: "wf_PinSet ?ps" by (simp add: wf_PinSet_def stamps_ok_def pin_consts)
  show ?thesis
    using policy_pin_contained [OF wf, of "Some \<lparr>tv_sec = 100, tv_usec = 0\<rparr>"
        LatestBoundedPinWithVariety5To20 3] by auto
qed

end
