(* ===== verification/DblList.thy ===== *)
theory DblList
  imports TxPrelude
begin

text \<open>
  Intrusive doubly linked lists: the template \<open>src/src/lib/tmpl/dbllist.h\<close>.

  The template argument \<open>FIELD\<close>, the name of the link inside of the container, is a pair of a
  reader and an updater. The build sets \<open>PARANOID\<close>, so a link also remembers its list; the list
  object itself is known by its address \<open>l\<close>. \<open>UBERPARANOID\<close> is off.
\<close>

section \<open>Operations\<close>

record LIST_t =
  head :: addr
  tail :: addr

record LIST_Link_t =
  lprev :: addr
  lnext :: addr
  llist :: addr

record 'c FIELD =
  getf :: "'c \<Rightarrow> LIST_Link_t"
  updf :: "(LIST_Link_t \<Rightarrow> LIST_Link_t) \<Rightarrow> 'c \<Rightarrow> 'c"

definition LIST_Init :: LIST_t where
  "LIST_Init = \<lparr>head = 0, tail = 0\<rparr>"

definition LIST_PushFront ::
  "'c FIELD \<Rightarrow> addr \<Rightarrow> 'c heap \<Rightarrow> LIST_t \<Rightarrow> addr \<Rightarrow> ('c heap \<times> LIST_t) option" where
  "LIST_PushFront F la h l v = do {
     h \<leftarrow> upd h v (updf F (llist_update (\<lambda>_. la)));
     h \<leftarrow> upd h v (updf F (lprev_update (\<lambda>_. 0)));
     h \<leftarrow> upd h v (updf F (lnext_update (\<lambda>_. head l)));
     h \<leftarrow> (if head l \<noteq> 0 then upd h (head l) (updf F (lprev_update (\<lambda>_. v))) else Some h);
     let l = l\<lparr>head := v\<rparr>;
     Some (h, if tail l = 0 then l\<lparr>tail := v\<rparr> else l)
   }"

definition LIST_PushBack ::
  "'c FIELD \<Rightarrow> addr \<Rightarrow> 'c heap \<Rightarrow> LIST_t \<Rightarrow> addr \<Rightarrow> ('c heap \<times> LIST_t) option" where
  "LIST_PushBack F la h l v = do {
     h \<leftarrow> upd h v (updf F (llist_update (\<lambda>_. la)));
     h \<leftarrow> upd h v (updf F (lprev_update (\<lambda>_. tail l)));
     h \<leftarrow> upd h v (updf F (lnext_update (\<lambda>_. 0)));
     h \<leftarrow> (if tail l \<noteq> 0 then upd h (tail l) (updf F (lnext_update (\<lambda>_. v))) else Some h);
     let l = l\<lparr>tail := v\<rparr>;
     Some (h, if head l = 0 then l\<lparr>head := v\<rparr> else l)
   }"

definition LIST_Unlink ::
  "'c FIELD \<Rightarrow> addr \<Rightarrow> 'c heap \<Rightarrow> LIST_t \<Rightarrow> addr \<Rightarrow> ('c heap \<times> LIST_t) option" where
  "LIST_Unlink F la h l v = do {
     c \<leftarrow> h v;
     Assert (llist (getf F c) \<noteq> 0);
     Assert (llist (getf F c) = la);
     h \<leftarrow> upd h v (updf F (llist_update (\<lambda>_. 0)));
     let nxt = lnext (getf F c);
     let prv = lprev (getf F c);
     (h, l) \<leftarrow> (if nxt \<noteq> 0
                then do { h \<leftarrow> upd h nxt (updf F (lprev_update (\<lambda>_. prv))); Some (h, l) }
                else Some (h, l\<lparr>tail := prv\<rparr>));
     if prv \<noteq> 0
     then do { h \<leftarrow> upd h prv (updf F (lnext_update (\<lambda>_. nxt))); Some (h, l) }
     else Some (h, l\<lparr>head := nxt\<rparr>)
   }"

section \<open>The abstract list\<close>

text \<open>The law of a container field, and the links as functions on addresses.\<close>

locale container_field =
  fixes F :: "'c FIELD"
  assumes get_upd [simp]: "getf F (updf F f c) = f (getf F c)"

definition fld :: "'c FIELD \<Rightarrow> 'c heap \<Rightarrow> (LIST_Link_t \<Rightarrow> addr) \<Rightarrow> addr \<Rightarrow> addr" where
  "fld F h s x = (case h x of None \<Rightarrow> 0 | Some c \<Rightarrow> s (getf F c))"

text \<open>\<open>dbl_list F la h l xs\<close>: the list at \<open>la\<close> with header \<open>l\<close> contains exactly \<open>xs\<close>, front to
  back.\<close>

definition dbl_list :: "'c FIELD \<Rightarrow> addr \<Rightarrow> 'c heap \<Rightarrow> LIST_t \<Rightarrow> addr list \<Rightarrow> bool" where
  "dbl_list F la h l xs \<longleftrightarrow>
     distinct xs \<and> 0 \<notin> set xs \<and> set xs \<subseteq> dom h \<and> la \<noteq> 0 \<and>
     (\<forall>x. x \<in> set xs \<longleftrightarrow> fld F h llist x = la) \<and>
     head l = hd1 xs 0 \<and> tail l = last1 xs 0 \<and>
     dll (fld F h lnext) (fld F h lprev) 0 xs 0"

text \<open>Two heaps that differ in the field \<open>F\<close> only.\<close>

inductive field_upd :: "'c FIELD \<Rightarrow> 'c heap \<Rightarrow> 'c heap \<Rightarrow> bool" for F where
  field_upd_refl: "field_upd F h h"
| field_upd_step: "field_upd F h h1 \<Longrightarrow> h1 x = Some c \<Longrightarrow> field_upd F h (h1(x \<mapsto> updf F f c))"

lemma field_upd_proj:
  assumes "field_upd F h h'" "\<And>f c. pr (updf F f c) = pr c"
  shows "map_option pr (h' x) = map_option pr (h x)"
  using assms by induction auto

lemma field_upd_dom: "field_upd F h h' \<Longrightarrow> dom h' = dom h"
  by (induction rule: field_upd.induct) (auto simp del: fun_upd_apply simp: insert_absorb domI)

lemma field_upd_trans: "field_upd F h1 h2 \<Longrightarrow> field_upd F h h1 \<Longrightarrow> field_upd F h h2"
  by (induction rule: field_upd.induct) (auto intro: field_upd.intros)

lemma fld_upd [simp]:
  "fld F (h(x \<mapsto> c)) s y = (if y = x then s (getf F c) else fld F h s y)"
  by (simp add: fld_def)

lemma dbl_listD:
  assumes "dbl_list F la h l xs"
  shows "distinct xs" "0 \<notin> set xs" "set xs \<subseteq> dom h" "la \<noteq> 0"
    "fld F h llist x = la \<longleftrightarrow> x \<in> set xs"
    "head l = hd1 xs 0" "tail l = last1 xs 0"
    "dll (fld F h lnext) (fld F h lprev) 0 xs 0"
  using assms by (auto simp: dbl_list_def)

lemma dbl_list_ends:
  "dbl_list F la h l xs \<Longrightarrow> (head l = 0 \<longleftrightarrow> xs = []) \<and> (tail l = 0 \<longleftrightarrow> xs = [])"
  by (metis dbl_listD(2,6,7) hd1_in hd1_simps(1) last1_in last1_simps(1))

text \<open>A list depends on its own field only.\<close>

lemma dbl_list_cong:
  assumes "dbl_list F la h l xs" "\<And>x. map_option (getf F) (h' x) = map_option (getf F) (h x)"
  shows "dbl_list F la h' l xs"
proof -
  have "fld F h' s x = fld F h s x" for s x
    using assms(2)[of x] by (cases "h x"; cases "h' x") (simp_all add: fld_def)
  then have f: "fld F h' = fld F h" by (simp add: fun_eq_iff)
  moreover have "dom h' = dom h"
    using assms(2) by (auto simp: dom_def) (metis map_option_eq_Some option.distinct(1) option.exhaust)+
  ultimately show ?thesis using assms(1) unfolding dbl_list_def f by metis
qed

lemma dbl_list_insert:
  assumes l: "dbl_list F la h l (us @ vs)" and v: "v \<notin> set (us @ vs)" "v \<noteq> 0" "v \<in> dom h"
    and "dom h' = dom h" "\<And>x. fld F h' llist x = (if x = v then la else fld F h llist x)"
    and "\<And>x. x \<in> set (us @ v # vs) \<Longrightarrow> fld F h' lnext x =
           (if x = v then hd1 vs 0 else if us \<noteq> [] \<and> x = last us then v else fld F h lnext x)"
    and "\<And>x. x \<in> set (us @ v # vs) \<Longrightarrow> fld F h' lprev x =
           (if x = v then last1 us 0 else if vs \<noteq> [] \<and> x = hd vs then v else fld F h lprev x)"
    and "head l' = hd1 us v" "tail l' = last1 vs v"
  shows "dbl_list F la h' l' (us @ v # vs)"
proof -
  have "dll (fld F h' lnext) (fld F h' lprev) 0 (us @ v # vs) 0"
    by (rule dll_insert[OF dbl_listD(8)[OF l]]) (use assms dbl_listD(1)[OF l] in auto)
  moreover have "x \<in> set (us @ v # vs) \<longleftrightarrow> fld F h' llist x = la" for x
    using assms(6)[of x] dbl_listD(5)[OF l, of x] by auto
  ultimately show ?thesis
    using v assms(5,9,10) dbl_listD(1-4)[OF l] unfolding dbl_list_def by simp
qed

lemma dbl_list_remove:
  assumes l: "dbl_list F la h l (us @ v # vs)"
    and "dom h' = dom h" "\<And>x. fld F h' llist x = (if x = v then 0 else fld F h llist x)"
    and "\<And>x. x \<in> set (us @ vs) \<Longrightarrow> fld F h' lnext x =
           (if us \<noteq> [] \<and> x = last us then hd1 vs 0 else fld F h lnext x)"
    and "\<And>x. x \<in> set (us @ vs) \<Longrightarrow> fld F h' lprev x =
           (if vs \<noteq> [] \<and> x = hd vs then last1 us 0 else fld F h lprev x)"
    and "head l' = hd1 (us @ vs) 0" "tail l' = last1 (us @ vs) 0"
  shows "dbl_list F la h' l' (us @ vs)"
proof -
  have "dll (fld F h' lnext) (fld F h' lprev) 0 (us @ vs) 0"
    by (rule dll_remove[OF dbl_listD(8)[OF l]]) (use assms dbl_listD(1)[OF l] in auto)
  moreover have "x \<in> set (us @ vs) \<longleftrightarrow> fld F h' llist x = la" for x
    using assms(3)[of x] dbl_listD(1,4)[OF l] dbl_listD(5)[OF l, of x] by auto
  ultimately show ?thesis
    using assms(2,6,7) dbl_listD(1-4)[OF l] unfolding dbl_list_def by simp
qed

lemma upd_field: "upd h x (updf F f) = Some h2 \<Longrightarrow> field_upd F h h2"
  by (auto simp: upd_eq_Some intro: field_upd.intros)

lemma LIST_field:
  "LIST_PushFront F la h l v = Some (h', l') \<Longrightarrow> field_upd F h h'"
  "LIST_PushBack F la h l v = Some (h', l') \<Longrightarrow> field_upd F h h'"
  "LIST_Unlink F la h l v = Some (h', l') \<Longrightarrow> field_upd F h h'"
  by (auto simp: LIST_PushFront_def LIST_PushBack_def LIST_Unlink_def Let_def bind_eq_Some_conv
           simp del: upd_Some split: if_splits dest!: upd_field intro: field_upd_trans)

context container_field
begin

lemma Init_list: "la \<noteq> 0 \<Longrightarrow> (\<And>x. fld F h llist x \<noteq> la) \<Longrightarrow> dbl_list F la h LIST_Init []"
  by (simp add: dbl_list_def LIST_Init_def)

lemma PushFront_list:
  assumes l: "dbl_list F la h l xs" and v: "h v = Some c" "v \<notin> set xs" "v \<noteq> 0"
  obtains h' l' where "LIST_PushFront F la h l v = Some (h', l')"
    "dbl_list F la h' l' (v # xs)" "field_upd F h h'"
proof (cases xs)
  case Nil
  let ?c = "updf F (lnext_update (\<lambda>_. 0)) (updf F (lprev_update (\<lambda>_. 0))
              (updf F (llist_update (\<lambda>_. la)) c))"
  from Nil l v have e: "LIST_PushFront F la h l v = Some (h(v \<mapsto> ?c), \<lparr>head = v, tail = v\<rparr>)"
    by (simp add: LIST_PushFront_def dbl_listD)
  moreover have "dbl_list F la (h(v \<mapsto> ?c)) \<lparr>head = v, tail = v\<rparr> ([] @ v # [])"
    by (rule dbl_list_insert[of F la h l]) (use Nil l v in auto)
  ultimately show thesis using Nil LIST_field(1)[OF e] by (auto intro: that)
next
  case (Cons y ys)
  let ?c = "updf F (lnext_update (\<lambda>_. y)) (updf F (lprev_update (\<lambda>_. 0))
              (updf F (llist_update (\<lambda>_. la)) c))"
  from Cons l obtain d where d: "h y = Some d" by (auto simp: dbl_list_def)
  let ?h = "h(v \<mapsto> ?c, y \<mapsto> updf F (lprev_update (\<lambda>_. v)) d)"
  from d Cons l v have e: "LIST_PushFront F la h l v = Some (?h, \<lparr>head = v, tail = tail l\<rparr>)"
    using dbl_list_ends[OF l] dbl_listD(6)[OF l] by (simp add: LIST_PushFront_def)
  moreover have "dbl_list F la ?h \<lparr>head = v, tail = tail l\<rparr> ([] @ v # xs)"
    by (rule dbl_list_insert[of F la h l]) (use Cons d l v in \<open>auto simp: fld_def dbl_listD\<close>)
  ultimately show thesis using LIST_field(1)[OF e] by (auto intro: that)
qed

lemma PushBack_list:
  assumes l: "dbl_list F la h l xs" and v: "h v = Some c" "v \<notin> set xs" "v \<noteq> 0"
  obtains h' l' where "LIST_PushBack F la h l v = Some (h', l')"
    "dbl_list F la h' l' (xs @ [v])" "field_upd F h h'"
proof (cases xs rule: rev_cases)
  case Nil
  let ?c = "updf F (lnext_update (\<lambda>_. 0)) (updf F (lprev_update (\<lambda>_. 0))
              (updf F (llist_update (\<lambda>_. la)) c))"
  from Nil l v have e: "LIST_PushBack F la h l v = Some (h(v \<mapsto> ?c), \<lparr>head = v, tail = v\<rparr>)"
    by (simp add: LIST_PushBack_def dbl_listD)
  moreover have "dbl_list F la (h(v \<mapsto> ?c)) \<lparr>head = v, tail = v\<rparr> ([] @ v # [])"
    by (rule dbl_list_insert[of F la h l]) (use Nil l v in auto)
  ultimately show thesis using Nil LIST_field(2)[OF e] by (auto intro: that)
next
  case (snoc ys y)
  let ?c = "updf F (lnext_update (\<lambda>_. 0)) (updf F (lprev_update (\<lambda>_. y))
              (updf F (llist_update (\<lambda>_. la)) c))"
  from snoc l obtain d where d: "h y = Some d" by (auto simp: dbl_list_def)
  let ?h = "h(v \<mapsto> ?c, y \<mapsto> updf F (lnext_update (\<lambda>_. v)) d)"
  from d snoc l v have e: "LIST_PushBack F la h l v = Some (?h, \<lparr>head = head l, tail = v\<rparr>)"
    using dbl_list_ends[OF l] dbl_listD(7)[OF l] by (simp add: LIST_PushBack_def)
  moreover have "dbl_list F la ?h \<lparr>head = head l, tail = v\<rparr> (xs @ v # [])"
    by (rule dbl_list_insert[of F la h l]) (use snoc d l v in \<open>auto simp: fld_def dbl_listD\<close>)
  ultimately show thesis using LIST_field(2)[OF e] by (auto intro: that)
qed

lemma Unlink_list:
  assumes l: "dbl_list F la h l (us @ v # vs)"
  obtains h' l' where "LIST_Unlink F la h l v = Some (h', l')"
    "dbl_list F la h' l' (us @ vs)" "field_upd F h h'"
proof -
  from l obtain c where c: "h v = Some c" by (auto simp: dbl_list_def)
  from l c have la: "llist (getf F c) = la" "la \<noteq> 0"
    using dbl_listD(5)[OF l, of v] by (auto simp: fld_def dbl_listD)
  from dll_at[OF dbl_listD(8)[OF l]] c
  have pn: "lprev (getf F c) = last1 us 0" "lnext (getf F c) = hd1 vs 0"
    by (simp_all add: fld_def)
  define u where "u = last1 us 0"
  define w where "w = hd1 vs 0"
  have u: "u \<noteq> 0 \<longleftrightarrow> us \<noteq> []" "us \<noteq> [] \<Longrightarrow> u = last us" "us \<noteq> [] \<Longrightarrow> u \<in> set us"
    using dbl_listD(2)[OF l] last1_in[of us 0] 
    by (auto simp: u_def last1_def) (metis last_in_set not_gr_zero)
  have w: "w \<noteq> 0 \<longleftrightarrow> vs \<noteq> []" "vs \<noteq> [] \<Longrightarrow> w = hd vs" "vs \<noteq> [] \<Longrightarrow> w \<in> set vs"
    using dbl_listD(2)[OF l] by (cases vs; auto simp: w_def)+
  have uw: "u \<noteq> w" if "us \<noteq> []"
    using u(1,3) w(1,3) that dbl_listD(1)[OF l] by (cases "w = 0") auto
  define cu where "cu = the (h u)"
  define cw where "cw = the (h w)"
  have dom: "us \<noteq> [] \<Longrightarrow> h u = Some cu \<and> u \<noteq> v" "vs \<noteq> [] \<Longrightarrow> h w = Some cw \<and> w \<noteq> v"
    using u(3) w(3) dbl_listD(1,3)[OF l] by (auto simp: cu_def cw_def)
  let ?h0 = "h(v \<mapsto> updf F (llist_update (\<lambda>_. 0)) c)"
  let ?h1 = "if vs = [] then ?h0 else ?h0(w \<mapsto> updf F (lprev_update (\<lambda>_. u)) cw)"
  let ?h2 = "if us = [] then ?h1 else ?h1(u \<mapsto> updf F (lnext_update (\<lambda>_. w)) cu)"
  let ?l = "\<lparr>head = hd1 us w, tail = last1 vs u\<rparr>"
  have "head l = (if us = [] then v else hd1 us w)" "tail l = (if vs = [] then v else last1 vs u)"
    using dbl_listD(6,7)[OF l] by (auto simp: hd1_def last1_def split: list.split)
  then have e: "LIST_Unlink F la h l v = Some (?h2, ?l)"
    using u(1) w(1) c la pn[folded u_def w_def] dom uw
    by (cases "us = []"; cases "vs = []") (simp_all add: LIST_Unlink_def Let_def)
  moreover have "dbl_list F la ?h2 ?l (us @ vs)"
  proof (rule dbl_list_remove[OF l])
    fix x assume x: "x \<in> set (us @ vs)"
    then have "x \<noteq> v" using dbl_listD(1)[OF l] by auto
    then show "fld F ?h2 lnext x = (if us \<noteq> [] \<and> x = last us then hd1 vs 0 else fld F h lnext x)"
      "fld F ?h2 lprev x = (if vs \<noteq> [] \<and> x = hd vs then last1 us 0 else fld F h lprev x)"
      using uw dom c unfolding u_def[symmetric] w_def[symmetric]
      by (auto simp: fld_def u(2)[symmetric] w(2)[symmetric])
  qed (use uw dom c in \<open>auto simp: fld_def hd1_append last1_append u_def w_def\<close>)
  ultimately show thesis using LIST_field(3)[OF e] by (rule that)
qed

end

end
