(* ===== verification/RBTree.thy ===== *)
theory RBTree
  imports DblList
begin

text \<open>
  Red-black trees: the template \<open>src/src/lib/tmpl/rbtree-decl.h\<close>, \<open>src/src/lib/tmpl/rbtree-impl.h\<close>.

  The operations work on a heap of nodes, as the code does: \<open>RB_Insert\<close> and \<open>RB_Remove\<close> are
  the iterative top-down algorithms with a false root on the stack, rotations and colour flips,
  and the nodes are also chained in order by \<open>next\<close> and \<open>prev\<close>. The address of a node is the
  address of its data, so callers keep it as a pointer to the value.

  The template arguments are collected in the record \<open>RBTreeImpl\<close>. \<open>malloc\<close> is an argument
  of the operations that allocate: the address it returns, \<open>0\<close> when it fails. The allocation of
  an iterator is taken to succeed (the code does not check it). \<open>PARANOID\<close> is on, so the
  checks \<open>CHECK_COUNT\<close> and \<open>CHECK_FPARENT\<close> are part of the model.
\<close>

section \<open>Nodes and trees\<close>

record 'v RB_node_t =
  rdata :: 'v
  red :: bool
  link :: "bool \<Rightarrow> addr"
  rnext :: addr
  rprev :: addr

record RB_t =
  root :: addr
  rsize :: size_t
  rfirst :: addr
  rlast :: addr

datatype RB_Relation = RB_EQ | RB_LT | RB_GE

text \<open>The template arguments. \<open>ZERO_VALUE\<close> is the all-zero value that fills the data of the
  false root \<open>RB_node_t head = {.red=0}\<close>; it is never read.\<close>

record ('k, 'v) RBTreeImpl =
  INIT_VALUE_func :: "'k \<Rightarrow> 'v option"
  COMPARE_VALUE_func :: "'v \<Rightarrow> 'k \<Rightarrow> int"
  ZERO_VALUE :: 'v

text \<open>The address of the false root, a local variable of \<open>RB_Insert\<close> and \<open>RB_Remove\<close>.\<close>

definition HEAD :: addr where
  "HEAD = 1"

definition set_link :: "bool \<Rightarrow> addr \<Rightarrow> 'v RB_node_t \<Rightarrow> 'v RB_node_t" where
  "set_link d x n = n\<lparr>link := (link n)(d := x)\<rparr>"

definition set_red :: "bool \<Rightarrow> 'v RB_node_t \<Rightarrow> 'v RB_node_t" where
  "set_red c n = n\<lparr>red := c\<rparr>"

section \<open>Operations\<close>

definition RB_IsRed :: "'v RB_node_t heap \<Rightarrow> addr \<Rightarrow> bool option" where
  "RB_IsRed h x = (if x = 0 then Some False else do { n \<leftarrow> h x; Some (red n) })"

definition RB_Single :: "'v RB_node_t heap \<Rightarrow> addr \<Rightarrow> bool \<Rightarrow> ('v RB_node_t heap \<times> addr) option" where
  "RB_Single h x dir = do {
     n \<leftarrow> h x;
     let save = link n (\<not> dir);
     s \<leftarrow> h save;
     h \<leftarrow> upd h x (set_link (\<not> dir) (link s dir));
     h \<leftarrow> upd h save (set_link dir x);
     h \<leftarrow> upd h x (set_red True);
     h \<leftarrow> upd h save (set_red False);
     Some (h, save)
   }"

definition RB_Double :: "'v RB_node_t heap \<Rightarrow> addr \<Rightarrow> bool \<Rightarrow> ('v RB_node_t heap \<times> addr) option" where
  "RB_Double h x dir = do {
     n \<leftarrow> h x;
     (h, y) \<leftarrow> RB_Single h (link n (\<not> dir)) (\<not> dir);
     h \<leftarrow> upd h x (set_link (\<not> dir) y);
     RB_Single h x dir
   }"

definition RB_NewNode ::
  "('k, 'v) RBTreeImpl \<Rightarrow> 'v RB_node_t heap \<Rightarrow> 'k \<Rightarrow> addr \<Rightarrow> ('v RB_node_t heap \<times> addr) option" where
  "RB_NewNode I h key a =
     (if a = 0 then Some (h, 0)
      else do {
        v \<leftarrow> INIT_VALUE_func I key;
        Some (h(a \<mapsto> \<lparr>rdata = v, red = True, link = (\<lambda>_. 0), rnext = 0, rprev = 0\<rparr>), a)
      })"

definition RB_Init :: "RB_t \<Rightarrow> RB_t" where
  "RB_Init tree = tree\<lparr>root := 0, rsize := 0\<rparr>"

partial_function (option) RB_Release_loop ::
  "'v RB_node_t heap \<Rightarrow> addr \<Rightarrow> 'v RB_node_t heap option" where
  "RB_Release_loop h it =
     (if it = 0 then Some h
      else do {
        n \<leftarrow> h it;
        if link n False = 0
        then RB_Release_loop (h(it := None)) (link n True)
        else do {
          let save = link n False;
          s \<leftarrow> h save;
          h \<leftarrow> upd h it (set_link False (link s True));
          h \<leftarrow> upd h save (set_link True it);
          RB_Release_loop h save
        }
      })"

definition RB_Release :: "'v RB_node_t heap \<Rightarrow> RB_t \<Rightarrow> ('v RB_node_t heap \<times> RB_t) option" where
  "RB_Release h tree =
     (if root tree \<noteq> 0
      then do { h \<leftarrow> RB_Release_loop h (root tree); Some (h, tree\<lparr>root := 0\<rparr>) }
      else Some (h, tree))"

partial_function (option) RB_FindImpl_loop ::
  "('k, 'v) RBTreeImpl \<Rightarrow> 'v RB_node_t heap \<Rightarrow> 'k \<Rightarrow> RB_Relation \<Rightarrow> addr \<Rightarrow> addr \<Rightarrow> addr option" where
  "RB_FindImpl_loop I h key rel it best =
     (if it = 0 then Some best
      else do {
        n \<leftarrow> h it;
        let cmp = COMPARE_VALUE_func I (rdata n) key;
        if rel \<noteq> RB_LT \<and> cmp = 0 then Some it
        else
          let best = (if rel = RB_LT \<and> cmp < 0 \<or> rel = RB_GE \<and> cmp > 0 then it else best)
          in RB_FindImpl_loop I h key rel (link n (cmp < 0)) best
      })"

definition RB_FindImpl ::
  "('k, 'v) RBTreeImpl \<Rightarrow> 'v RB_node_t heap \<Rightarrow> RB_t \<Rightarrow> 'k \<Rightarrow> RB_Relation \<Rightarrow> addr option" where
  "RB_FindImpl I h tree key rel = RB_FindImpl_loop I h key rel (root tree) 0"

text \<open>\<open>RB_Find\<close> returns the address of the value, \<open>RB_FindIter\<close> an iterator at it; both are
  null when there is no such value.\<close>

definition RB_Find ::
  "('k, 'v) RBTreeImpl \<Rightarrow> 'v RB_node_t heap \<Rightarrow> RB_t \<Rightarrow> 'k \<Rightarrow> RB_Relation \<Rightarrow> addr option" where
  "RB_Find I h tree key rel = RB_FindImpl I h tree key rel"

definition RB_FindIter ::
  "('k, 'v) RBTreeImpl \<Rightarrow> 'v RB_node_t heap \<Rightarrow> RB_t \<Rightarrow> 'k \<Rightarrow> RB_Relation \<Rightarrow> addr option option" where
  "RB_FindIter I h tree key rel = do {
     best \<leftarrow> RB_FindImpl I h tree key rel;
     Some (if best = 0 then None else Some best)
   }"

definition RB_Size :: "RB_t \<Rightarrow> size_t" where
  "RB_Size tree = rsize tree"

partial_function (option) RB_Count :: "'v RB_node_t heap \<Rightarrow> addr \<Rightarrow> size_t option" where
  "RB_Count h x =
     (if x = 0 then Some 0
      else do {
        n \<leftarrow> h x;
        l \<leftarrow> RB_Count h (link n False);
        r \<leftarrow> RB_Count h (link n True);
        Some (1 + l + r)
      })"

definition CHECK_COUNT :: "'v RB_node_t heap \<Rightarrow> RB_t \<Rightarrow> unit option" where
  "CHECK_COUNT h tree = do { n \<leftarrow> RB_Count h (root tree); Assert (RB_Size tree = n) }"

subsection \<open>Insertion\<close>

text \<open>The new node becomes the child \<open>dir\<close> of \<open>p\<close> and a neighbour of \<open>p\<close> in the chain.\<close>

definition RB_Insert_attach ::
  "('k, 'v) RBTreeImpl \<Rightarrow> 'k \<Rightarrow> addr \<Rightarrow> 'v RB_node_t heap \<Rightarrow> RB_t \<Rightarrow> addr \<Rightarrow> bool
    \<Rightarrow> ('v RB_node_t heap \<times> RB_t \<times> addr) option" where
  "RB_Insert_attach I key a h tree p dir = do {
     (h, q) \<leftarrow> RB_NewNode I h key a;
     h \<leftarrow> upd h p (set_link dir q);
     if q = 0 then Some (h, tree, 0)
     else do {
       pn \<leftarrow> h p;
       (h, tree) \<leftarrow>
         (if dir then do {
            h \<leftarrow> upd h q (rprev_update (\<lambda>_. p));
            h \<leftarrow> upd h q (rnext_update (\<lambda>_. rnext pn));
            h \<leftarrow> upd h p (rnext_update (\<lambda>_. q));
            if rnext pn = 0 then Some (h, tree\<lparr>rlast := q\<rparr>)
            else do { h \<leftarrow> upd h (rnext pn) (rprev_update (\<lambda>_. q)); Some (h, tree) }
          } else do {
            h \<leftarrow> upd h q (rnext_update (\<lambda>_. p));
            h \<leftarrow> upd h q (rprev_update (\<lambda>_. rprev pn));
            h \<leftarrow> upd h p (rprev_update (\<lambda>_. q));
            if rprev pn = 0 then Some (h, tree\<lparr>rfirst := q\<rparr>)
            else do { h \<leftarrow> upd h (rprev pn) (rnext_update (\<lambda>_. q)); Some (h, tree) }
          });
       Some (h, tree\<lparr>rsize := rsize tree + 1\<rparr>, q)
     }
   }"

text \<open>Simple red violation: colour flip.\<close>

definition RB_Insert_flip :: "'v RB_node_t heap \<Rightarrow> addr \<Rightarrow> 'v RB_node_t heap option" where
  "RB_Insert_flip h q = do {
     n \<leftarrow> h q;
     r0 \<leftarrow> RB_IsRed h (link n False);
     r1 \<leftarrow> RB_IsRed h (link n True);
     if r0 \<and> r1 then do {
       h \<leftarrow> upd h q (set_red True);
       h \<leftarrow> upd h (link n False) (set_red False);
       upd h (link n True) (set_red False)
     } else Some h
   }"

text \<open>Hard red violation: rotations necessary.\<close>

definition RB_Insert_rotate ::
  "'v RB_node_t heap \<Rightarrow> addr \<Rightarrow> addr \<Rightarrow> addr \<Rightarrow> addr \<Rightarrow> bool \<Rightarrow> 'v RB_node_t heap option" where
  "RB_Insert_rotate h t g p q lst = do {
     rq \<leftarrow> RB_IsRed h q;
     rp \<leftarrow> RB_IsRed h p;
     if rq \<and> rp then do {
       tn \<leftarrow> h t;
       let dir2 = (link tn True = g);
       pn \<leftarrow> h p;
       (h, x) \<leftarrow> (if q = link pn lst then RB_Single h g (\<not> lst) else RB_Double h g (\<not> lst));
       upd h t (set_link dir2 x)
     } else Some h
   }"

text \<open>The search loop. Its result is the new heap and header and the pointer \<open>result\<close>, which
  is missing when the loop returned from \<open>RB_Insert\<close> because \<open>malloc\<close> failed.\<close>

partial_function (option) RB_Insert_loop ::
  "('k, 'v) RBTreeImpl \<Rightarrow> 'k \<Rightarrow> addr \<Rightarrow> 'v RB_node_t heap \<Rightarrow> RB_t \<Rightarrow> addr \<Rightarrow> addr \<Rightarrow> addr \<Rightarrow> addr
    \<Rightarrow> bool \<Rightarrow> bool \<Rightarrow> addr \<Rightarrow> ('v RB_node_t heap \<times> RB_t \<times> addr option) option" where
  "RB_Insert_loop I key a h tree t g p q dir lst result = do {
     (h, tree, q, result) \<leftarrow>
       (if q = 0 then do {
          (h, tree, q) \<leftarrow> RB_Insert_attach I key a h tree p dir;
          Some (h, tree, q, q)
        } else do {
          h \<leftarrow> RB_Insert_flip h q;
          Some (h, tree, q, result)
        });
     if q = 0 then Some (h, tree, None)
     else do {
       h \<leftarrow> RB_Insert_rotate h t g p q lst;
       n \<leftarrow> h q;
       if COMPARE_VALUE_func I (rdata n) key = 0 then Some (h, tree, Some result)
       else
         let lst = dir; dir = (COMPARE_VALUE_func I (rdata n) key < 0)
         in RB_Insert_loop I key a h tree (if g \<noteq> 0 then g else t) p q (link n dir) dir lst result
     }
   }"

definition RB_Insert ::
  "('k, 'v) RBTreeImpl \<Rightarrow> 'v RB_node_t heap \<Rightarrow> RB_t \<Rightarrow> 'k \<Rightarrow> addr
    \<Rightarrow> ('v RB_node_t heap \<times> RB_t \<times> addr) option" where
  "RB_Insert I h tree key a = do {
     CHECK_COUNT h tree;
     if root tree = 0 then do {
       (h, r) \<leftarrow> RB_NewNode I h key a;
       let tree = tree\<lparr>root := r\<rparr>;
       if r = 0 then Some (h, tree, 0)
       else do {
         let tree = tree\<lparr>rfirst := r, rlast := r, rsize := rsize tree + 1\<rparr>;
         h \<leftarrow> upd h r (set_red False);
         Some (h, tree, r)
       }
     } else do {
       let h = h(HEAD \<mapsto> \<lparr>rdata = ZERO_VALUE I, red = False, link = (\<lambda>_. 0)(True := root tree),
                          rnext = 0, rprev = 0\<rparr>);
       (h, tree, result) \<leftarrow> RB_Insert_loop I key a h tree HEAD 0 0 (root tree) False False 0;
       hn \<leftarrow> h HEAD;
       let h = h(HEAD := None);
       case result of
         None \<Rightarrow> Some (h, tree, 0)
       | Some r \<Rightarrow> do {
           let tree = tree\<lparr>root := link hn True\<rparr>;
           h \<leftarrow> upd h (root tree) (set_red False);
           Some (h, tree, r)
         }
     }
   }"

subsection \<open>Removal\<close>

definition CHECK_FPARENT :: "'v RB_node_t heap \<Rightarrow> addr \<Rightarrow> addr \<Rightarrow> unit option" where
  "CHECK_FPARENT h f fParent =
     (if fParent \<noteq> 0
      then do { n \<leftarrow> h fParent; Assert (link n False = f \<or> link n True = f) }
      else Some ())"

text \<open>Push the red node down with rotations and colour flips.\<close>

definition RB_Remove_push ::
  "'v RB_node_t heap \<Rightarrow> addr \<Rightarrow> addr \<Rightarrow> addr \<Rightarrow> bool \<Rightarrow> bool \<Rightarrow> addr \<Rightarrow> addr
    \<Rightarrow> ('v RB_node_t heap \<times> addr \<times> addr) option" where
  "RB_Remove_push h g p q dir lst f fParent = do {
     n \<leftarrow> h q;
     rq \<leftarrow> RB_IsRed h q;
     rd \<leftarrow> RB_IsRed h (link n dir);
     if \<not> rq \<and> \<not> rd then do {
       rn \<leftarrow> RB_IsRed h (link n (\<not> dir));
       if rn then do {
         (h, x) \<leftarrow> RB_Single h q dir;
         h \<leftarrow> upd h p (set_link lst x);
         CHECK_FPARENT h f fParent;
         Some (h, x, fParent)
       } else do {
         pn \<leftarrow> h p;
         let s = link pn (\<not> lst);
         if s \<noteq> 0 then do {
           sn \<leftarrow> h s;
           ro \<leftarrow> RB_IsRed h (link sn (\<not> lst));
           ri \<leftarrow> RB_IsRed h (link sn lst);
           if \<not> ro \<and> \<not> ri then do {
             h \<leftarrow> upd h p (set_red False);
             h \<leftarrow> upd h s (set_red True);
             h \<leftarrow> upd h q (set_red True);
             CHECK_FPARENT h f fParent;
             Some (h, p, fParent)
           } else do {
             gn \<leftarrow> h g;
             let dir2 = (link gn True = p);
             (h, x) \<leftarrow> (if ri then RB_Double h p lst else RB_Single h p lst);
             h \<leftarrow> upd h g (set_link dir2 x);
             let fParent = (if g = fParent then x else fParent);
             CHECK_FPARENT h f fParent;
             h \<leftarrow> upd h x (set_red True);
             h \<leftarrow> upd h q (set_red True);
             xn \<leftarrow> h x;
             h \<leftarrow> upd h (link xn False) (set_red False);
             h \<leftarrow> upd h (link xn True) (set_red False);
             Some (h, p, fParent)
           }
         } else Some (h, p, fParent)
       }
     } else Some (h, p, fParent)
   }"

partial_function (option) RB_Remove_loop ::
  "('k, 'v) RBTreeImpl \<Rightarrow> 'k \<Rightarrow> 'v RB_node_t heap \<Rightarrow> addr \<Rightarrow> addr \<Rightarrow> bool \<Rightarrow> addr \<Rightarrow> addr
    \<Rightarrow> ('v RB_node_t heap \<times> addr \<times> addr \<times> addr \<times> addr) option" where
  "RB_Remove_loop I key h p q dir f fParent = do {
     n \<leftarrow> h q;
     if link n dir = 0 then Some (h, p, q, f, fParent)
     else do {
       let lst = dir;
       let g = p;
       let p = q;
       let q = link n dir;
       n \<leftarrow> h q;
       let dir = (COMPARE_VALUE_func I (rdata n) key < 0);
       let f = (if COMPARE_VALUE_func I (rdata n) key = 0 then q else f);
       (h, p, fParent) \<leftarrow> RB_Remove_push h g p q dir lst f fParent;
       let fParent = (if f = q then p else fParent);
       RB_Remove_loop I key h p q dir f fParent
     }
   }"

text \<open>Replace and remove the saved node: \<open>q\<close> leaves its place and takes over the one of \<open>f\<close>,
  and \<open>f\<close> leaves the chain and is freed.\<close>

definition RB_Remove_unlink ::
  "'v RB_node_t heap \<Rightarrow> RB_t \<Rightarrow> addr \<Rightarrow> addr \<Rightarrow> addr \<Rightarrow> addr \<Rightarrow> ('v RB_node_t heap \<times> RB_t) option" where
  "RB_Remove_unlink h tree p q f fParent = do {
     pn \<leftarrow> h p;
     qn \<leftarrow> h q;
     h \<leftarrow> upd h p (set_link (link pn True = q) (link qn (link qn False = 0)));
     h \<leftarrow> (if f \<noteq> q then do {
            CHECK_FPARENT h f fParent;
            n \<leftarrow> h fParent;
            h \<leftarrow> upd h fParent (set_link (link n True = f) q);
            fn \<leftarrow> h f;
            h \<leftarrow> upd h q (set_red (red fn));
            h \<leftarrow> upd h q (set_link False (link fn False));
            upd h q (set_link True (link fn True))
          } else Some h);
     fn \<leftarrow> h f;
     let tree = (if rfirst tree = f then tree\<lparr>rfirst := rnext fn\<rparr> else tree);
     let tree = (if rlast tree = f then tree\<lparr>rlast := rprev fn\<rparr> else tree);
     h \<leftarrow> (if rprev fn \<noteq> 0 then upd h (rprev fn) (rnext_update (\<lambda>_. rnext fn)) else Some h);
     h \<leftarrow> (if rnext fn \<noteq> 0 then upd h (rnext fn) (rprev_update (\<lambda>_. rprev fn)) else Some h);
     Some (h(f := None), tree\<lparr>rsize := rsize tree - 1\<rparr>)
   }"

definition RB_Remove ::
  "('k, 'v) RBTreeImpl \<Rightarrow> 'v RB_node_t heap \<Rightarrow> RB_t \<Rightarrow> 'k \<Rightarrow> ('v RB_node_t heap \<times> RB_t \<times> bool) option" where
  "RB_Remove I h tree key = do {
     CHECK_COUNT h tree;
     if root tree \<noteq> 0 then do {
       let h = h(HEAD \<mapsto> \<lparr>rdata = ZERO_VALUE I, red = False, link = (\<lambda>_. 0)(True := root tree),
                          rnext = 0, rprev = 0\<rparr>);
       (h, p, q, f, fParent) \<leftarrow> RB_Remove_loop I key h 0 HEAD True 0 0;
       (h, tree) \<leftarrow> (if f \<noteq> 0 then RB_Remove_unlink h tree p q f fParent else Some (h, tree));
       hn \<leftarrow> h HEAD;
       let h = h(HEAD := None);
       let tree = tree\<lparr>root := link hn True\<rparr>;
       h \<leftarrow> (if root tree \<noteq> 0 then upd h (root tree) (set_red False) else Some h);
       Some (h, tree, True)
     } else Some (h, tree, True)
   }"

subsection \<open>Iterators\<close>

text \<open>An iterator is the address of its current node.\<close>

definition RB_First :: "RB_t \<Rightarrow> addr" where
  "RB_First tree = rfirst tree"

definition RB_Last :: "RB_t \<Rightarrow> addr" where
  "RB_Last tree = rlast tree"

definition RB_Iterator_Value :: "'v RB_node_t heap \<Rightarrow> addr \<Rightarrow> 'v option" where
  "RB_Iterator_Value h it = map_option rdata (h it)"

definition RB_Iterator_HasNext :: "'v RB_node_t heap \<Rightarrow> addr \<Rightarrow> bool option" where
  "RB_Iterator_HasNext h it = do { n \<leftarrow> h it; Some (rnext n \<noteq> 0) }"

definition RB_Iterator_HasPrev :: "'v RB_node_t heap \<Rightarrow> addr \<Rightarrow> bool option" where
  "RB_Iterator_HasPrev h it = do { n \<leftarrow> h it; Some (rprev n \<noteq> 0) }"

text \<open>The moved iterator and whether it moved.\<close>

definition RB_Iterator_Next :: "'v RB_node_t heap \<Rightarrow> addr \<Rightarrow> (addr \<times> bool) option" where
  "RB_Iterator_Next h it = do {
     n \<leftarrow> h it;
     Some (if rnext n = 0 then (it, False) else (rnext n, True))
   }"

definition RB_Iterator_Prev :: "'v RB_node_t heap \<Rightarrow> addr \<Rightarrow> (addr \<times> bool) option" where
  "RB_Iterator_Prev h it = do {
     n \<leftarrow> h it;
     Some (if rprev n = 0 then (it, False) else (rprev n, True))
   }"

end
