(* ===== verification/RBShape.thy ===== *)
theory RBShape
  imports RBTree
begin

text \<open>
  The shape of a red-black tree on the heap, shared by the proofs about search, insertion and
  removal: the coloured tree of addresses that a root pointer represents, the path from the
  false root to a subtree as a context, the red-black invariant of both, and the heap effect of
  the two rotations.
\<close>

section \<open>Trees of addresses\<close>

text \<open>\<open>Nd l x c r\<close> is the node at address \<open>x\<close>, red iff \<open>c\<close>. The code works with directions, so
  nodes are also written \<open>N d a x c b\<close>: child \<open>d\<close> is \<open>a\<close>, the other child is \<open>b\<close>.\<close>

datatype tr = Lf | Nd tr addr bool tr

definition N :: "bool \<Rightarrow> tr \<Rightarrow> addr \<Rightarrow> bool \<Rightarrow> tr \<Rightarrow> tr" where
  "N d a x c b = (if d then Nd b x c a else Nd a x c b)"

fun adr :: "tr \<Rightarrow> addr" where
  "adr Lf = 0"
| "adr (Nd l x c r) = x"

fun col :: "tr \<Rightarrow> bool" where
  "col Lf = False"
| "col (Nd l x c r) = c"

fun ins :: "tr \<Rightarrow> addr list" where
  "ins Lf = []"
| "ins (Nd l x c r) = ins l @ x # ins r"

fun rep :: "'v RB_node_t heap \<Rightarrow> tr \<Rightarrow> bool" where
  "rep h Lf = True"
| "rep h (Nd l x c r) \<longleftrightarrow>
     (\<exists>n. h x = Some n \<and> red n = c \<and> link n False = adr l \<and> link n True = adr r) \<and> rep h l \<and> rep h r"

text \<open>The red-black invariant: black height \<open>n\<close>, and no red node has a red child.\<close>

fun rb :: "tr \<Rightarrow> nat \<Rightarrow> bool" where
  "rb Lf n \<longleftrightarrow> n = 0"
| "rb (Nd l x c r) n \<longleftrightarrow>
     (if c then \<not> col l \<and> \<not> col r \<and> rb l n \<and> rb r n
      else (\<exists>m. n = Suc m \<and> rb l m \<and> rb r m))"

fun height :: "tr \<Rightarrow> nat" where
  "height Lf = 0"
| "height (Nd l x c r) = Suc (max (height l) (height r))"

lemma N_sel [simp]: "adr (N d a x c b) = x" "col (N d a x c b) = c"
  by (simp_all add: N_def)

lemma N_neq_Lf [simp]: "N d a x c b \<noteq> Lf" "Lf \<noteq> N d a x c b"
  by (simp_all add: N_def)

lemma N_inject [simp]: "N d a x c b = N d a' x' c' b' \<longleftrightarrow> a = a' \<and> x = x' \<and> c = c' \<and> b = b'"
  by (auto simp: N_def)

lemma N_flip: "N (\<not> d) a x c b = N d b x c a"
  by (simp add: N_def)

lemma rep_N [simp]:
  "rep h (N d a x c b) \<longleftrightarrow>
     (\<exists>n. h x = Some n \<and> red n = c \<and> link n d = adr a \<and> link n (\<not> d) = adr b) \<and> rep h a \<and> rep h b"
  by (auto simp: N_def)

lemma rb_N [simp]:
  "rb (N d a x c b) n \<longleftrightarrow>
     (if c then \<not> col a \<and> \<not> col b \<and> rb a n \<and> rb b n else (\<exists>m. n = Suc m \<and> rb a m \<and> rb b m))"
  by (auto simp: N_def)

lemma ins_N: "ins (N d a x c b) = (if d then ins b @ x # ins a else ins a @ x # ins b)"
  by (simp add: N_def)

lemma set_ins_N [simp]: "set (ins (N d a x c b)) = insert x (set (ins a) \<union> set (ins b))"
  by (auto simp: N_def)

lemma distinct_ins_N [simp]:
  "distinct (ins (N d a x c b)) \<longleftrightarrow>
     distinct (ins a) \<and> distinct (ins b) \<and> x \<notin> set (ins a) \<and> x \<notin> set (ins b) \<and>
     set (ins a) \<inter> set (ins b) = {}"
  by (auto simp: N_def)

lemma length_ins_N [simp]: "length (ins (N d a x c b)) = Suc (length (ins a) + length (ins b))"
  by (simp add: N_def)

lemma tr_dir_cases: obtains "t = Lf" | a x c b where "t = N d a x c b"
proof (cases t)
  case (Nd l x c r)
  then show thesis
    by (intro that(2)[of "if d then r else l" x c "if d then l else r"]) (simp add: N_def)
qed (use that(1) in simp)

lemma adr_in [simp]: "t \<noteq> Lf \<Longrightarrow> adr t \<in> set (ins t)"
  by (cases t) simp_all

lemma adr_eq_0: "0 \<notin> set (ins t) \<Longrightarrow> adr t = 0 \<longleftrightarrow> t = Lf"
  by (cases t) auto

lemma col_neq_Lf: "col t \<Longrightarrow> t \<noteq> Lf"
  by auto

section \<open>Contexts\<close>

text \<open>A context is the path to a subtree, innermost element first. \<open>(d, x, c, s)\<close> is the node at
  \<open>x\<close> with colour \<open>c\<close> whose child \<open>d\<close> is on the path and whose other child is \<open>s\<close>. The last
  element is the false root.\<close>

type_synonym ctx = "(bool \<times> addr \<times> bool \<times> tr) list"

fun plug :: "ctx \<Rightarrow> tr \<Rightarrow> tr" where
  "plug [] t = t"
| "plug ((d, x, c, s) # C) t = plug C (N d t x c s)"

fun crep :: "'v RB_node_t heap \<Rightarrow> ctx \<Rightarrow> addr \<Rightarrow> bool" where
  "crep h [] a = True"
| "crep h ((d, x, c, s) # C) a \<longleftrightarrow>
     (\<exists>n. h x = Some n \<and> red n = c \<and> link n d = a \<and> link n (\<not> d) = adr s) \<and> rep h s \<and> crep h C x"

fun cl :: "ctx \<Rightarrow> addr list" where
  "cl [] = []"
| "cl ((d, x, c, s) # C) = (if d then cl C @ ins s @ [x] else cl C)"

fun cr :: "ctx \<Rightarrow> addr list" where
  "cr [] = []"
| "cr ((d, x, c, s) # C) = (if d then cr C else x # ins s @ cr C)"

definition cset :: "ctx \<Rightarrow> addr set" where
  "cset C = set (cl C) \<union> set (cr C)"

definition FALSE_ROOT :: "bool \<times> addr \<times> bool \<times> tr" where
  "FALSE_ROOT = (True, HEAD, False, Lf)"

text \<open>A context that makes a red-black tree of a subtree of colour \<open>c\<close> and black height \<open>n\<close>.\<close>

fun cinv :: "ctx \<Rightarrow> bool \<Rightarrow> nat \<Rightarrow> bool" where
  "cinv [] c n = False"
| "cinv [e] c n \<longleftrightarrow> e = FALSE_ROOT"
| "cinv ((d, x, cx, s) # e # C) c n \<longleftrightarrow>
     rb s n \<and> (cx \<longrightarrow> \<not> c \<and> \<not> col s) \<and> cinv (e # C) cx (if cx then n else Suc n)"

lemma rep_plug [simp]: "rep h (plug C t) \<longleftrightarrow> crep h C (adr t) \<and> rep h t"
  by (induction C t rule: plug.induct) auto

lemma ins_plug: "ins (plug C t) = cl C @ ins t @ cr C"
  by (induction C t rule: plug.induct) (simp_all add: ins_N)

lemma cset_simps [simp]:
  "cset [] = {}" "cset ((d, x, c, s) # C) = insert x (set (ins s) \<union> cset C)"
  by (auto simp: cset_def)

text \<open>\<open>apart C t\<close>: all addresses of the plugged tree are different and not null.\<close>

definition apart :: "ctx \<Rightarrow> tr \<Rightarrow> bool" where
  "apart C t \<longleftrightarrow> distinct (ins (plug C t)) \<and> 0 \<notin> set (ins (plug C t))"

lemma apartD:
  assumes "apart C t"
  shows "distinct (ins t)" "0 \<notin> set (ins t)" "set (ins t) \<inter> cset C = {}" "0 \<notin> cset C"
    "distinct (cl C @ cr C)"
  using assms unfolding apart_def ins_plug cset_def by (auto simp: disjoint_iff)

lemma apart_Cons [simp]: "apart ((d, x, c, s) # C) t \<longleftrightarrow> apart C (N d t x c s)"
  by (simp add: apart_def)

text \<open>Two trees with the same addresses in order fit into the same place.\<close>

lemma apart_ins_cong: "ins t = ins t' \<Longrightarrow> apart C t \<longleftrightarrow> apart C t'"
  by (simp add: apart_def ins_plug)

section \<open>Heap updates\<close>

text \<open>\<open>skel F h h'\<close>: \<open>h'\<close> differs from \<open>h\<close> only in the colours and links of the nodes in \<open>F\<close>.\<close>

definition core :: "'v RB_node_t \<Rightarrow> 'v \<times> addr \<times> addr" where
  "core n = (rdata n, rnext n, rprev n)"

definition skel :: "addr set \<Rightarrow> 'v RB_node_t heap \<Rightarrow> 'v RB_node_t heap \<Rightarrow> bool" where
  "skel F h h' \<longleftrightarrow>
     (\<forall>x. x \<notin> F \<longrightarrow> h' x = h x) \<and> (\<forall>x. map_option core (h' x) = map_option core (h x))"

lemma core_set [simp]: "core (set_link d x n) = core n" "core (set_red c n) = core n"
  by (simp_all add: core_def set_link_def set_red_def)

lemma set_sel [simp]:
  "link (set_link d x n) = (link n)(d := x)" "red (set_link d x n) = red n"
  "link (set_red c n) = link n" "red (set_red c n) = c"
  "rdata (set_link d x n) = rdata n" "rdata (set_red c n) = rdata n"
  "rnext (set_link d x n) = rnext n" "rnext (set_red c n) = rnext n"
  "rprev (set_link d x n) = rprev n" "rprev (set_red c n) = rprev n"
  by (simp_all add: set_link_def set_red_def)

lemma skel_frame: "skel F h h' \<Longrightarrow> x \<notin> F \<Longrightarrow> h' x = h x"
  by (simp add: skel_def)

lemma skel_refl [simp]: "skel F h h"
  by (simp add: skel_def)

lemma skel_trans: "skel F h h1 \<Longrightarrow> skel G h1 h2 \<Longrightarrow> skel (F \<union> G) h h2"
  by (simp add: skel_def)

lemma skel_mono: "skel F h h' \<Longrightarrow> F \<subseteq> G \<Longrightarrow> skel G h h'"
  by (auto simp: skel_def)

lemma skel_upd: "h x = Some n \<Longrightarrow> core n' = core n \<Longrightarrow> skel {x} h (h(x \<mapsto> n'))"
  by (auto simp: skel_def)

lemma rep_cong: "(\<And>x. x \<in> set (ins t) \<Longrightarrow> h' x = h x) \<Longrightarrow> rep h' t = rep h t"
  by (induction t) auto

lemma rep_skel: "rep h t \<Longrightarrow> skel F h h' \<Longrightarrow> F \<inter> set (ins t) = {} \<Longrightarrow> rep h' t"
  by (subst rep_cong[of t h' h]) (auto simp: skel_def)

lemma crep_cong: "(\<And>x. x \<in> cset C \<Longrightarrow> h' x = h x) \<Longrightarrow> crep h' C a = crep h C a"
proof (induction C arbitrary: a)
  case (Cons e C)
  obtain d x c s where e: "e = (d, x, c, s)" by (cases e)
  from Cons.prems e have "rep h' s = rep h s" "h' x = h x" "crep h' C x = crep h C x"
    by (auto intro!: rep_cong Cons.IH)
  with e show ?case by simp
qed simp

lemma crep_skel: "crep h C a \<Longrightarrow> skel F h h' \<Longrightarrow> F \<inter> cset C = {} \<Longrightarrow> crep h' C a"
  by (subst crep_cong[of C h' h]) (auto simp: skel_def)

text \<open>Only colours and links matter for the shape.\<close>

definition shape :: "'v RB_node_t \<Rightarrow> bool \<times> (bool \<Rightarrow> addr)" where
  "shape n = (red n, link n)"

lemma shape_eqD:
  "map_option shape (h' x) = map_option shape (h x) \<Longrightarrow>
     (\<exists>n. h' x = Some n \<and> P (red n) (link n)) = (\<exists>n. h x = Some n \<and> P (red n) (link n))"
  by (cases "h x"; cases "h' x") (auto simp: shape_def)

lemma rep_shape:
  "(\<And>x. x \<in> set (ins t) \<Longrightarrow> map_option shape (h' x) = map_option shape (h x)) \<Longrightarrow> rep h' t = rep h t"
proof (induction t)
  case (Nd l x c r)
  then have "rep h' l = rep h l" "rep h' r = rep h r" "map_option shape (h' x) = map_option shape (h x)"
    by simp_all
  then show ?case
    using shape_eqD[of h' x h "\<lambda>e k. e = c \<and> k False = adr l \<and> k True = adr r"] by simp
qed simp

lemma crep_shape:
  "(\<And>x. x \<in> cset C \<Longrightarrow> map_option shape (h' x) = map_option shape (h x)) \<Longrightarrow> crep h' C a = crep h C a"
proof (induction C arbitrary: a)
  case (Cons e C)
  obtain d x c s where e: "e = (d, x, c, s)" by (cases e)
  from Cons.prems e have "rep h' s = rep h s" "crep h' C x = crep h C x"
    "map_option shape (h' x) = map_option shape (h x)"
    by (auto intro!: rep_shape Cons.IH)
  then show ?case
    using e shape_eqD[of h' x h "\<lambda>k l. k = c \<and> l d = a \<and> l (\<not> d) = adr s"] by simp
qed simp

section \<open>Rotations\<close>

lemma RB_IsRed_adr: "rep h t \<Longrightarrow> 0 \<notin> set (ins t) \<Longrightarrow> RB_IsRed h (adr t) = Some (col t)"
  by (cases t) (auto simp: RB_IsRed_def)

lemma RB_Single_rep:
  assumes "rep h (N (\<not> d) (N d B y cy E) x c A)"
    and "distinct (ins (N (\<not> d) (N d B y cy E) x c A))"
  obtains h' where "RB_Single h x d = Some (h', y)"
    "rep h' (N d (N (\<not> d) B x True A) y False E)" "skel {x, y} h h'"
proof -
  from assms(1) obtain n m where n: "h x = Some n" "red n = c" "link n (\<not> d) = y" "link n d = adr A"
    and m: "h y = Some m" "link m d = adr B" "link m (\<not> d) = adr E"
    and r: "rep h A" "rep h B" "rep h E" by auto
  let ?h = "h(x \<mapsto> set_red True (set_link (\<not> d) (adr B) n), y \<mapsto> set_red False (set_link d x m))"
  from assms(2) have ne: "x \<noteq> y" by auto
  with n m have "RB_Single h x d = Some (?h, y)"
    by (simp add: RB_Single_def Let_def fun_upd_twist)
  moreover have s: "skel {x, y} h ?h"
    using n m ne by (auto simp: skel_def)
  moreover have "rep ?h A" "rep ?h B" "rep ?h E"
    using assms(2) by (auto intro!: rep_skel[OF _ s] r)
  with n m ne have "rep ?h (N d (N (\<not> d) B x True A) y False E)" by simp
  ultimately show thesis using that by blast
qed

lemma RB_Double_rep:
  assumes "rep h (N (\<not> d) (N d (N (\<not> d) B z cz E) y cy F) x c A)"
    and "distinct (ins (N (\<not> d) (N d (N (\<not> d) B z cz E) y cy F) x c A))"
  obtains h' where "RB_Double h x d = Some (h', z)"
    "rep h' (N d (N (\<not> d) E x True A) z False (N d B y True F))" "skel {x, y, z} h h'"
proof -
  from assms(1) obtain n where n: "h x = Some n" "red n = c" "link n (\<not> d) = y" "link n d = adr A"
    and r: "rep h A" "rep h (N (\<not> \<not> d) (N (\<not> d) B z cz E) y cy F)" by auto
  from assms(2) have ne: "x \<noteq> y" "x \<noteq> z" "x \<notin> set (ins (N (\<not> d) (N d B y True F) z False E))"
    "distinct (ins (N d (N (\<not> d) B z cz E) y cy F))" by auto
  from RB_Single_rep[OF r(2)] ne(4) obtain h1 where h1: "RB_Single h y (\<not> d) = Some (h1, z)"
    "rep h1 (N (\<not> d) (N d B y True F) z False E)" "skel {y, z} h h1" by auto
  from h1(3) n ne have x1: "h1 x = Some n" by (simp add: skel_def)
  let ?h2 = "h1(x \<mapsto> set_link (\<not> d) z n)"
  have s2: "skel {x} h1 ?h2" using x1 by (simp add: skel_upd)
  have A2: "rep ?h2 A"
    by (rule rep_skel[OF rep_skel[OF r(1) h1(3)] s2]) (use assms(2) in auto)
  have "rep ?h2 (N (\<not> d) (N d B y True F) z False E)"
    by (rule rep_skel[OF h1(2) s2]) (use ne in auto)
  with n A2 have r2: "rep ?h2 (N (\<not> d) (N d E z False (N d B y True F)) x c A)"
    by (simp add: N_flip)
  have "distinct (ins (N (\<not> d) (N d E z False (N d B y True F)) x c A))"
    using assms(2) by auto
  from RB_Single_rep[OF r2 this] obtain h3 where h3: "RB_Single ?h2 x d = Some (h3, z)"
    "rep h3 (N d (N (\<not> d) E x True A) z False (N d B y True F))" "skel {x, z} ?h2 h3" by blast
  have "RB_Double h x d = Some (h3, z)"
    using n h1(1) h3(1) x1 by (simp add: RB_Double_def)
  moreover have "skel {x, y, z} h h3"
    using skel_trans[OF skel_trans[OF h1(3) s2] h3(3)] by (rule skel_mono) auto
  ultimately show thesis using h3(2) that by blast
qed

section \<open>The contract of a tree\<close>

definition nxt :: "'v RB_node_t heap \<Rightarrow> addr \<Rightarrow> addr" where
  "nxt h x = (case h x of None \<Rightarrow> 0 | Some n \<Rightarrow> rnext n)"

definition prv :: "'v RB_node_t heap \<Rightarrow> addr \<Rightarrow> addr" where
  "prv h x = (case h x of None \<Rightarrow> 0 | Some n \<Rightarrow> rprev n)"

definition chained :: "'v RB_node_t heap \<Rightarrow> RB_t \<Rightarrow> addr list \<Rightarrow> bool" where
  "chained h tree xs \<longleftrightarrow>
     dll (nxt h) (prv h) 0 xs 0 \<and> rsize tree = of_nat (length xs) \<and>
     (xs \<noteq> [] \<longrightarrow> rfirst tree = hd xs \<and> rlast tree = last xs)"

text \<open>\<open>rb_tree h tree xs\<close>: the header \<open>tree\<close> is the root of a red-black tree of the nodes \<open>xs\<close>, in
  this order, and the chain lists the same nodes.\<close>

definition rb_tree :: "'v RB_node_t heap \<Rightarrow> RB_t \<Rightarrow> addr list \<Rightarrow> bool" where
  "rb_tree h tree xs \<longleftrightarrow>
     (\<exists>T n. ins T = xs \<and> root tree = adr T \<and> rep h T \<and> rb T n \<and> \<not> col T) \<and>
     distinct xs \<and> 0 \<notin> set xs \<and> HEAD \<notin> set xs \<and> chained h tree xs"

lemma core_eqD:
  assumes "map_option core (h' x) = map_option core (h x)"
  shows "nxt h' x = nxt h x" "prv h' x = prv h x" "map_option rdata (h' x) = map_option rdata (h x)"
  using assms by (cases "h x"; cases "h' x"; simp add: nxt_def prv_def core_def)+

lemma nxt_prv_upd [simp]:
  "nxt (h(x \<mapsto> n)) y = (if y = x then rnext n else nxt h y)"
  "prv (h(x \<mapsto> n)) y = (if y = x then rprev n else prv h y)"
  by (simp_all add: nxt_def prv_def)

lemma chained_cong:
  assumes "chained h tree xs" "\<And>x. x \<in> set xs \<Longrightarrow> map_option core (h' x) = map_option core (h x)"
    "rsize tree' = rsize tree" "rfirst tree' = rfirst tree" "rlast tree' = rlast tree"
  shows "chained h' tree' xs"
proof -
  have "nxt h' x = nxt h x \<and> prv h' x = prv h x" if "x \<in> set xs" for x
    using core_eqD[of h' x h] assms(2)[OF that] by simp
  with assms dll_cong[of xs "nxt h'" "nxt h" "prv h'" "prv h"] show ?thesis
    by (simp add: chained_def)
qed

lemma rb_tree_rep: "rb_tree h tree xs \<Longrightarrow> x \<in> set xs \<Longrightarrow> h x \<noteq> None"
proof -
  have "rep h T \<Longrightarrow> x \<in> set (ins T) \<Longrightarrow> h x \<noteq> None" for T by (induction T) auto
  then show "rb_tree h tree xs \<Longrightarrow> x \<in> set xs \<Longrightarrow> h x \<noteq> None" by (auto simp: rb_tree_def)
qed

lemma RB_Count_rep: "rep h T \<Longrightarrow> 0 \<notin> set (ins T) \<Longrightarrow> RB_Count h (adr T) = Some (of_nat (length (ins T)))"
proof (induction T)
  case Lf
  show ?case by (simp add: RB_Count.simps)
next
  case (Nd l x c r)
  then show ?case by (subst RB_Count.simps) (auto simp: of_nat_add)
qed

lemma CHECK_COUNT_tree: "rb_tree h tree xs \<Longrightarrow> CHECK_COUNT h tree = Some ()"
  by (auto simp: rb_tree_def CHECK_COUNT_def chained_def RB_Size_def RB_Count_rep)

section \<open>The loop invariant of insertion and removal\<close>

text \<open>
  While a loop works, the heap holds the whole tree below the false root, split into the path
  \<open>C\<close> and the current subtree \<open>t\<close>. Nodes outside of the tree are those of the initial heap \<open>h0\<close>,
  and the values are given by \<open>D\<close>.
\<close>

definition linv ::
  "'v RB_node_t heap \<Rightarrow> (addr \<Rightarrow> 'v) \<Rightarrow> 'v RB_node_t heap \<Rightarrow> RB_t \<Rightarrow> addr list \<Rightarrow> ctx \<Rightarrow> tr \<Rightarrow> bool" where
  "linv h0 D h tree xs C t \<longleftrightarrow>
     ins (plug C t) = HEAD # xs \<and> apart C t \<and> rep h (plug C t) \<and> chained h tree xs \<and>
     (\<forall>x \<in> set xs. map_option rdata (h x) = Some (D x)) \<and>
     (\<forall>x. x \<notin> set (HEAD # xs) \<longrightarrow> h x = h0 x)"

lemma linvD:
  assumes "linv h0 D h tree xs C t"
  shows "ins (plug C t) = HEAD # xs" "apart C t" "crep h C (adr t)" "rep h t" "chained h tree xs"
    "\<And>x. x \<in> set xs \<Longrightarrow> map_option rdata (h x) = Some (D x)"
    "\<And>x. x \<notin> set (HEAD # xs) \<Longrightarrow> h x = h0 x"
  using assms by (auto simp: linv_def)

lemma linv_skel:
  assumes l: "linv h0 D h tree xs C t" and s: "skel F h h'" "F \<subseteq> set (ins (plug C t))"
    and r: "rep h' (plug C' t')" and i: "ins (plug C' t') = ins (plug C t)"
  shows "linv h0 D h' tree xs C' t'"
proof -
  from s(1) have c: "map_option core (h' x) = map_option core (h x)" for x by (simp add: skel_def)
  have "apart C' t'" using linvD(2)[OF l] i by (simp add: apart_def)
  moreover have "chained h' tree xs" by (rule chained_cong[OF linvD(5)[OF l] c]) simp_all
  moreover have "x \<notin> set (HEAD # xs) \<Longrightarrow> h' x = h0 x" for x
    using s linvD(1,7)[OF l] by (auto simp: skel_def)
  ultimately show ?thesis
    using r i linvD(1,6)[OF l] core_eqD(3)[of h' _ h, OF c] by (simp add: linv_def)
qed

lemma linv_move:
  "linv h0 D h tree xs C (N d a x c b) \<longleftrightarrow> linv h0 D h tree xs ((d, x, c, b) # C) a"
  by (simp add: linv_def)

end
