(* ===== verification/RBInsert.thy ===== *)
theory RBInsert
  imports RBShape
begin

text \<open>
  Correctness of \<open>RB_Insert\<close> on the heap. The loop walks down with four pointers \<open>t\<close>, \<open>g\<close>, \<open>p\<close>,
  \<open>q\<close>; after a rotation they are not each other's parents for one or two iterations. The proof
  shows that in those iterations the loop only moves down, so that every rotation is made with
  the right pointers, that the tree is a red-black tree after each iteration, and that the new
  node ends up between the smaller and the larger ones.
\<close>

section \<open>One iteration\<close>

fun paint :: "bool \<Rightarrow> tr \<Rightarrow> tr" where
  "paint c Lf = Lf"
| "paint c (Nd l x _ r) = Nd l x c r"

lemma paint_sel [simp]: "adr (paint c t) = adr t" "ins (paint c t) = ins t" "\<not> col (paint False t)"
  by (cases t; simp)+

lemma paint_Lf [simp]: "paint c t = Lf \<longleftrightarrow> t = Lf"
  by (cases t) simp_all

lemma rb_paint_black: "col t \<Longrightarrow> rb t n \<Longrightarrow> rb (paint False t) (Suc n)"
  by (cases t) auto

lemma flip_none:
  assumes "rep h (Nd l q c r)" "0 \<notin> set (ins (Nd l q c r))" "\<not> (col l \<and> col r)"
  shows "RB_Insert_flip h q = Some h"
proof -
  from assms obtain n where n: "h q = Some n" "link n False = adr l" "link n True = adr r" by auto
  with assms show ?thesis
    using RB_IsRed_adr[of h l] RB_IsRed_adr[of h r] by (auto simp: RB_Insert_flip_def)
qed

lemma rep_paint:
  assumes "rep h t" "t \<noteq> Lf" "distinct (ins t)"
  obtains h' where "upd h (adr t) (set_red c) = Some h'" "rep h' (paint c t)" "skel {adr t} h h'"
proof -
  from assms(2) obtain l x c' r where t: "t = Nd l x c' r" by (cases t) auto
  with assms(1) obtain n where n: "h x = Some n" "link n False = adr l" "link n True = adr r"
    and r: "rep h l" "rep h r" by auto
  let ?h = "h(x \<mapsto> set_red c n)"
  have s: "skel {x} h ?h" using n by (simp add: skel_upd)
  have "rep ?h l" "rep ?h r" using r by (auto intro!: rep_skel[OF _ s] simp: \<open>t = _\<close> assms(3)[unfolded t, simplified])
  with n t s show thesis by (intro that[of ?h]) simp_all
qed

lemma flip_both:
  assumes "rep h (Nd l q c r)" "distinct (ins (Nd l q c r))" "0 \<notin> set (ins (Nd l q c r))" "col l" "col r"
  obtains h' where "RB_Insert_flip h q = Some h'"
    "rep h' (Nd (paint False l) q True (paint False r))" "skel (set (ins (Nd l q c r))) h h'"
proof -
  from assms obtain n where n: "h q = Some n" "link n False = adr l" "link n True = adr r"
    and r: "rep h l" "rep h r" by auto
  let ?h1 = "h(q \<mapsto> set_red True n)"
  have s1: "skel {q} h ?h1" using n by (simp add: skel_upd)
  have lf: "l \<noteq> Lf" "r \<noteq> Lf" using assms by auto
  then have a: "adr l \<in> set (ins l)" "adr r \<in> set (ins r)" by simp_all
  have l1: "rep ?h1 l" and r1: "rep ?h1 r" using assms(2) by (auto intro!: rep_skel[OF _ s1] r)
  from rep_paint[OF l1 lf(1), of False] assms(2) obtain h2 where h2: "upd ?h1 (adr l) (set_red False) = Some h2"
    "rep h2 (paint False l)" "skel {adr l} ?h1 h2" by auto
  have r2: "rep h2 r" by (rule rep_skel[OF r1 h2(3)]) (use assms(2) a in auto)
  from rep_paint[OF r2 lf(2), of False] assms(2) obtain h3 where h3: "upd h2 (adr r) (set_red False) = Some h3"
    "rep h3 (paint False r)" "skel {adr r} h2 h3" by auto
  have l3: "rep h3 (paint False l)" by (rule rep_skel[OF h2(2) h3(3)]) (use assms(2) a in auto)
  have "q \<noteq> adr l" "q \<noteq> adr r" using assms(2) a by auto
  then have "h3 q = ?h1 q" using skel_frame[OF h2(3)] skel_frame[OF h3(3)] by simp
  with n l3 h3(2) have "rep h3 (Nd (paint False l) q True (paint False r))" by simp
  moreover have "RB_Insert_flip h q = Some h3"
    using n h2(1) h3(1) assms RB_IsRed_adr[OF r(1)] RB_IsRed_adr[OF r(2)]
    by (simp add: RB_Insert_flip_def)
  moreover have "skel (set (ins (Nd l q c r))) h h3"
    using skel_trans[OF skel_trans[OF s1 h2(3)] h3(3)] by (rule skel_mono) (use a in auto)
  ultimately show thesis using that by blast
qed

lemma flip_both_N:
  assumes "rep h (N d x q c y)" "distinct (ins (N d x q c y))" "0 \<notin> set (ins (N d x q c y))" "col x" "col y"
  shows "\<exists>h'. RB_Insert_flip h q = Some h' \<and> rep h' (N d (paint False x) q True (paint False y)) \<and>
    skel (set (ins (N d x q c y))) h h'"
proof (cases d)
  case True
  with assms show ?thesis by (auto simp: N_def intro: flip_both[of h y q c x])
next
  case False
  with assms show ?thesis by (auto simp: N_def intro: flip_both[of h x q c y])
qed

text \<open>Writing the link of the parent puts a new subtree into its place.\<close>

lemma crep_relink:
  assumes "crep h ((d, t, c, s) # C) g" "h t = Some n" "t \<notin> set (ins s)" "t \<notin> cset C"
  shows "crep (h(t \<mapsto> set_link d x n)) ((d, t, c, s) # C) x"
proof -
  have s: "skel {t} h (h(t \<mapsto> set_link d x n))" using assms(2) by (simp add: skel_upd)
  show ?thesis using assms by (auto intro!: rep_skel[OF _ s] crep_skel[OF _ s])
qed

lemma dir2_eq:
  assumes "crep h ((d, t, c, s) # C) g" "h t = Some n" "g \<noteq> 0" "g \<notin> set (ins s)" 
  shows "(link n True = g) = d"
proof -
  have "adr s \<noteq> g" using assms(3,4) by (cases s) auto
  with assms(1,2) show ?thesis by (cases d) auto
qed

lemma rotate_none:
  assumes "RB_IsRed h q = Some rq" "RB_IsRed h p = Some rp" "\<not> (rq \<and> rp)"
  shows "RB_Insert_rotate h t g p q d = Some h"
  using assms by (auto simp: RB_Insert_rotate_def)

lemma rotate_single:
  assumes "crep h ((d, p, True, s1) # (d, g, False, s2) # (d3, t, c3, s3) # C) (adr Q)" "rep h Q" "col Q"
    and ap: "apart ((d, p, True, s1) # (d, g, False, s2) # (d3, t, c3, s3) # C) Q"
  obtains h' where "RB_Insert_rotate h t g p (adr Q) d = Some h'"
    "crep h' ((d, p, False, N d s1 g True s2) # (d3, t, c3, s3) # C) (adr Q)" "rep h' Q"
    "skel {t, g, p} h h'"
proof -
  note D = apartD[OF ap[simplified]]
  have r: "rep h (N (\<not> \<not> d) (N (\<not> d) s1 p True Q) g False s2)"
    using assms(1,2) by (auto simp: N_flip)
  have di: "distinct (ins (N (\<not> \<not> d) (N (\<not> d) s1 p True Q) g False s2))"
    using D(1) by (auto simp: N_flip)
  from RB_Single_rep[OF r di] obtain h1 where h1: "RB_Single h g (\<not> d) = Some (h1, p)"
    "rep h1 (N (\<not> d) (N (\<not> \<not> d) s1 g True s2) p False Q)" "skel {g, p} h h1" .
  from assms(1) obtain n where n: "h t = Some n" and cr: "crep h ((d3, t, c3, s3) # C) g" by auto
  have tn: "h1 t = Some n" using n skel_frame[OF h1(3), of t] D(1) by auto
  have cr1: "crep h1 ((d3, t, c3, s3) # C) g"
    by (rule crep_skel[OF cr h1(3)]) (use D(1,3) in auto)
  let ?h2 = "h1(t \<mapsto> set_link d3 p n)"
  have s2: "skel {t} h1 ?h2" using tn by (simp add: skel_upd)
  have "crep ?h2 ((d3, t, c3, s3) # C) p"
    by (rule crep_relink[OF cr1 tn]) (use D(1,3) in auto)
  moreover have "rep ?h2 (N (\<not> d) (N (\<not> \<not> d) s1 g True s2) p False Q)"
    by (rule rep_skel[OF h1(2) s2]) (use D(1) in auto)
  moreover have "RB_Insert_rotate h t g p (adr Q) d = Some ?h2"
  proof -
    have "RB_IsRed h (adr Q) = Some True" using RB_IsRed_adr[OF assms(2)] assms(3) D(2) by auto
    moreover from assms(1) D(2) have "RB_IsRed h p = Some True" "\<exists>m. h p = Some m \<and> link m d = adr Q"
      by (auto simp: RB_IsRed_def)
    moreover have "(link n True = g) = d3" by (rule dir2_eq[OF cr n]) (use D(1,2) in auto)
    ultimately show ?thesis using n tn h1(1) by (auto simp: RB_Insert_rotate_def)
  qed
  moreover have "skel {t, g, p} h ?h2"
    using skel_trans[OF h1(3) s2] by (rule skel_mono) auto
  ultimately show thesis by (intro that[of ?h2]) (auto simp: N_flip)
qed

lemma rotate_double:
  assumes "crep h ((d, p, True, s1) # (\<not> d, g, False, s2) # (d3, t, c3, s3) # C) q"
    "rep h (N d E q True B)"
    and ap: "apart ((d, p, True, s1) # (\<not> d, g, False, s2) # (d3, t, c3, s3) # C) (N d E q True B)"
  obtains h' where "RB_Insert_rotate h t g p q (\<not> d) = Some h'"
    "crep h' ((d3, t, c3, s3) # C) q"
    "rep h' (N d (N (\<not> d) E g True s2) q False (N d B p True s1))"
    "skel {t, g, p, q} h h'"
proof -
  note D = apartD[OF ap[simplified]]
  have r: "rep h (N (\<not> d) (N d (N (\<not> d) B q True E) p True s1) g False s2)"
    using assms(1,2) by (auto simp: N_flip)
  have di: "distinct (ins (N (\<not> d) (N d (N (\<not> d) B q True E) p True s1) g False s2))"
    using D(1) by (auto simp: N_flip)
  from RB_Double_rep[OF r di] obtain h1 where h1: "RB_Double h g d = Some (h1, q)"
    "rep h1 (N d (N (\<not> d) E g True s2) q False (N d B p True s1))" "skel {g, p, q} h h1" .
  from assms(1) obtain n where n: "h t = Some n" and cr: "crep h ((d3, t, c3, s3) # C) g" by auto
  have tn: "h1 t = Some n" using n skel_frame[OF h1(3), of t] D(1) by auto
  have cr1: "crep h1 ((d3, t, c3, s3) # C) g"
    by (rule crep_skel[OF cr h1(3)]) (use D(1,3) in auto)
  let ?h2 = "h1(t \<mapsto> set_link d3 q n)"
  have s2: "skel {t} h1 ?h2" using tn by (simp add: skel_upd)
  have "crep ?h2 ((d3, t, c3, s3) # C) q"
    by (rule crep_relink[OF cr1 tn]) (use D(1,3) in auto)
  moreover have "rep ?h2 (N d (N (\<not> d) E g True s2) q False (N d B p True s1))"
    by (rule rep_skel[OF h1(2) s2]) (use D(1) in auto)
  moreover have "RB_Insert_rotate h t g p q (\<not> d) = Some ?h2"
  proof -
    have "RB_IsRed h q = Some True" using assms(2) D(2) by (auto simp: RB_IsRed_def)
    moreover from assms(1) D(2) have "RB_IsRed h p = Some True" by (auto simp: RB_IsRed_def)
    moreover have "adr s1 \<noteq> q" using D(1,2) by (cases s1) auto
    with assms(1) have "\<exists>m. h p = Some m \<and> link m (\<not> d) \<noteq> q" by auto
    moreover have "(link n True = g) = d3" by (rule dir2_eq[OF cr n]) (use D(1,2) in auto)
    ultimately show ?thesis using n tn h1(1) by (auto simp: RB_Insert_rotate_def)
  qed
  moreover have "skel {t, g, p, q} h ?h2"
    using skel_trans[OF h1(3) s2] by (rule skel_mono) auto
  ultimately show thesis by (intro that[of ?h2])
qed

section \<open>Attaching the new node\<close>

lemma cinv_cl: "cinv C c n \<Longrightarrow> \<exists>us. cl C = HEAD # us"
  by (induction C c n rule: cinv.induct) (auto simp: FALSE_ROOT_def split: if_splits)

lemma attach_linv:
  assumes l: "linv h0 D h tree xs ((d, p, c, s) # C) Lf" and p: "h p = Some pn"
    and us: "cl ((d, p, c, s) # C) = HEAD # us" "cr ((d, p, c, s) # C) = vs"
    and a: "a \<noteq> 0" "a \<noteq> HEAD" "a \<notin> set xs"
    and an: "h' a = Some an" "shape an = (True, \<lambda>_. 0)" "rdata an = v"
    and sh: "\<And>x. x \<noteq> a \<Longrightarrow> map_option shape (h' x) = map_option shape ((h(p \<mapsto> set_link d a pn)) x)"
    and da: "\<And>x. x \<noteq> a \<Longrightarrow> map_option rdata (h' x) = map_option rdata (h x)"
    and fr: "\<And>x. x \<notin> set (a # xs) \<Longrightarrow> h' x = h x"
    and nx: "\<And>x. x \<in> set (us @ a # vs) \<Longrightarrow>
           nxt h' x = (if x = a then hd1 vs 0 else if us \<noteq> [] \<and> x = last us then a else nxt h x)"
    and pv: "\<And>x. x \<in> set (us @ a # vs) \<Longrightarrow>
           prv h' x = (if x = a then last1 us 0 else if vs \<noteq> [] \<and> x = hd vs then a else prv h x)"
    and tr: "rsize tree' = rsize tree + 1" "rfirst tree' = hd1 us a" "rlast tree' = last1 vs a"
  shows "xs = us @ vs" "linv h0 (D(a := v)) h' tree' (us @ a # vs) ((d, p, c, s) # C) (Nd Lf a True Lf)"
proof -
  let ?C = "(d, p, c, s) # C"
  from linvD(1)[OF l] us show xs: "xs = us @ vs" by (simp add: ins_plug del: plug.simps cl.simps cr.simps)
  have ins: "ins (plug ?C (Nd Lf a True Lf)) = HEAD # us @ a # vs"
    using us by (simp add: ins_plug del: plug.simps cl.simps cr.simps)
  have ap: "apart ?C (Nd Lf a True Lf)"
    using linvD(1,2)[OF l] a xs unfolding apart_def ins by (auto simp: apart_def)
  have dd: "distinct (us @ a # vs)" using ap unfolding apart_def ins by simp
  have cr: "crep (h(p \<mapsto> set_link d a pn)) ?C a"
    using linvD(2,3)[OF l] p by (intro crep_relink[where g = "adr Lf"]) (auto dest: apartD)
  have "a \<notin> cset ?C" using apartD(3)[OF ap] by auto
  then have "map_option shape (h' x) = map_option shape ((h(p \<mapsto> set_link d a pn)) x)" if "x \<in> cset ?C" for x
    using that by (intro sh) blast
  from crep_shape[of ?C h' "h(p \<mapsto> set_link d a pn)", OF this] cr have "crep h' ?C a" by blast
  moreover have "rep h' (Nd Lf a True Lf)" using an(1,2) by (simp add: shape_def)
  moreover have "chained h' tree' (us @ a # vs)"
  proof -
    have "dll (nxt h') (prv h') 0 (us @ a # vs) 0"
      by (rule dll_insert[OF _ _ nx pv]) (use linvD(5)[OF l] dd xs in \<open>simp_all add: chained_def\<close>)
    with tr linvD(5)[OF l] xs show ?thesis
      by (cases us) (simp_all add: chained_def last1_def)
  qed
  moreover have "x \<in> set (us @ a # vs) \<Longrightarrow> map_option rdata (h' x) = Some ((D(a := v)) x)" for x
    using linvD(6)[OF l, of x] da[of x] an xs by auto
  moreover have "x \<notin> set (HEAD # us @ a # vs) \<Longrightarrow> h' x = h0 x" for x
    using linvD(7)[OF l, of x] fr[of x] xs by auto
  ultimately show "linv h0 (D(a := v)) h' tree' (us @ a # vs) ?C (Nd Lf a True Lf)"
    using ins ap unfolding linv_def rep_plug by simp
qed

lemma attach_right:
  assumes l: "linv h0 D h tree xs ((True, p, c, s) # C) Lf" and us: "cl ((True, p, c, s) # C) = HEAD # us"
    and a: "a \<noteq> 0" "a \<noteq> HEAD" "a \<notin> set xs" "h0 a = None" and v: "INIT_VALUE_func I key = Some v"
    and ne: "us = us' @ [p]" and vs: "cr ((True, p, c, s) # C) = vs"
  shows "\<exists>h' tree'. RB_Insert_attach I key a h tree p True = Some (h', tree', a) \<and>
    linv h0 (D(a := v)) h' tree' (us @ a # vs) ((True, p, c, s) # C) (Nd Lf a True Lf)"
proof -
  from linvD(1)[OF l] us vs have xs: "xs = us' @ p # vs"
    by (simp add: ins_plug ne del: plug.simps cl.simps cr.simps)
  have di: "distinct (us' @ p # vs)" "0 \<notin> set (us' @ p # vs)"
    using linvD(1,2)[OF l] xs by (auto simp: apart_def)
  from linvD(3)[OF l] obtain pn where pn: "h p = Some pn" by auto
  define w where "w = hd1 vs 0"
  define wn where "wn = the (h w)"
  have w: "w = 0 \<longleftrightarrow> vs = []" "vs \<noteq> [] \<Longrightarrow> w = hd vs \<and> w \<in> set vs"
    using di(2) by (cases vs; simp add: w_def)+
  have h: "w \<noteq> 0 \<Longrightarrow> h w = Some wn" using w linvD(6)[OF l, of w] xs by (auto simp: wn_def)
  have ch: "dll (nxt h) (prv h) 0 (us' @ p # vs) 0" using linvD(5)[OF l] xs by (simp add: chained_def)
  from dll_at[OF ch] pn have nx: "rnext pn = w" by (simp add: nxt_def w_def)
  have ne': "p \<noteq> a" "p \<noteq> 0" "w \<noteq> a" "w \<noteq> p" using di a xs w by auto
  define pn' where "pn' = (set_link True a pn)\<lparr>rnext := a\<rparr>"
  define an where "an = \<lparr>rdata = v, red = True, link = (\<lambda>_. 0), rnext = w, rprev = p\<rparr>"
  define h1 where "h1 = h(a \<mapsto> an, p \<mapsto> pn')"
  define h' where "h' = (if w = 0 then h1 else h1(w \<mapsto> wn\<lparr>rprev := a\<rparr>))"
  define t' where "t' = (if w = 0 then tree\<lparr>rlast := a\<rparr> else tree)\<lparr>rsize := rsize tree + 1\<rparr>"
  have "RB_Insert_attach I key a h tree p True = Some (h', t', a)"
    using a v pn nx h ne'
    by (simp add: RB_Insert_attach_def RB_NewNode_def h'_def h1_def an_def pn'_def t'_def)
  moreover have "linv h0 (D(a := v)) h' t' (us @ a # vs) ((True, p, c, s) # C) (Nd Lf a True Lf)"
  proof (rule attach_linv(2)[OF l pn us vs a(1-3)])
    show "h' a = Some an" "shape an = (True, \<lambda>_. 0)" "rdata an = v"
      using ne' by (simp_all add: h'_def h1_def an_def shape_def)
    have whd: "(vs \<noteq> [] \<and> x = hd vs) = (w \<noteq> 0 \<and> x = w)" for x using w by auto
    show "nxt h' x = (if x = a then hd1 vs 0 else if us \<noteq> [] \<and> x = last us then a else nxt h x)"
      "prv h' x = (if x = a then last1 us 0 else if vs \<noteq> [] \<and> x = hd vs then a else prv h x)" for x
      using h pn ne' unfolding whd w_def[symmetric]
      by (simp_all add: ne h'_def h1_def an_def pn'_def nxt_def prv_def)
    show "map_option shape (h' x) = map_option shape ((h(p \<mapsto> set_link True a pn)) x)"
      "map_option rdata (h' x) = map_option rdata (h x)" if "x \<noteq> a" for x
      using h pn ne' that by (simp_all add: h'_def h1_def pn'_def shape_def)
    show "h' x = h x" if "x \<notin> set (a # xs)" for x
      using that w xs by (auto simp: h'_def h1_def)
    show "rsize t' = rsize tree + 1" "rfirst t' = hd1 us a" "rlast t' = last1 vs a"
      using w(1) linvD(5)[OF l] xs by (cases us'; auto simp: t'_def chained_def ne last1_def)+
  qed
  ultimately show ?thesis by blast
qed

lemma attach_left:
  assumes l: "linv h0 D h tree xs ((False, p, c, s) # C) Lf" and us: "cl ((False, p, c, s) # C) = HEAD # us"
    and a: "a \<noteq> 0" "a \<noteq> HEAD" "a \<notin> set xs" "h0 a = None" and v: "INIT_VALUE_func I key = Some v"
    and vs: "cr ((False, p, c, s) # C) = p # vs"
  shows "\<exists>h' tree'. RB_Insert_attach I key a h tree p False = Some (h', tree', a) \<and>
    linv h0 (D(a := v)) h' tree' (us @ a # p # vs) ((False, p, c, s) # C) (Nd Lf a True Lf)"
proof -
  from linvD(1)[OF l] us vs have xs: "xs = us @ p # vs"
    by (simp add: ins_plug del: plug.simps cl.simps cr.simps)
  have di: "distinct (us @ p # vs)" "0 \<notin> set (us @ p # vs)"
    using linvD(1,2)[OF l] xs by (auto simp: apart_def)
  from linvD(3)[OF l] obtain pn where pn: "h p = Some pn" by auto
  define w where "w = last1 us 0"
  define wn where "wn = the (h w)"
  have w: "w = 0 \<longleftrightarrow> us = []" "us \<noteq> [] \<Longrightarrow> w = last us \<and> w \<in> set us"
    using di(2) by (cases us rule: rev_cases; simp add: w_def)+
  have h: "w \<noteq> 0 \<Longrightarrow> h w = Some wn" using w linvD(6)[OF l, of w] xs by (auto simp: wn_def)
  have ch: "dll (nxt h) (prv h) 0 (us @ p # vs) 0" using linvD(5)[OF l] xs by (simp add: chained_def)
  from dll_at[OF ch] pn have pv: "rprev pn = w" by (simp add: prv_def w_def)
  have ne': "p \<noteq> a" "p \<noteq> 0" "w \<noteq> a" "w \<noteq> p" using di a xs w by auto
  define pn' where "pn' = (set_link False a pn)\<lparr>rprev := a\<rparr>"
  define an where "an = \<lparr>rdata = v, red = True, link = (\<lambda>_. 0), rnext = p, rprev = w\<rparr>"
  define h1 where "h1 = h(a \<mapsto> an, p \<mapsto> pn')"
  define h' where "h' = (if w = 0 then h1 else h1(w \<mapsto> wn\<lparr>rnext := a\<rparr>))"
  define t' where "t' = (if w = 0 then tree\<lparr>rfirst := a\<rparr> else tree)\<lparr>rsize := rsize tree + 1\<rparr>"
  have "RB_Insert_attach I key a h tree p False = Some (h', t', a)"
    using a v pn pv h ne'
    by (simp add: RB_Insert_attach_def RB_NewNode_def h'_def h1_def an_def pn'_def t'_def)
  moreover have "linv h0 (D(a := v)) h' t' (us @ a # p # vs) ((False, p, c, s) # C) (Nd Lf a True Lf)"
  proof (rule attach_linv(2)[OF l pn us vs a(1-3)])
    show "h' a = Some an" "shape an = (True, \<lambda>_. 0)" "rdata an = v"
      using ne' by (simp_all add: h'_def h1_def an_def shape_def)
    have wl: "(us \<noteq> [] \<and> x = last us) = (w \<noteq> 0 \<and> x = w)" for x using w by auto
    show "nxt h' x = (if x = a then hd1 (p # vs) 0 else if us \<noteq> [] \<and> x = last us then a else nxt h x)"
      "prv h' x = (if x = a then last1 us 0 else if p # vs \<noteq> [] \<and> x = hd (p # vs) then a else prv h x)" for x
      using h pn ne' unfolding wl w_def[symmetric]
      by (simp_all add: h'_def h1_def an_def pn'_def nxt_def prv_def)
    show "map_option shape (h' x) = map_option shape ((h(p \<mapsto> set_link False a pn)) x)"
      "map_option rdata (h' x) = map_option rdata (h x)" if "x \<noteq> a" for x
      using h pn ne' that by (simp_all add: h'_def h1_def pn'_def shape_def)
    show "h' x = h x" if "x \<notin> set (a # xs)" for x
      using that w xs by (auto simp: h'_def h1_def)
    show "rsize t' = rsize tree + 1" "rfirst t' = hd1 us a" "rlast t' = last1 (p # vs) a"
      using w(1) linvD(5)[OF l] xs by (cases us; auto simp: t'_def chained_def last1_def)+
  qed
  ultimately show ?thesis by blast
qed

lemma RB_Insert_attach_linv:
  assumes l: "linv h0 D h tree xs ((d, p, c, s) # e # C) Lf" and ci: "cinv ((d, p, c, s) # e # C) k n"
    and a: "a \<noteq> 0" "a \<noteq> HEAD" "a \<notin> set xs" "h0 a = None" and v: "INIT_VALUE_func I key = Some v"
  obtains h' tree' us vs where "RB_Insert_attach I key a h tree p d = Some (h', tree', a)"
    "xs = us @ vs" "cl ((d, p, c, s) # e # C) = HEAD # us" "cr ((d, p, c, s) # e # C) = vs"
    "linv h0 (D(a := v)) h' tree' (us @ a # vs) ((d, p, c, s) # e # C) (Nd Lf a True Lf)"
proof -
  let ?C = "(d, p, c, s) # e # C"
  from cinv_cl[OF ci] obtain us where us: "cl ?C = HEAD # us" by blast
  from linvD(1)[OF l] us have xs: "xs = us @ cr ?C"
    by (simp add: ins_plug del: plug.simps cl.simps cr.simps)
  have "\<exists>h' tree'. RB_Insert_attach I key a h tree p d = Some (h', tree', a) \<and>
    linv h0 (D(a := v)) h' tree' (us @ a # cr ?C) ?C (Nd Lf a True Lf)"
  proof (cases d)
    case True
    from ci have "cinv (e # C) c (if c then n else Suc n)" by (cases e) simp
    from cinv_cl[OF this] obtain ws where "cl (e # C) = HEAD # ws" by blast
    with us True have "us = (ws @ ins s) @ [p]" by simp
    from attach_right[OF l[unfolded True[THEN Eq_TrueI]] us[unfolded True[THEN Eq_TrueI]] a v this refl]
      True show ?thesis by simp
  next
    case False
    have "cr ((False, p, c, s) # e # C) = p # ins s @ cr (e # C)" by simp
    from attach_left[OF l[unfolded False[THEN Eq_FalseI]] us[unfolded False[THEN Eq_FalseI]] a v this]
      False show ?thesis by simp
  qed
  then show thesis using that us xs by blast
qed

section \<open>The pointers of the loop\<close>

text \<open>\<open>pos C p g dir lst\<close>: \<open>p\<close> is the parent of the current node, \<open>g\<close> its grandparent, and \<open>dir\<close>,
  \<open>lst\<close> are the directions taken there; \<open>al C t\<close>: \<open>t\<close> is the parent of \<open>g\<close>.\<close>

fun pos :: "ctx \<Rightarrow> addr \<Rightarrow> addr \<Rightarrow> bool \<Rightarrow> bool \<Rightarrow> bool" where
  "pos [] p g dir lst \<longleftrightarrow> False"
| "pos [e] p g dir lst \<longleftrightarrow> p = 0 \<and> g = 0"
| "pos [(d, x, c, s), e] p g dir lst \<longleftrightarrow> p = x \<and> g = 0 \<and> dir = d"
| "pos ((d1, x1, c1, s1) # (d2, x2, c2, s2) # e # C) p g dir lst \<longleftrightarrow>
     p = x1 \<and> g = x2 \<and> dir = d1 \<and> lst = d2"

fun al :: "ctx \<Rightarrow> addr \<Rightarrow> bool" where
  "al (e1 # e2 # (d, x, c, s) # C) t \<longleftrightarrow> t = x"
| "al _ t \<longleftrightarrow> t = HEAD"

text \<open>No node that the loop has passed keeps two red children.\<close>

fun passed :: "ctx \<Rightarrow> tr \<Rightarrow> bool" where
  "passed [] T \<longleftrightarrow> False"
| "passed [e] T \<longleftrightarrow> \<not> col T"
| "passed [(d1, x1, c1, s1), e] T \<longleftrightarrow> \<not> c1 \<and> \<not> (col T \<and> col s1)"
| "passed ((d1, x1, c1, s1) # (d2, x2, c2, s2) # e # C) T \<longleftrightarrow> \<not> (col T \<and> col s1) \<and> \<not> (c1 \<and> col s2)"

definition path_ok :: "(addr \<Rightarrow> int) \<Rightarrow> ctx \<Rightarrow> bool" where
  "path_ok sg C \<longleftrightarrow> (\<forall>(d, x, c, s) \<in> set (butlast C). sg x \<noteq> 0 \<and> d = (sg x < 0))"

text \<open>The two states of the loop: the pointers are aligned, or the current node is black with at
  most one red child, so that nothing but a move can happen.\<close>

definition normal :: "ctx \<Rightarrow> tr \<Rightarrow> addr \<Rightarrow> bool" where
  "normal C T t \<longleftrightarrow> al C t \<and> passed C T"

definition calm :: "ctx \<Rightarrow> tr \<Rightarrow> addr \<Rightarrow> bool" where
  "calm C T t \<longleftrightarrow> (length C < 3 \<longrightarrow> t = HEAD) \<and> 2 \<le> length C \<and>
     (\<exists>l q r. T = Nd l q False r \<and> \<not> (col l \<and> col r))"

lemma pos_move: "pos C p g dir lst \<Longrightarrow> pos ((d, q, c, b) # C) q p d dir"
  by (cases "(C, p, g, dir, lst)" rule: pos.cases) auto

lemma al_move:
  assumes "pos C p g dir lst" "cinv C k n" "0 \<notin> cset C" "length C < 3 \<Longrightarrow> t = HEAD"
  shows "al (e # C) (if g \<noteq> 0 then g else t)"
  using assms by (cases "(C, p, g, dir, lst)" rule: pos.cases) (auto simp: FALSE_ROOT_def)

lemma normal_wk: "normal C T t \<Longrightarrow> length C < 3 \<Longrightarrow> t = HEAD"
  unfolding normal_def by (cases "(C, t)" rule: al.cases) auto

lemma normal_move:
  assumes "normal C T t" "pos C p g dir lst" "cinv C k n" "0 \<notin> cset C"
    "T = N d a q c b" "\<not> (col a \<and> col b)"
  shows "normal ((d, q, c, b) # C) a (if g \<noteq> 0 then g else t)"
proof -
  have "passed ((d, q, c, b) # C) a"
    using assms(1,5,6) unfolding normal_def by (cases "(C, T)" rule: passed.cases) auto
  with al_move[OF assms(2-4)] normal_wk[OF assms(1)] show ?thesis by (simp add: normal_def)
qed

lemma calm_move:
  assumes "calm C T t" "pos C p g dir lst" "cinv C k n" "0 \<notin> cset C"
    "T = N d a q c b" "\<not> (col a \<and> col b)"
  shows "normal ((d, q, c, b) # C) a (if g \<noteq> 0 then g else t)"
proof -
  have "\<not> c" using assms(1) arg_cong[OF assms(5), of col] by (auto simp: calm_def)
  then have "passed ((d, q, c, b) # C) a"
    using assms(1,6) unfolding calm_def by (cases "(C, T)" rule: passed.cases) auto
  with al_move[OF assms(2-4)] assms(1) show ?thesis by (simp add: normal_def calm_def)
qed

lemma path_ok_Cons:
  "C \<noteq> [] \<Longrightarrow> path_ok sg ((d, x, c, s) # C) \<longleftrightarrow> sg x \<noteq> 0 \<and> d = (sg x < 0) \<and> path_ok sg C"
  by (auto simp: path_ok_def)

text \<open>The rotation step after the current node \<open>Q\<close> became red.\<close>

lemma insert_fix:
  assumes l: "linv h0 D h tree xs C Q" and Q: "col Q" "rb Q n" and ci: "cinv C False n"
    and p: "pos C p g dir lst" and al: "al C t" and pa: "passed C T" "\<not> col T" and po: "path_ok sg C"
  obtains
    "RB_Insert_rotate h t g p (adr Q) lst = Some h" "cinv C True n"
  | h' C' g' lst' where "RB_Insert_rotate h t g p (adr Q) lst = Some h'"
    "linv h0 D h' tree xs C' Q" "cinv C' True n" "pos C' p g' dir lst'" "path_ok sg C'" "2 \<le> length C'"
  | d B E s1 s2 C' h' where "RB_Insert_rotate h t g p (adr Q) lst = Some h'"
    "Q = N d E (adr Q) True B" "path_ok sg C'" "C' \<noteq> []" "sg p \<noteq> 0" "d = (sg p < 0)" "sg g \<noteq> 0" "d \<noteq> (sg g < 0)"
    "linv h0 D h' tree xs C' (N d (N (\<not> d) E g True s2) (adr Q) False (N d B p True s1))"
    "rb (N d (N (\<not> d) E g True s2) (adr Q) False (N d B p True s1)) (Suc n)" "cinv C' False (Suc n)"
proof -
  have rq: "RB_IsRed h (adr Q) = Some True"
    using RB_IsRed_adr[OF linvD(4)[OF l]] apartD(2)[OF linvD(2)[OF l]] Q(1) by simp
  show thesis
  proof (cases "(C, p, g, dir, lst)" rule: pos.cases)
    case (2 e)
    with p have "RB_IsRed h p = Some False" by (simp add: RB_IsRed_def)
    from rotate_none[OF rq this] 2 ci show thesis by (intro that(1)) auto
  next
    case (3 d x c s e)
    with pa p linvD(2,3)[OF l] have "RB_IsRed h p = Some False" by (auto simp: RB_IsRed_def)
    from rotate_none[OF rq this] 3 ci pa show thesis by (cases e) (intro that(1), auto)
  next
    case (4 d1 x1 c1 s1 d2 x2 c2 s2 e C3)
    obtain d3 x3 c3 s3 where e: "e = (d3, x3, c3, s3)" by (cases e)
    note 4 = 4[unfolded e]
    from 4 p al have x: "x1 = p" "x2 = g" "x3 = t" "d1 = dir" "d2 = lst" by simp_all
    show thesis
    proof (cases c1)
      case False
      with 4 linvD(3)[OF l] have "RB_IsRed h p = Some False" using x by (auto simp: RB_IsRed_def)
      from rotate_none[OF rq this] 4 ci False show thesis by (intro that(1)) auto
    next
      case c1: True
      with 4 ci have c2: "c2 = False" by (cases c2) auto
      show thesis
      proof (cases "d1 = d2")
        case True
        with 4 x c1 c2 have C: "C = (lst, p, True, s1) # (lst, g, False, s2) # (d3, t, c3, s3) # C3" by simp
        let ?C' = "(lst, p, False, N lst s1 g True s2) # (d3, t, c3, s3) # C3"
        from rotate_single[OF linvD(3)[OF l, unfolded C] linvD(4)[OF l] Q(1) linvD(2)[OF l, unfolded C]]
        obtain h' where h': "RB_Insert_rotate h t g p (adr Q) lst = Some h'" "crep h' ?C' (adr Q)" "rep h' Q"
          "skel {t, g, p} h h'" .
        have "linv h0 D h' tree xs ?C' Q"
          by (rule linv_skel[OF l h'(4)])
             (use h' in \<open>simp_all add: C ins_plug ins_N del: crep.simps plug.simps\<close>)
        moreover have "cinv ?C' True n" using ci pa Q unfolding C by auto
        moreover have "pos ?C' p (if C3 = [] then 0 else t) dir d3" using True x by (cases C3) auto
        moreover have "path_ok sg ?C'" using po unfolding C by (simp add: path_ok_Cons)
        ultimately show thesis using h'(1) by (intro that(2)[of h' ?C']) simp_all
      next
        case False
        with 4 x c1 c2 have C: "C = (dir, p, True, s1) # (\<not> dir, g, False, s2) # (d3, t, c3, s3) # C3" by auto
        from Q(1) obtain E q B where Q': "Q = N dir E q True B" by (cases rule: tr_dir_cases[where t = Q and d = dir]) auto
        let ?C' = "(d3, t, c3, s3) # C3" and ?Z = "N dir (N (\<not> dir) E g True s2) q False (N dir B p True s1)"
        from rotate_double[OF linvD(3)[OF l, unfolded C Q' N_sel] linvD(4)[OF l, unfolded Q'] linvD(2)[OF l, unfolded C Q']]
        obtain h' where h': "RB_Insert_rotate h t g p q (\<not> dir) = Some h'" "crep h' ?C' q" "rep h' ?Z"
          "skel {t, g, p, q} h h'" .
        have "linv h0 D h' tree xs ?C' ?Z"
          by (rule linv_skel[OF l h'(4)])
             (use h' in \<open>simp_all add: C Q' ins_plug ins_N del: crep.simps plug.simps\<close>)
        moreover have "rb ?Z (Suc n)" "cinv ?C' False (Suc n)" using ci pa Q unfolding C Q' by auto
        moreover have "path_ok sg ?C'" "sg p \<noteq> 0" "dir = (sg p < 0)" "sg g \<noteq> 0" "dir \<noteq> (sg g < 0)"
          using po unfolding C by (auto simp: path_ok_Cons)
        moreover have "RB_Insert_rotate h t g p (adr Q) lst = Some h'" using h'(1) False x Q' by auto
        ultimately show thesis using Q' by (intro that(3)[of h' dir E B ?C' s2 s1]) simp_all
      qed
    qed
  qed (use p in simp)
qed

section \<open>The loop\<close>

lemma cinv_plug: "cinv C (col T) n \<Longrightarrow> rb T n \<Longrightarrow> \<exists>X m. plug C T = plug [FALSE_ROOT] X \<and> rb X m"
proof (induction C "col T" n arbitrary: T rule: cinv.induct)
  case (3 d x cx s e C n)
  from 3 have "cinv (e # C) (col (N d T x cx s)) (if cx then n else Suc n)"
    "rb (N d T x cx s) (if cx then n else Suc n)" by auto
  from 3(1)[OF _ this] show ?case by simp
qed auto

lemma linv_finish:
  assumes "linv h0 D h tree xs C T" "rb T n" "cinv C (col T) n"
  obtains X m where "linv h0 D h tree xs [FALSE_ROOT] X" "rb X m"
  using cinv_plug[OF assms(3,2)] assms(1) that unfolding linv_def apart_def by metis

lemma linv_subset:
  assumes "linv h0 D h tree xs C T" "cinv C k n"
  shows "set (ins T) \<subseteq> set xs"
proof -
  from cinv_cl[OF assms(2)] linvD(1)[OF assms(1)] have "xs = tl (cl C) @ ins T @ cr C"
    by (auto simp: ins_plug)
  then show ?thesis by auto
qed

lemma linv_node:
  assumes "linv h0 D h tree xs C (N d a q c b)" "cinv C k n"
  obtains m where "h q = Some m" "rdata m = D q" "link m d = adr a" "q \<in> set xs" "q \<noteq> 0"
  using linvD(4)[OF assms(1)] linvD(6)[OF assms(1), of q] linv_subset[OF assms]
    apartD(2)[OF linvD(2)[OF assms(1)]] by auto

lemma path_ends:
  assumes "cinv C k n" "path_ok sg C"
  shows "cl C = HEAD # us \<Longrightarrow> us \<noteq> [] \<Longrightarrow> sg (last us) < 0" "cr C \<noteq> [] \<Longrightarrow> sg (hd (cr C)) > 0"
  using assms
proof (induction C k n arbitrary: us rule: cinv.induct)
  case (2 e c n)
  { case 1 with 2 show ?case by (simp add: FALSE_ROOT_def) next
    case 2 with \<open>cinv [e] c n\<close> show ?case by (simp add: FALSE_ROOT_def) }
next
  case (3 d x cx s e C c n)
  { case 1
    then have ci: "cinv (e # C) cx (if cx then n else Suc n)" by simp
    from cinv_cl[OF ci] obtain ws where "cl (e # C) = HEAD # ws" by blast
    with 1 ci show ?case using 3(1)[of us] by (cases d) (auto simp: path_ok_Cons)
  next
    case 2
    then show ?case using 3(2) by (cases d) (auto simp: path_ok_Cons)
  }
qed simp_all

lemma pos_red:
  assumes "linv h0 D h tree xs C T" "cinv C (col T) n" "pos C p g dir lst"
  obtains rp where "RB_IsRed h p = Some rp" "\<not> (col T \<and> rp)"
proof (cases "(C, p, g, dir, lst)" rule: pos.cases)
  case (2 e)
  with assms(3) show thesis by (intro that[of False]) (simp_all add: RB_IsRed_def)
next
  case (3 d x c s e)
  with assms linvD(2,3)[OF assms(1)] show thesis
    by (intro that[of c]) (cases e; auto simp: RB_IsRed_def dest: apartD)+
next
  case (4 d1 x1 c1 s1 d2 x2 c2 s2 e C3)
  with assms linvD(2,3)[OF assms(1)] apartD(4)[OF linvD(2)[OF assms(1)]] show thesis
    by (intro that[of c1]) (auto simp: RB_IsRed_def)
qed (use assms in simp)

lemma cinv_move:
  assumes "rb (N d a q c b) n" "cinv C c n"
  obtains m where "rb a m" "cinv ((d, q, c, b) # C) (col a) m"
  using assms by (cases C; cases c) auto

definition ins_post ::
  "(addr \<Rightarrow> int) \<Rightarrow> 'v RB_node_t heap \<Rightarrow> (addr \<Rightarrow> 'v) \<Rightarrow> RB_t \<Rightarrow> addr list \<Rightarrow> addr \<Rightarrow> 'v
    \<Rightarrow> 'v RB_node_t heap \<times> RB_t \<times> addr option \<Rightarrow> bool" where
  "ins_post sg h0 D tree xs a v r \<longleftrightarrow> (case r of (h', tree', res) \<Rightarrow> \<exists>X m. rb X m \<and>
     (res = Some 0 \<and> tree' = tree \<and> (\<exists>x \<in> set xs. sg x = 0) \<and> linv h0 D h' tree xs [FALSE_ROOT] X \<or>
      res = Some a \<and> (\<exists>us vs. xs = us @ vs \<and> (us \<noteq> [] \<longrightarrow> sg (last us) < 0) \<and> (vs \<noteq> [] \<longrightarrow> 0 < sg (hd vs)) \<and>
        linv h0 (D(a := v)) h' tree' (us @ a # vs) [FALSE_ROOT] X)))"

lemma insert_fix_final:
  assumes "linv h0 D h tree xs C Q" "col Q" "rb Q n" "cinv C False n"
    "pos C p g dir lst" "al C t" "passed C T" "\<not> col T" "path_ok sg C"
  obtains h' X m where "RB_Insert_rotate h t g p (adr Q) lst = Some h'"
    "linv h0 D h' tree xs [FALSE_ROOT] X" "rb X m"
  using assms
proof (cases rule: insert_fix)
  case 1
  with assms(1-3) show thesis by (auto intro: linv_finish[of h0 D h tree xs C Q n] that)
next
  case (2 h' C' g' lst')
  with assms(2,3) show thesis by (auto intro: linv_finish[of h0 D h' tree xs C' Q n] that)
next
  case (3 d B E s1 s2 C' h')
  show thesis by (rule linv_finish[OF 3(9,10)]) (use 3 in \<open>auto intro: that\<close>)
qed

text \<open>A pass through the body of the loop at an existing node.\<close>

lemma insert_step:
  assumes "RB_Insert_flip h q = Some h1" "RB_Insert_rotate h1 t g p q lst = Some h2" "q \<noteq> 0"
    "h2 q = Some m" "COMPARE_VALUE_func I (rdata m) key = s"
  shows "RB_Insert_loop I key a h tree t g p q dir lst res =
    (if s = 0 then Some (h2, tree, Some res)
     else RB_Insert_loop I key a h2 tree (if g \<noteq> 0 then g else t) p q (link m (s < 0)) (s < 0) dir res)"
  by (subst RB_Insert_loop.simps) (use assms in \<open>simp add: Let_def\<close>)

text \<open>At a node without two red children, and not below a red parent if red, the loop only moves.\<close>

lemma insert_quiet:
  assumes l: "linv h0 D h tree xs C (N d x q c y)" and ci: "cinv C c n"
    and nf: "\<not> (col x \<and> col y)" and rp: "RB_IsRed h p = Some rp" "\<not> (c \<and> rp)"
    and sg: "COMPARE_VALUE_func I (D q) key = s" "d = (s < 0)"
  shows "RB_Insert_loop I key a h tree t g p q dir lst res =
    (if s = 0 then Some (h, tree, Some res)
     else RB_Insert_loop I key a h tree (if g \<noteq> 0 then g else t) p q (adr x) d dir res)"
proof -
  from linv_node[OF l ci] obtain m where m: "h q = Some m" "rdata m = D q" "link m d = adr x" "q \<noteq> 0" .
  note D = apartD(2)[OF linvD(2)[OF l]]
  have "RB_Insert_flip h q = Some h"
    using flip_none[of h "if d then y else x" q c "if d then x else y"] linvD(4)[OF l] D nf
    by (auto simp: N_def split: if_splits)
  moreover have "RB_IsRed h q = Some c"
    using RB_IsRed_adr[OF linvD(4)[OF l] D] by simp
  then have "RB_Insert_rotate h t g p q lst = Some h"
    by (rule rotate_none[OF _ rp(1)]) (use rp in simp)
  ultimately show ?thesis
    using insert_step[of h q h t g p lst h m I key s a tree dir res] m sg by simp
qed

text \<open>A state of the loop, and what is to be shown of it.\<close>

definition ins_st ::
  "(addr \<Rightarrow> int) \<Rightarrow> 'v RB_node_t heap \<Rightarrow> (addr \<Rightarrow> 'v) \<Rightarrow> RB_t \<Rightarrow> addr list \<Rightarrow> 'v RB_node_t heap \<Rightarrow> ctx \<Rightarrow> tr
    \<Rightarrow> addr \<Rightarrow> addr \<Rightarrow> bool \<Rightarrow> bool \<Rightarrow> bool" where
  "ins_st sg h0 D tree xs h C T p g dir lst \<longleftrightarrow>
     linv h0 D h tree xs C T \<and> (\<exists>n. rb T n \<and> cinv C (col T) n) \<and> path_ok sg C \<and> pos C p g dir lst"

definition ins_ok ::
  "('k, 'v) RBTreeImpl \<Rightarrow> 'k \<Rightarrow> addr \<Rightarrow> 'v \<Rightarrow> (addr \<Rightarrow> int) \<Rightarrow> 'v RB_node_t heap \<Rightarrow> (addr \<Rightarrow> 'v) \<Rightarrow> RB_t
    \<Rightarrow> addr list \<Rightarrow> 'v RB_node_t heap \<Rightarrow> tr \<Rightarrow> addr \<Rightarrow> addr \<Rightarrow> addr \<Rightarrow> bool \<Rightarrow> bool \<Rightarrow> bool" where
  "ins_ok I key a v sg h0 D tree xs h T t g p dir lst \<longleftrightarrow>
     (\<exists>r. RB_Insert_loop I key a h tree t g p (adr T) dir lst 0 = Some r \<and> ins_post sg h0 D tree xs a v r)"

lemma insert_attach:
  assumes st: "ins_st sg h0 D tree xs h C Lf p g dir lst" and no: "normal C Lf t" and len: "2 \<le> length C"
    and a: "a \<noteq> 0" "a \<noteq> HEAD" "a \<notin> set xs" "h0 a = None"
    and v: "INIT_VALUE_func I key = Some v" "COMPARE_VALUE_func I v key = 0"
  shows "ins_ok I key a v sg h0 D tree xs h Lf t g p dir lst"
proof -
  from st have l: "linv h0 D h tree xs C Lf" and ci: "cinv C False 0" and po: "path_ok sg C"
    and ps: "pos C p g dir lst" by (auto simp: ins_st_def)
  from len ps obtain c s e C' where C: "C = (dir, p, c, s) # e # C'"
    by (cases "(C, p, g, dir, lst)" rule: pos.cases) auto
  obtain h1 tree1 us vs where
    at: "RB_Insert_attach I key a h tree p dir = Some (h1, tree1, a)" and xs: "xs = us @ vs"
    and us: "cl C = HEAD # us" "cr C = vs"
    and l1: "linv h0 (D(a := v)) h1 tree1 (us @ a # vs) C (Nd Lf a True Lf)"
    using RB_Insert_attach_linv[OF l[unfolded C] ci[unfolded C] a v(1)] unfolding C by blast
  have "col (Nd Lf a True Lf)" "rb (Nd Lf a True Lf) 0" "al C t" "passed C Lf" "\<not> col Lf"
    using no by (auto simp: normal_def)
  from insert_fix_final[OF l1 this(1,2) ci ps this(3-5) po] obtain h2 X m where
    h2: "RB_Insert_rotate h1 t g p a lst = Some h2" "linv h0 (D(a := v)) h2 tree1 (us @ a # vs) [FALSE_ROOT] X"
    "rb X m" by auto
  from linvD(6)[OF h2(2), of a] obtain k where k: "h2 a = Some k" "rdata k = v" by auto
  have "RB_Insert_loop I key a h tree t g p (adr Lf) dir lst 0 = Some (h2, tree1, Some a)"
    by (subst RB_Insert_loop.simps) (use at h2(1) k v(2) a in simp)
  moreover have "ins_post sg h0 D tree xs a v (h2, tree1, Some a)"
    using h2(2,3) xs path_ends[OF ci po] us unfolding ins_post_def by blast
  ultimately show ?thesis by (auto simp: ins_ok_def)
qed

lemma insert_dup:
  assumes "linv h0 D h tree xs C T" "rb T n" "cinv C (col T) n" "T \<noteq> Lf" "sg (adr T) = 0"
  shows "ins_post sg h0 D tree xs a v (h, tree, Some 0)"
proof -
  from linv_finish[OF assms(1-3)] obtain X m where "linv h0 D h tree xs [FALSE_ROOT] X" "rb X m" .
  moreover have "adr T \<in> set xs" using linv_subset[OF assms(1,3)] adr_in[OF assms(4)] by blast
  ultimately show ?thesis using assms(5) unfolding ins_post_def by auto
qed

lemma ins_st_move:
  assumes "linv h0 D h tree xs C (N d x q c y)" "rb (N d x q c y) n" "cinv C c n" "path_ok sg C"
    "pos C p g dir lst" "sg q \<noteq> 0" "d = (sg q < 0)"
  shows "ins_st sg h0 D tree xs h ((d, q, c, y) # C) x q p d dir"
proof -
  from assms(3) have "C \<noteq> []" by auto
  with assms(4,6,7) have "path_ok sg ((d, q, c, y) # C)" by (simp add: path_ok_Cons)
  moreover from cinv_move[OF assms(2,3)] obtain m where "rb x m" "cinv ((d, q, c, y) # C) (col x) m" .
  moreover note assms(1)[unfolded linv_move] pos_move[OF assms(5)]
  ultimately show ?thesis unfolding ins_st_def by blast
qed

lemma insert_calm:
  assumes "linv h0 D h tree xs C (N d (paint False x) q True y)" "rb (N d (paint False x) q True y) n"
    "cinv C True n" "path_ok sg C" "pos C p g dir lst" "sg q \<noteq> 0" "d = (sg q < 0)"
    and "col x" "rb x m" "length C < 2 \<Longrightarrow> t = HEAD"
  shows "ins_st sg h0 D tree xs h ((d, q, True, y) # C) (paint False x) q p d dir"
    "calm ((d, q, True, y) # C) (paint False x) t"
proof -
  show "ins_st sg h0 D tree xs h ((d, q, True, y) # C) (paint False x) q p d dir"
    by (rule ins_st_move[OF assms(1-7)])
  from assms(8,9) obtain l k r where "x = Nd l k True r" "\<not> col l" by (cases x) auto
  moreover have "C \<noteq> []" using assms(3) by auto
  ultimately show "calm ((d, q, True, y) # C) (paint False x) t"
    using assms(10) by (cases C) (auto simp: calm_def)
qed

lemma pos_ex: assumes "cinv C k n" shows "\<exists>p g dir lst. pos C p g dir lst"
proof (cases "(C, 0 :: addr, 0 :: addr, True, True)" rule: pos.cases)
  case (2 e)
  then have "pos C 0 0 True True" by simp
  then show ?thesis by blast
next
  case (3 d x c s e)
  then have "pos C x 0 d True" by simp
  then show ?thesis by blast
next
  case (4 d1 x1 c1 s1 d2 x2 c2 s2 e C3)
  then have "pos C x1 x2 d1 d2" by simp
  then show ?thesis by blast
qed (use assms in simp)

text \<open>After a double rotation the loop passes the old parent or grandparent \<open>k\<close>, a red node below
  the black \<open>q\<close>, before it reaches a former child of \<open>q\<close>.\<close>

lemma insert_double_tail:
  assumes IH: "\<And>C p g t dir lst.
      ins_st sg h0 D tree xs h C (paint False x) p g dir lst \<Longrightarrow> calm C (paint False x) t \<Longrightarrow>
      ins_ok I key a v sg h0 D tree xs h (paint False x) t g p dir lst"
    and l: "linv h0 D h tree xs C (N d (N e (paint False x) k True S) q False Y)"
    and n: "rb (N d (N e (paint False x) k True S) q False Y) n" "cinv C False n" and po: "path_ok sg C"
    and q: "sg q \<noteq> 0" "d = (sg q < 0)" and k: "sg k \<noteq> 0" "e = (sg k < 0)" and x: "col x" "rb x m"
    and sg: "sg = (\<lambda>x. COMPARE_VALUE_func I (D x) key)"
  shows "\<exists>r. RB_Insert_loop I key a h tree t g q k d lst 0 = Some r \<and> ins_post sg h0 D tree xs a v r"
proof -
  let ?C1 = "(d, q, False, Y) # C" and ?T1 = "N e (paint False x) k True S"
  from pos_ex[OF n(2)] obtain p0 g0 dir0 lst0 where ps: "pos C p0 g0 dir0 lst0" by blast
  from ins_st_move[OF l n po ps q] have st1: "ins_st sg h0 D tree xs h ?C1 ?T1 q p0 d dir0" .
  then obtain n1 where l1: "linv h0 D h tree xs ?C1 ?T1" and n1: "rb ?T1 n1" "cinv ?C1 True n1"
    and po1: "path_ok sg ?C1" and ps1: "pos ?C1 q p0 d dir0" by (auto simp: ins_st_def)
  have rq: "RB_IsRed h q = Some False"
    using RB_IsRed_adr[OF linvD(4)[OF l] apartD(2)[OF linvD(2)[OF l]]] by simp
  have "RB_Insert_loop I key a h tree t g q k d lst 0 =
      RB_Insert_loop I key a h tree (if g \<noteq> 0 then g else t) q k (adr (paint False x)) e d 0"
    using insert_quiet[OF l1 n1(2) _ rq, of I key "sg k" a t g d lst 0] k sg by simp
  moreover have "C \<noteq> []" using n(2) by auto
  then have "calm ((e, k, True, S) # ?C1) (paint False x) (if g \<noteq> 0 then g else t)"
    by (intro insert_calm(2)[OF l1 n1 po1 ps1 k x]) simp
  from IH[OF insert_calm(1)[OF l1 n1 po1 ps1 k x] this] have
    "ins_ok I key a v sg h0 D tree xs h (paint False x) (if g \<noteq> 0 then g else t) q k e d" by simp
  ultimately show ?thesis by (simp add: ins_ok_def)
qed

lemma insert_flip:
  assumes IH: "\<And>h C T' p g t dir lst. length (ins T') < length (ins T) \<Longrightarrow>
      ins_st sg h0 D tree xs h C T' p g dir lst \<Longrightarrow> calm C T' t \<Longrightarrow> T' \<noteq> Lf \<Longrightarrow>
      ins_ok I key a v sg h0 D tree xs h T' t g p dir lst"
    and st: "ins_st sg h0 D tree xs h C T p g dir lst" and no: "normal C T t"
    and T: "T = N d x q c y" "col x" "col y" "d = (sg q < 0)"
    and sg: "sg = (\<lambda>x. COMPARE_VALUE_func I (D x) key)"
  shows "ins_ok I key a v sg h0 D tree xs h T t g p dir lst"
proof -
  from st obtain n where l: "linv h0 D h tree xs C T" and n: "rb T n" "cinv C (col T) n"
    and po: "path_ok sg C" and ps: "pos C p g dir lst" by (auto simp: ins_st_def)
  from n T have c: "c = False" by auto
  let ?Q = "N d (paint False x) q True (paint False y)"
  obtain h1 where h1: "RB_Insert_flip h q = Some h1" "rep h1 ?Q" "skel (set (ins T)) h h1"
    using flip_both_N[of h d x q c y] linvD(4)[OF l] apartD(1,2)[OF linvD(2)[OF l]] T(2,3)
    unfolding T(1) by blast
  have "crep h1 C q"
    by (rule crep_skel[OF linvD(3)[OF l, unfolded T N_sel] h1(3)]) (use apartD(3)[OF linvD(2)[OF l]] in auto)
  then have l1: "linv h0 D h1 tree xs C ?Q"
    by (intro linv_skel[OF l h1(3)]) (use h1(2) T in \<open>auto simp: ins_plug ins_N simp del: rep_N\<close>)
  from n T c obtain m where m: "n = Suc m" "rb x m" "rb y m" by auto
  then have Q: "col ?Q" "rb ?Q n" using T rb_paint_black by auto
  have "al C t" "passed C T" "\<not> col T" using no T c by (auto simp: normal_def)
  note fix_cases = insert_fix[OF l1 Q n(2)[unfolded T N_sel c] ps this po]
  let ?t = "if g \<noteq> 0 then g else t"
  have go: ?thesis if h2: "RB_Insert_rotate h1 t g p q lst = Some h2" and l2: "linv h0 D h2 tree xs C' ?Q"
    and ci: "cinv C' True n" and po2: "path_ok sg C'" and ps2: "pos C' p g' dir lst'"
    and tt: "length C' < 2 \<Longrightarrow> ?t = HEAD" for h2 C' g' lst'
  proof -
    from linv_node[OF l2 ci] obtain k where k: "h2 q = Some k" "rdata k = D q" "link k d = adr x" "q \<noteq> 0"
      by auto
    from insert_step[OF h1(1) h2 k(4,1), of I key "sg q"] k sg T(4) have
      st: "RB_Insert_loop I key a h tree t g p q dir lst 0 =
        (if sg q = 0 then Some (h2, tree, Some 0)
         else RB_Insert_loop I key a h2 tree ?t p q (adr x) d dir 0)" by simp
    show ?thesis
    proof (cases "sg q = 0")
      case True
      with st insert_dup[OF l2 Q(2), of sg] ci T show ?thesis by (simp add: ins_ok_def)
    next
      case False
      note calm = insert_calm[OF l2 Q(2) ci po2 ps2 False T(4,2) m(2) tt]
      have "ins_ok I key a v sg h0 D tree xs h2 (paint False x) ?t p q d dir"
        by (rule IH[OF _ calm]) (use T in auto)
      with st False T show ?thesis by (simp add: ins_ok_def)
    qed
  qed
  from fix_cases show ?thesis
  proof cases
    case 1
    have "length C < 2 \<Longrightarrow> ?t = HEAD"
      using ps normal_wk[OF no] by (cases "(C, p, g, dir, lst)" rule: pos.cases) auto
    with 1 l1 po ps show ?thesis by (intro go[of h1 C g lst]) auto
  next
    case (2 h2 C' g' lst')
    then show ?thesis by (intro go[of h2 C' g' lst']) auto
  next
    case (3 d0 B E s1 s2 C' h2)
    note l2 = 3(9)[unfolded N_sel] and n2 = 3(10,11)[unfolded N_sel]
    from linv_node[OF l2 n2(2)] obtain k where k: "h2 q = Some k" "rdata k = D q" "q \<noteq> 0" by blast
    from insert_step[OF h1(1) 3(1)[unfolded N_sel] k(3,1), of I key "sg q"] k sg have
      st: "RB_Insert_loop I key a h tree t g p q dir lst 0 =
        (if sg q = 0 then Some (h2, tree, Some 0)
         else RB_Insert_loop I key a h2 tree ?t p q (link k d) d dir 0)" unfolding T(4) by simp
    have IH': "ins_ok I key a v sg h0 D tree xs h2 (paint False x) t g p dir lst"
      if "ins_st sg h0 D tree xs h2 C (paint False x) p g dir lst" "calm C (paint False x) t"
      for C p g t dir lst
      by (rule IH[OF _ that]) (use T in auto)
    show ?thesis
    proof (cases "sg q = 0")
      case True
      with st insert_dup[OF l2 n2(1), of sg] n2(2) T show ?thesis by (simp add: ins_ok_def)
    next
      case False
      show ?thesis
      proof (cases "d = d0")
        case True
        with 3(2) have E: "E = paint False x" by simp
        from linvD(4)[OF l2] k True have "link k d = g" by auto
        moreover have "\<exists>r. RB_Insert_loop I key a h2 tree ?t p q g d dir 0 = Some r \<and> ins_post sg h0 D tree xs a v r"
          by (rule insert_double_tail[OF IH' l2[folded True, unfolded E] n2(1)[folded True, unfolded E] n2(2) 3(3) False T(4) 3(7) _ T(2) m(2) sg])
             (use 3(8) True in auto)
        ultimately show ?thesis using st False T by (simp add: ins_ok_def)
      next
        case d: False
        then have d0: "d0 = (\<not> d)" by auto
        with 3(2) have B: "B = paint False x" by (simp add: N_flip)
        let ?Z = "N d (N (\<not> d) (paint False x) p True s1) q False (N d E g True s2)"
        have l2': "linv h0 D h2 tree xs C' ?Z" and n2': "rb ?Z (Suc n)"
          using l2 n2(1) unfolding d0 B by (simp_all add: N_flip)
        from linvD(4)[OF l2'] k have "link k d = p" by auto
        moreover have "\<exists>r. RB_Insert_loop I key a h2 tree ?t p q p d dir 0 = Some r \<and> ins_post sg h0 D tree xs a v r"
          by (rule insert_double_tail[OF IH' l2' n2' n2(2) 3(3) False T(4) 3(5) _ T(2) m(2) sg])
             (use 3(6) d0 in auto)
        ultimately show ?thesis using st False T by (simp add: ins_ok_def)
      qed
    qed
  qed
qed

lemma insert_loop:
  assumes "ins_st sg h0 D tree xs h C T p g dir lst" "normal C T t \<or> calm C T t" "T = Lf \<Longrightarrow> 2 \<le> length C"
    and a: "a \<noteq> 0" "a \<noteq> HEAD" "a \<notin> set xs" "h0 a = None"
    and v: "INIT_VALUE_func I key = Some v" "COMPARE_VALUE_func I v key = 0"
    and sg: "sg = (\<lambda>x. COMPARE_VALUE_func I (D x) key)"
  shows "ins_ok I key a v sg h0 D tree xs h T t g p dir lst"
  using assms(1-3)
proof (induction "length (ins T)" arbitrary: h C T p g t dir lst rule: less_induct)
  case less
  define d where "d = (sg (adr T) < 0)"
  show ?case
  proof (cases rule: tr_dir_cases[where t = T and d = d])
    case 1
    then have "normal C Lf t" using less.prems(2) by (auto simp: calm_def)
    from insert_attach[OF less.prems(1)[unfolded 1] this less.prems(3)[OF 1] a v] 1 show ?thesis by simp
  next
    case (2 x q c y)
    then have "adr T = q" by simp
    then have dq: "d = (sg q < 0)" by (simp add: d_def)
    from less.prems(1) obtain n where l: "linv h0 D h tree xs C T" and n: "rb T n" "cinv C (col T) n"
      and po: "path_ok sg C" and ps: "pos C p g dir lst" by (auto simp: ins_st_def)
    show ?thesis
    proof (cases "col x \<and> col y")
      case True
      then have "\<not> calm C T t" using 2 by (cases d) (auto simp: calm_def N_def)
      with less.prems(2) have no: "normal C T t" by blast
      show ?thesis
      proof (rule insert_flip[OF _ less.prems(1) no 2 _ _ dq sg])
        fix h C T' p g t dir lst
        assume "length (ins T') < length (ins T)" "ins_st sg h0 D tree xs h C T' p g dir lst" "calm C T' t" "T' \<noteq> Lf"
        then show "ins_ok I key a v sg h0 D tree xs h T' t g p dir lst" by (intro less.hyps) auto
      qed (use True in simp_all)
    next
      case False
      from pos_red[OF l n(2) ps] obtain rp where rp: "RB_IsRed h p = Some rp" "\<not> (c \<and> rp)"
        using 2 by auto
      note q = insert_quiet[OF l[unfolded 2] n(2)[unfolded 2 N_sel] False rp, of I key "sg q" a t g dir lst 0]
      show ?thesis
      proof (cases "sg q = 0")
        case True
        with q sg dq 2 insert_dup[OF l n, of sg] show ?thesis by (simp add: ins_ok_def)
      next
        case sq: False
        let ?t = "if g \<noteq> 0 then g else t" and ?C = "(d, q, c, y) # C"
        note z = apartD(4)[OF linvD(2)[OF l]]
        have "normal ?C x ?t"
          using less.prems(2) normal_move[OF _ ps n(2) z 2 False] calm_move[OF _ ps n(2) z 2 False] by blast
        moreover have "ins_st sg h0 D tree xs h ?C x q p d dir"
          using ins_st_move[OF l[unfolded 2] n(1)[unfolded 2] n(2)[unfolded 2 N_sel] po ps sq dq] .
        moreover have "2 \<le> length ?C" using n(2) by (cases C) auto
        ultimately have "ins_ok I key a v sg h0 D tree xs h x ?t p q d dir"
          by (intro less.hyps) (use 2 in auto)
        with q sq sg dq 2 show ?thesis by (simp add: ins_ok_def)
      qed
    qed
  qed
qed

section \<open>RB-Insert\<close>

text \<open>Entering and leaving the region of the false root.\<close>

definition with_head :: "('k, 'v) RBTreeImpl \<Rightarrow> 'v RB_node_t heap \<Rightarrow> addr \<Rightarrow> 'v RB_node_t heap" where
  "with_head I h r = h(HEAD \<mapsto> \<lparr>rdata = ZERO_VALUE I, red = False, link = (\<lambda>_. 0)(True := r),
     rnext = 0, rprev = 0\<rparr>)"

lemma linv_enter:
  assumes "rb_tree h tree xs"
  obtains T n where "root tree = adr T" "ins T = xs" "rb T n" "\<not> col T"
    "linv h (\<lambda>x. rdata (the (h x))) (with_head I h (root tree)) tree xs [FALSE_ROOT] T"
proof -
  from assms obtain T n where T: "ins T = xs" "root tree = adr T" "rep h T" "rb T n" "\<not> col T"
    and x: "distinct xs" "0 \<notin> set xs" "HEAD \<notin> set xs" "chained h tree xs" by (auto simp: rb_tree_def)
  let ?h = "with_head I h (root tree)"
  have eq: "?h x = h x" if "x \<noteq> HEAD" for x using that by (simp add: with_head_def)
  have eqs: "?h x = h x" if "x \<in> set xs" for x using eq[of x] x(3) that by blast
  then have "rep ?h T" using T(1,3) rep_cong[of T ?h h] by blast
  moreover have "chained ?h tree xs"
    by (rule chained_cong[OF x(4)]) (use eqs in simp_all)
  moreover have "map_option rdata (?h x) = Some (rdata (the (h x)))" if "x \<in> set xs" for x
    using rb_tree_rep[OF assms that] eqs[OF that] by auto
  ultimately have "linv h (\<lambda>x. rdata (the (h x))) ?h tree xs [FALSE_ROOT] T"
    using T x eq by (auto simp: linv_def apart_def FALSE_ROOT_def ins_N HEAD_def with_head_def)
  with T show thesis by (intro that) auto
qed

lemma linv_leave:
  assumes l: "linv h0 D h tree xs [FALSE_ROOT] X" and X: "rb X m" "X \<noteq> Lf"
  obtains h' where "upd (h(HEAD := None)) (adr X) (set_red False) = Some h'"
    "rb_tree h' (tree\<lparr>root := adr X\<rparr>) xs" "\<And>x. x \<in> set xs \<Longrightarrow> map_option rdata (h' x) = Some (D x)"
    "\<And>x. x \<notin> set xs \<Longrightarrow> h' x = (if x = HEAD then None else h0 x)"
proof -
  have xs: "ins X = xs" and ap: "HEAD \<notin> set xs" "distinct xs" "0 \<notin> set xs"
    using linvD(1,2)[OF l] by (auto simp: FALSE_ROOT_def ins_N apart_def)
  let ?h = "h(HEAD := None)"
  have "rep ?h X" using linvD(4)[OF l] ap xs by (subst rep_cong[of X _ h]) auto
  from rep_paint[OF this X(2)] ap xs obtain h' where h': "upd ?h (adr X) (set_red False) = Some h'"
    "rep h' (paint False X)" "skel {adr X} ?h h'" by blast
  have c: "map_option core (h' x) = map_option core (h x)" if "x \<in> set xs" for x
  proof -
    have "x \<noteq> HEAD" using that ap(1) by blast
    then show ?thesis using h'(3) by (simp add: skel_def)
  qed
  have "chained h' (tree\<lparr>root := adr X\<rparr>) xs"
    by (rule chained_cong[OF linvD(5)[OF l] c]) simp_all
  moreover have "\<exists>m. rb (paint False X) m"
    using X rb_paint_black[of X m] by (cases "col X"; cases X) auto
  ultimately have "rb_tree h' (tree\<lparr>root := adr X\<rparr>) xs"
    using h'(2) ap xs by (auto simp: rb_tree_def intro!: exI[of _ "paint False X"])
  moreover have "map_option rdata (h' x) = Some (D x)" if "x \<in> set xs" for x
    using linvD(6)[OF l that] core_eqD(3)[of h' x h] c[OF that] by simp
  moreover have "h' x = (if x = HEAD then None else h0 x)" if "x \<notin> set xs" for x
  proof -
    have "x \<noteq> adr X" using that xs X(2) by (cases X) auto
    then show ?thesis using skel_frame[OF h'(3), of x] linvD(7)[OF l, of x] that by auto
  qed
  ultimately show thesis using h'(1) that by blast
qed

lemma sign_split:
  fixes sg :: "addr \<Rightarrow> int"
  assumes "sorted_wrt (\<lambda>x y. sg x < 0 \<or> 0 < sg y) (us @ vs)"
    "us \<noteq> [] \<Longrightarrow> sg (last us) < 0" "vs \<noteq> [] \<Longrightarrow> 0 < sg (hd vs)"
  shows "\<forall>x \<in> set us. sg x < 0" "\<forall>x \<in> set vs. 0 < sg x"
proof -
  show "\<forall>x \<in> set us. sg x < 0"
  proof (cases us rule: rev_cases)
    case (snoc ys y)
    with assms show ?thesis by (auto simp: sorted_wrt_append)
  qed simp
  show "\<forall>x \<in> set vs. 0 < sg x"
  proof (cases vs)
    case (Cons y ys)
    with assms show ?thesis by (auto simp: sorted_wrt_append)
  qed simp
qed

lemma sign_filter:
  fixes sg :: "addr \<Rightarrow> int"
  assumes "\<forall>x \<in> set us. sg x < 0" "\<forall>x \<in> set vs. 0 < sg x"
  shows "filter (\<lambda>x. sg x < 0) (us @ vs) = us" "filter (\<lambda>x. 0 < sg x) (us @ vs) = vs"
    "\<forall>x \<in> set (us @ vs). sg x \<noteq> 0"
proof -
  from assms have "filter (\<lambda>x. sg x < 0) us = us" "filter (\<lambda>x. 0 < sg x) vs = vs"
    by (simp_all add: filter_id_conv)
  moreover from assms have "filter (\<lambda>x. sg x < 0) vs = []" "filter (\<lambda>x. 0 < sg x) us = []"
    by (auto simp: filter_empty_conv)
  ultimately show "filter (\<lambda>x. sg x < 0) (us @ vs) = us" "filter (\<lambda>x. 0 < sg x) (us @ vs) = vs"
    by simp_all
  show "\<forall>x \<in> set (us @ vs). sg x \<noteq> 0" using assms by fastforce
qed

text \<open>The values of a tree as seen by a comparison with \<open>key\<close>.\<close>

definition sign :: "('k, 'v) RBTreeImpl \<Rightarrow> 'v RB_node_t heap \<Rightarrow> 'k \<Rightarrow> addr \<Rightarrow> int" where
  "sign I h key x = COMPARE_VALUE_func I (rdata (the (h x))) key"

definition ordered :: "('k, 'v) RBTreeImpl \<Rightarrow> 'v RB_node_t heap \<Rightarrow> addr list \<Rightarrow> 'k \<Rightarrow> bool" where
  "ordered I h xs key \<longleftrightarrow> sorted_wrt (\<lambda>x y. sign I h key x < 0 \<or> 0 < sign I h key y) xs"

lemma RB_Insert_leave:
  assumes t: "rb_tree h tree xs" and r0: "root tree \<noteq> 0"
    and lp: "RB_Insert_loop I key a (with_head I h (root tree)) tree HEAD 0 0 (root tree) False False 0
      = Some (h2, tree2, Some r)"
    and l: "linv h0 D h2 tree2 xs' [FALSE_ROOT] X" and X: "rb X m" and xs: "xs' \<noteq> []"
  shows "\<exists>h'. RB_Insert I h tree key a = Some (h', tree2\<lparr>root := adr X\<rparr>, r) \<and>
    rb_tree h' (tree2\<lparr>root := adr X\<rparr>) xs' \<and> (\<forall>x \<in> set xs'. map_option rdata (h' x) = Some (D x)) \<and>
    (\<forall>x. x \<notin> set xs' \<longrightarrow> h' x = (if x = HEAD then None else h0 x))"
proof -
  have "ins X = xs'" using linvD(1)[OF l] by (simp add: FALSE_ROOT_def ins_N)
  with xs have Lf: "X \<noteq> Lf" by auto
  from linv_leave[OF l X Lf] obtain h' where h': "upd (h2(HEAD := None)) (adr X) (set_red False) = Some h'"
    "rb_tree h' (tree2\<lparr>root := adr X\<rparr>) xs'" "\<And>x. x \<in> set xs' \<Longrightarrow> map_option rdata (h' x) = Some (D x)"
    "\<And>x. x \<notin> set xs' \<Longrightarrow> h' x = (if x = HEAD then None else h0 x)" by blast
  from linvD(3)[OF l] obtain k where "h2 HEAD = Some k" "link k True = adr X" by (auto simp: FALSE_ROOT_def)
  with lp h'(1) r0 have "RB_Insert I h tree key a = Some (h', tree2\<lparr>root := adr X\<rparr>, r)"
    unfolding RB_Insert_def CHECK_COUNT_tree[OF t] with_head_def by (simp add: Let_def)
  with h'(2-) show ?thesis by blast
qed

lemma RB_Insert_nonempty:
  assumes t: "rb_tree h tree xs" and xs: "xs \<noteq> []" and o: "ordered I h xs key"
    and a: "a \<noteq> 0" "a \<noteq> HEAD" "h a = None" and hd: "h HEAD = None"
    and v: "INIT_VALUE_func I key = Some v" "COMPARE_VALUE_func I v key = 0"
  obtains (dup) h' tree' where "\<exists>x \<in> set xs. sign I h key x = 0"
    "RB_Insert I h tree key a = Some (h', tree', 0)" "rb_tree h' tree' xs"
    "\<And>x. x \<in> set xs \<Longrightarrow> map_option rdata (h' x) = map_option rdata (h x)" "\<And>x. x \<notin> set xs \<Longrightarrow> h' x = h x"
  | (new) h' tree' where "\<forall>x \<in> set xs. sign I h key x \<noteq> 0"
    "RB_Insert I h tree key a = Some (h', tree', a)"
    "rb_tree h' tree' (filter (\<lambda>x. sign I h key x < 0) xs @ a # filter (\<lambda>x. 0 < sign I h key x) xs)"
    "map_option rdata (h' a) = Some v"
    "\<And>x. x \<in> set xs \<Longrightarrow> map_option rdata (h' x) = map_option rdata (h x)"
    "\<And>x. x \<notin> insert a (set xs) \<Longrightarrow> h' x = h x"
proof -
  define D where "D = (\<lambda>x. rdata (the (h x)))"
  have sg: "sign I h key = (\<lambda>x. COMPARE_VALUE_func I (D x) key)" by (simp add: sign_def D_def fun_eq_iff)
  obtain T n where T: "root tree = adr T" "ins T = xs" "rb T n" "\<not> col T"
    and l: "linv h D (with_head I h (root tree)) tree xs [FALSE_ROOT] T"
    using linv_enter[OF t, of I] unfolding D_def by blast
  have Lf: "T \<noteq> Lf" using T(2) xs by auto
  have r0: "root tree \<noteq> 0" using T Lf t by (cases T) (auto simp: rb_tree_def)
  have st: "ins_st (sign I h key) h D tree xs (with_head I h (root tree)) [FALSE_ROOT] T 0 0 False False"
    using l T(3) by (auto simp: ins_st_def path_ok_def)
  have no: "normal [FALSE_ROOT] T HEAD" using T(4) by (simp add: normal_def)
  have ax: "a \<notin> set xs" using rb_tree_rep[OF t, of a] a by auto
  have "ins_ok I key a v (sign I h key) h D tree xs (with_head I h (root tree)) T HEAD 0 0 False False"
    by (rule insert_loop[OF st _ _ a(1,2) ax a(3) v sg]) (use no Lf in auto)
  then obtain h2 tree2 res where lp: "RB_Insert_loop I key a (with_head I h (root tree)) tree HEAD 0 0 (root tree) False False 0
      = Some (h2, tree2, res)" and po: "ins_post (sign I h key) h D tree xs a v (h2, tree2, res)"
    unfolding ins_ok_def T(1) by auto
  have data: "map_option rdata (h x) = Some (D x)" if "x \<in> set xs" for x
    using rb_tree_rep[OF t that] by (auto simp: D_def)
  from po consider (dup) X m where "res = Some 0" "tree2 = tree" "\<exists>x \<in> set xs. sign I h key x = 0"
      "linv h D h2 tree xs [FALSE_ROOT] X" "rb X m"
    | (new) us vs X m where "res = Some a" "xs = us @ vs" "us \<noteq> [] \<longrightarrow> sign I h key (last us) < 0"
      "vs \<noteq> [] \<longrightarrow> 0 < sign I h key (hd vs)" "linv h (D(a := v)) h2 tree2 (us @ a # vs) [FALSE_ROOT] X" "rb X m"
    unfolding ins_post_def prod.case by blast
  then show thesis
  proof cases
    case dup
    from RB_Insert_leave[OF t r0 lp[unfolded dup(1,2)] dup(4,5)] xs obtain h' where
      h': "RB_Insert I h tree key a = Some (h', tree\<lparr>root := adr X\<rparr>, 0)" "rb_tree h' (tree\<lparr>root := adr X\<rparr>) xs"
      "\<And>x. x \<in> set xs \<Longrightarrow> map_option rdata (h' x) = Some (D x)"
      "\<And>x. x \<notin> set xs \<Longrightarrow> h' x = (if x = HEAD then None else h x)" by blast
    have "map_option rdata (h' x) = map_option rdata (h x)" if "x \<in> set xs" for x
      using h'(3)[OF that] data[OF that] by (rule trans[OF _ sym])
    moreover have "h' x = h x" if "x \<notin> set xs" for x using h'(4)[OF that] hd by simp
    ultimately show thesis by (rule that(1)[OF dup(3) h'(1,2)])
  next
    case new
    from RB_Insert_leave[OF t r0 lp[unfolded new(1)] new(5,6)] obtain h' where
      h': "RB_Insert I h tree key a = Some (h', tree2\<lparr>root := adr X\<rparr>, a)" "rb_tree h' (tree2\<lparr>root := adr X\<rparr>) (us @ a # vs)"
      "\<And>x. x \<in> set (us @ a # vs) \<Longrightarrow> map_option rdata (h' x) = Some ((D(a := v)) x)"
      "\<And>x. x \<notin> set (us @ a # vs) \<Longrightarrow> h' x = (if x = HEAD then None else h x)" by blast
    note s = sign_split[OF o[unfolded ordered_def new(2)] new(3)[rule_format] new(4)[rule_format]]
    note f = sign_filter[OF s, folded new(2)]
    have "map_option rdata (h' x) = map_option rdata (h x)" if "x \<in> set xs" for x
      using h'(3)[of x] data[OF that] that ax new(2) by (cases "x = a") auto
    moreover have "h' x = h x" if "x \<notin> insert a (set xs)" for x
      using h'(4)[of x] that new(2) hd by simp
    moreover have "map_option rdata (h' a) = Some v" using h'(3)[of a] by simp
    moreover have "rb_tree h' (tree2\<lparr>root := adr X\<rparr>)
        (filter (\<lambda>x. sign I h key x < 0) xs @ a # filter (\<lambda>x. 0 < sign I h key x) xs)"
      using h'(2) f(1,2) by simp
    ultimately show thesis using f(3) h'(1) by (intro that(2)[of h' "tree2\<lparr>root := adr X\<rparr>"])
  qed
qed

text \<open>The contract of \<open>RB_Insert\<close>: a value with a new key is inserted between the smaller and the
  larger ones; if there is a value with an equal key nothing is inserted and the result is null.\<close>

lemma RB_Insert_new:
  assumes t: "rb_tree h tree xs" and o: "ordered I h xs key" and new: "\<forall>x \<in> set xs. sign I h key x \<noteq> 0"
    and a: "a \<noteq> 0" "a \<noteq> HEAD" "h a = None" "h HEAD = None"
    and v: "INIT_VALUE_func I key = Some v" "COMPARE_VALUE_func I v key = 0"
  obtains h' tree' where "RB_Insert I h tree key a = Some (h', tree', a)"
    "rb_tree h' tree' (filter (\<lambda>x. sign I h key x < 0) xs @ a # filter (\<lambda>x. 0 < sign I h key x) xs)"
    "map_option rdata (h' a) = Some v" "\<And>x. x \<noteq> a \<Longrightarrow> map_option rdata (h' x) = map_option rdata (h x)"
    "\<And>x. x \<notin> insert a (set xs) \<Longrightarrow> h' x = h x"
proof (cases "xs = []")
  case True
  with t have r: "root tree = 0" "rsize tree = 0"
    by (auto simp: rb_tree_def chained_def elim: ins.elims)
  let ?n = "\<lparr>rdata = v, red = False, link = (\<lambda>_. 0), rnext = 0, rprev = 0\<rparr>"
  let ?t = "tree\<lparr>root := a, rfirst := a, rlast := a, rsize := rsize tree + 1\<rparr>"
  have "RB_Insert I h tree key a = Some (h(a \<mapsto> ?n), ?t, a)"
    using r a v unfolding RB_Insert_def CHECK_COUNT_tree[OF t]
    by (simp add: RB_NewNode_def set_red_def Let_def)
  moreover have "rb_tree (h(a \<mapsto> ?n)) ?t [a]"
    unfolding rb_tree_def using a r by (auto simp: chained_def intro!: exI[of _ "Nd Lf a False Lf"])
  ultimately show thesis using True by (intro that[of "h(a \<mapsto> ?n)" ?t]) simp_all
next
  case False
  from t False o a v show thesis
  proof (cases rule: RB_Insert_nonempty)
    case (new h' tree')
    have "map_option rdata (h' x) = map_option rdata (h x)" if "x \<noteq> a" for x
      using new(5,6)[of x] that by (cases "x \<in> set xs") simp_all
    with new show thesis by (intro that[of h' tree'])
  qed (use new in auto)
qed

lemma RB_Insert_dup:
  assumes t: "rb_tree h tree xs" and o: "ordered I h xs key" and dup: "\<exists>x \<in> set xs. sign I h key x = 0"
    and a: "a \<noteq> 0" "a \<noteq> HEAD" "h a = None" "h HEAD = None"
    and v: "INIT_VALUE_func I key = Some v" "COMPARE_VALUE_func I v key = 0"
  obtains h' tree' where "RB_Insert I h tree key a = Some (h', tree', 0)" "rb_tree h' tree' xs"
    "\<And>x. map_option rdata (h' x) = map_option rdata (h x)" "\<And>x. x \<notin> set xs \<Longrightarrow> h' x = h x"
proof -
  from dup have "xs \<noteq> []" by auto
  from t this o a v show thesis
  proof (cases rule: RB_Insert_nonempty)
    case (dup h' tree')
    have "map_option rdata (h' x) = map_option rdata (h x)" for x
      using dup(4,5)[of x] by (cases "x \<in> set xs") simp_all
    with dup show thesis by (intro that[of h' tree'])
  qed (use dup in auto)
qed

end
