(* ===== verification/RBFind.thy ===== *)
theory RBFind
  imports RBInsert
begin

text \<open>
  Search and iteration: \<open>RB_FindImpl\<close> finds the element that the relation asks for, the
  iterators walk the values in order.
\<close>

fun find_spec :: "(addr \<Rightarrow> int) \<Rightarrow> RB_Relation \<Rightarrow> addr list \<Rightarrow> addr \<Rightarrow> addr" where
  "find_spec sg RB_EQ xs b = hd1 (filter (\<lambda>x. sg x = 0) xs) b"
| "find_spec sg RB_LT xs b = last1 (filter (\<lambda>x. sg x < 0) xs) b"
| "find_spec sg RB_GE xs b = hd1 (filter (\<lambda>x. 0 \<le> sg x) xs) b"

lemma find_spec_go_right:
  assumes "sg x < 0" "\<forall>y \<in> set l. sg y < (0 :: int)"
  shows "find_spec sg rel (l @ x # r) b = find_spec sg rel r (if rel = RB_LT then x else b)"
proof -
  from assms have "filter (\<lambda>x. sg x = 0) l = []" "filter (\<lambda>x. 0 \<le> sg x) l = []" "filter (\<lambda>x. sg x < 0) l = l"
    by (auto simp: filter_empty_conv filter_id_conv)
  with assms(1) show ?thesis by (cases rel) (simp_all add: last1_append)
qed

lemma find_spec_go_left:
  assumes "0 < sg x \<or> rel = RB_LT \<and> sg x = 0" "\<forall>y \<in> set r. (0 :: int) < sg y"
  shows "find_spec sg rel (l @ x # r) b = find_spec sg rel l (if rel = RB_GE then x else b)"
proof -
  from assms(2) have "filter (\<lambda>x. sg x = 0) r = []" "filter (\<lambda>x. sg x < 0) r = []"
    by (auto simp: filter_empty_conv)
  with assms(1) show ?thesis by (cases rel) (auto simp: hd1_append)
qed

lemma find_spec_stop:
  assumes "sg x = 0" "rel \<noteq> RB_LT" "\<forall>y \<in> set l. sg y < (0 :: int)"
  shows "find_spec sg rel (l @ x # r) b = x"
proof -
  from assms(3) have "filter (\<lambda>x. sg x = 0) l = []" "filter (\<lambda>x. 0 \<le> sg x) l = []"
    by (auto simp: filter_empty_conv)
  with assms(1,2) show ?thesis by (cases rel) simp_all
qed

lemma RB_FindImpl_loop_rep:
  assumes "rep h T" "0 \<notin> set (ins T)" "ordered I h (ins T) key"
  shows "RB_FindImpl_loop I h key rel (adr T) best = Some (find_spec (sign I h key) rel (ins T) best)"
  using assms
proof (induction T arbitrary: best)
  case Lf
  show ?case by (subst RB_FindImpl_loop.simps) (cases rel; simp)
next
  case (Nd l x c r)
  let ?s = "sign I h key"
  from Nd.prems obtain n where n: "h x = Some n" "link n False = adr l" "link n True = adr r" "x \<noteq> 0"
    by auto
  from Nd.prems have o: "ordered I h (ins l) key" "ordered I h (ins r) key"
    and lo: "\<not> 0 < ?s x \<Longrightarrow> \<forall>y \<in> set (ins l). ?s y < 0" and hi: "\<not> ?s x < 0 \<Longrightarrow> \<forall>y \<in> set (ins r). 0 < ?s y"
    by (auto simp: ordered_def sorted_wrt_append)
  note IH = Nd.IH(1)[OF _ _ o(1)] Nd.IH(2)[OF _ _ o(2)]
  have cmp: "COMPARE_VALUE_func I (rdata n) key = ?s x" using n by (simp add: sign_def)
  consider "?s x < 0" | "?s x = 0" | "0 < ?s x" by linarith
  then show ?case
  proof cases
    case 1
    with lo find_spec_go_right[of ?s x "ins l" rel "ins r" best] n cmp Nd.prems IH(2) show ?thesis
      by (subst RB_FindImpl_loop.simps) (simp add: Let_def)
  next
    case 2
    with lo hi find_spec_stop[of ?s x rel "ins l" "ins r" best] n cmp Nd.prems IH(1)
      find_spec_go_left[of ?s x rel "ins r" "ins l" best] show ?thesis
      by (subst RB_FindImpl_loop.simps) (auto simp: Let_def)
  next
    case 3
    with hi find_spec_go_left[of ?s x rel "ins r" "ins l" best] n cmp Nd.prems IH(1) show ?thesis
      by (subst RB_FindImpl_loop.simps) (simp add: Let_def)
  qed
qed

lemma RB_FindImpl_tree:
  assumes "rb_tree h tree xs" "ordered I h xs key"
  shows "RB_FindImpl I h tree key rel = Some (find_spec (sign I h key) rel xs 0)"
  using assms RB_FindImpl_loop_rep by (auto simp: rb_tree_def RB_FindImpl_def)

lemma RB_Iterator_Next_tree:
  assumes "rb_tree h tree (us @ x # vs)"
  shows "RB_Iterator_Next h x = Some (if vs = [] then (x, False) else (hd vs, True))"
proof -
  obtain n where n: "h x = Some n" using rb_tree_rep[OF assms, of x] by auto
  from assms have "dll (nxt h) (prv h) 0 (us @ x # vs) 0" by (simp add: rb_tree_def chained_def)
  from dll_at[OF this] n have "rnext n = hd1 vs 0" by (simp add: nxt_def)
  moreover have "0 \<notin> set vs" using assms by (simp add: rb_tree_def)
  ultimately show ?thesis using n by (cases vs) (auto simp: RB_Iterator_Next_def)
qed

lemma RB_Iterator_Prev_tree:
  assumes "rb_tree h tree (us @ x # vs)"
  shows "RB_Iterator_Prev h x = Some (if us = [] then (x, False) else (last us, True))"
proof -
  obtain n where n: "h x = Some n" using rb_tree_rep[OF assms, of x] by auto
  from assms have "dll (nxt h) (prv h) 0 (us @ x # vs) 0" by (simp add: rb_tree_def chained_def)
  from dll_at[OF this] n have "rprev n = last1 us 0" by (simp add: prv_def)
  moreover have "0 \<notin> set us" using assms by (simp add: rb_tree_def)
  ultimately show ?thesis using n by (cases us rule: rev_cases) (auto simp: RB_Iterator_Prev_def)
qed

end
