(* ===== verification/RBRemove.thy ===== *)
theory RBRemove
  imports RBFind
begin

text \<open>
  Correctness of \<open>RB_Remove\<close> on the heap. The loop pushes a red node down the search path, so
  that the last node of the path can be taken out; the saved node \<open>f\<close> and its parent \<open>fParent\<close>
  stay correct under the rotations, and the last node of the path is the neighbour of \<open>f\<close> in
  order, so that it can take over its place.
\<close>

section \<open>Local changes inside of the tree\<close>

lemma paint_N [simp]: "paint c (N d a x c' b) = N d a x c b"
  by (simp add: N_def)

lemma linv_rep: "linv h0 D h tree xs C t \<Longrightarrow> rep h (plug C t)"
  by (simp add: linv_def)

lemma paint_at:
  assumes r: "rep h (plug C t)" and t: "t \<noteq> Lf" and ap: "apart C t"
  obtains h' where "upd h (adr t) (set_red c) = Some h'" "rep h' (plug C (paint c t))" "skel {adr t} h h'"
proof -
  from r have "rep h t" "crep h C (adr t)" by simp_all
  from rep_paint[OF this(1) t apartD(1)[OF ap]] obtain h' where h': "upd h (adr t) (set_red c) = Some h'"
    "rep h' (paint c t)" "skel {adr t} h h'" .
  have "crep h' C (adr t)"
    by (rule crep_skel[OF \<open>crep h C (adr t)\<close> h'(3)]) (use apartD(3)[OF ap] adr_in[OF t] in auto)
  with h' show thesis by (intro that) simp_all
qed

lemma paint_N_at:
  assumes r: "rep h (plug C (N d a x c0 b))" and ap: "apart C (N d a x c0 b)"
  obtains h' where "upd h x (set_red c) = Some h'" "rep h' (plug C (N d a x c b))" "skel {x} h h'"
  using paint_at[OF r N_neq_Lf(1) ap, of c] by auto

lemma paint_kids:
  assumes r: "rep h (plug C (N d P z cz S))" and lf: "P \<noteq> Lf" "S \<noteq> Lf" and ap: "apart C (N d P z cz S)"
    and z: "h z = Some zn"
  obtains h1 h2 where "upd h (link zn False) (set_red False) = Some h1" "upd h1 (link zn True) (set_red False) = Some h2"
    "rep h2 (plug C (N d (paint False P) z cz (paint False S)))" "skel {adr P, adr S} h h2"
proof -
  define L R where "L = (if d then S else P)" and "R = (if d then P else S)"
  have e: "N d P z cz S = N False L z cz R" "N d (paint False P) z cz (paint False S) = N False (paint False L) z cz (paint False R)"
    "{adr P, adr S} = {adr L, adr R}" "L \<noteq> Lf" "R \<noteq> Lf"
    using lf by (auto simp: L_def R_def N_def)
  have n: "link zn False = adr L" "link zn True = adr R"
    using r[unfolded e] z by auto
  have "rep h (plug ((False, z, cz, R) # C) L)" "apart ((False, z, cz, R) # C) L"
    using r ap unfolding e by simp_all
  from paint_at[OF this(1) e(4) this(2), of False] obtain h1 where h1: "upd h (adr L) (set_red False) = Some h1"
    "rep h1 (plug ((False, z, cz, R) # C) (paint False L))" "skel {adr L} h h1" .
  have "plug ((False, z, cz, R) # C) (paint False L) = plug ((True, z, cz, paint False L) # C) R"
    by (simp add: N_def)
  from h1(2)[unfolded this] have r1: "rep h1 (plug ((True, z, cz, paint False L) # C) R)" .
  have "apart ((True, z, cz, paint False L) # C) R"
    using ap unfolding e by (simp add: apart_def ins_plug N_def)
  from paint_at[OF r1 e(5) this, of False] obtain h2 where h2: "upd h1 (adr R) (set_red False) = Some h2"
    "rep h2 (plug ((True, z, cz, paint False L) # C) (paint False R))" "skel {adr R} h1 h2" .
  have "plug ((True, z, cz, paint False L) # C) (paint False R) = plug C (N d (paint False P) z cz (paint False S))"
    unfolding e(2) by (simp add: N_def)
  from h2(2)[unfolded this] skel_trans[OF h1(3) h2(3)] h1(1) h2(1) show thesis
    by (intro that[of h1 h2]) (simp_all add: n e(3) insert_commute)
qed

text \<open>A rotation at \<open>x\<close> followed by the update of the link of its parent \<open>t\<close>.\<close>

lemma single_at:
  assumes r: "rep h (plug ((d3, t, c3, s3) # C) (N (\<not> d) (N d B y cy E) x c A))"
    and ap: "apart ((d3, t, c3, s3) # C) (N (\<not> d) (N d B y cy E) x c A)"
  obtains h1 h2 where "RB_Single h x d = Some (h1, y)" "upd h1 t (set_link d3 y) = Some h2"
    "rep h2 (plug ((d3, t, c3, s3) # C) (N d (N (\<not> d) B x True A) y False E))" "skel {t, x, y} h h2"
proof -
  note D = apartD[OF ap[simplified]]
  have r': "rep h (N (\<not> d) (N d B y cy E) x c A)" and cr: "crep h ((d3, t, c3, s3) # C) x"
    using r by (simp_all del: plug.simps)
  have di: "distinct (ins (N (\<not> d) (N d B y cy E) x c A))" using D(1) by auto
  from RB_Single_rep[OF r' di] obtain h1 where h1: "RB_Single h x d = Some (h1, y)"
    "rep h1 (N d (N (\<not> d) B x True A) y False E)" "skel {x, y} h h1" .
  from cr obtain n where n: "h t = Some n" by auto
  have tn: "h1 t = Some n" using n skel_frame[OF h1(3), of t] D(1) by auto
  have cr1: "crep h1 ((d3, t, c3, s3) # C) x"
    by (rule crep_skel[OF cr h1(3)]) (use D(1,3) in auto)
  let ?h2 = "h1(t \<mapsto> set_link d3 y n)"
  have s2: "skel {t} h1 ?h2" using tn by (simp add: skel_upd)
  have "crep ?h2 ((d3, t, c3, s3) # C) y"
    by (rule crep_relink[OF cr1 tn]) (use D(1,3) in auto)
  moreover have "rep ?h2 (N d (N (\<not> d) B x True A) y False E)"
    by (rule rep_skel[OF h1(2) s2]) (use D(1) in auto)
  moreover have "skel {t, x, y} h ?h2"
    using skel_trans[OF h1(3) s2] by (rule skel_mono) auto
  ultimately show thesis using h1(1) tn by (intro that[of h1 ?h2]) (simp_all del: plug.simps crep.simps rep_N)
qed

lemma double_at:
  assumes r: "rep h (plug ((d3, t, c3, s3) # C) (N (\<not> d) (N d (N (\<not> d) B z cz E) y cy F) x c A))"
    and ap: "apart ((d3, t, c3, s3) # C) (N (\<not> d) (N d (N (\<not> d) B z cz E) y cy F) x c A)"
  obtains h1 h2 where "RB_Double h x d = Some (h1, z)" "upd h1 t (set_link d3 z) = Some h2"
    "rep h2 (plug ((d3, t, c3, s3) # C) (N d (N (\<not> d) E x True A) z False (N d B y True F)))"
    "skel {t, x, y, z} h h2"
proof -
  note D = apartD[OF ap[simplified]]
  have r': "rep h (N (\<not> d) (N d (N (\<not> d) B z cz E) y cy F) x c A)" and cr: "crep h ((d3, t, c3, s3) # C) x"
    using r by (simp_all del: plug.simps)
  have di: "distinct (ins (N (\<not> d) (N d (N (\<not> d) B z cz E) y cy F) x c A))" using D(1) by auto
  from RB_Double_rep[OF r' di] obtain h1 where h1: "RB_Double h x d = Some (h1, z)"
    "rep h1 (N d (N (\<not> d) E x True A) z False (N d B y True F))" "skel {x, y, z} h h1" .
  from cr obtain n where n: "h t = Some n" by auto
  have tn: "h1 t = Some n" using n skel_frame[OF h1(3), of t] D(1) by auto
  have cr1: "crep h1 ((d3, t, c3, s3) # C) x"
    by (rule crep_skel[OF cr h1(3)]) (use D(1,3) in auto)
  let ?h2 = "h1(t \<mapsto> set_link d3 z n)"
  have s2: "skel {t} h1 ?h2" using tn by (simp add: skel_upd)
  have "crep ?h2 ((d3, t, c3, s3) # C) z"
    by (rule crep_relink[OF cr1 tn]) (use D(1,3) in auto)
  moreover have "rep ?h2 (N d (N (\<not> d) E x True A) z False (N d B y True F))"
    by (rule rep_skel[OF h1(2) s2]) (use D(1) in auto)
  moreover have "skel {t, x, y, z} h ?h2"
    using skel_trans[OF h1(3) s2] by (rule skel_mono) auto
  ultimately show thesis using h1(1) tn by (intro that[of h1 ?h2]) (simp_all del: plug.simps crep.simps rep_N)
qed

section \<open>The saved node\<close>

abbreviation elt_adr :: "bool \<times> addr \<times> bool \<times> tr \<Rightarrow> addr" where
  "elt_adr e \<equiv> fst (snd e)"

text \<open>\<open>f\<close> is the node of the path with the searched key, if there is one, and \<open>fp\<close> is its parent.\<close>

fun fpos :: "(addr \<Rightarrow> int) \<Rightarrow> ctx \<Rightarrow> addr \<Rightarrow> addr \<Rightarrow> bool" where
  "fpos sg [] f fp \<longleftrightarrow> False"
| "fpos sg [e] f fp \<longleftrightarrow> f = 0 \<and> fp = 0"
| "fpos sg ((d, x, c, s) # e # C) f fp \<longleftrightarrow>
     (if sg x = 0 then f = x \<and> fp = elt_adr e else fpos sg (e # C) f fp)"

definition dirs_ok :: "(addr \<Rightarrow> int) \<Rightarrow> ctx \<Rightarrow> bool" where
  "dirs_ok sg C \<longleftrightarrow> (\<forall>(d, x, c, s) \<in> set (butlast C). d = (sg x < 0))"

lemma dirs_ok_Cons: "C \<noteq> [] \<Longrightarrow> dirs_ok sg ((d, x, c, s) # C) \<longleftrightarrow> d = (sg x < 0) \<and> dirs_ok sg C"
  by (auto simp: dirs_ok_def)

lemma fpos_mem: "fpos sg C f fp \<Longrightarrow> f = 0 \<and> fp = 0 \<or> f \<in> elt_adr ` set C \<and> fp \<in> elt_adr ` set (tl C)"
proof (induction sg C f fp rule: fpos.induct)
  case (3 sg d x c s e C f fp)
  then show ?case by (cases "sg x = 0") auto
qed auto

lemma elt_adr_cset: "elt_adr ` set C \<subseteq> cset C"
  by (induction C) auto

lemma CHECK_FPARENT_ok:
  assumes "crep h C a" "fpos sg C f fp"
  shows "CHECK_FPARENT h f fp = Some ()"
  using assms(2,1)
proof (induction sg C f fp arbitrary: a rule: fpos.induct)
  case (3 sg d x c s e C f fp)
  show ?case
  proof (cases "sg x = 0")
    case True
    with 3 show ?thesis by (cases e; cases "fst e") (auto simp: CHECK_FPARENT_def)
  next
    case False
    with 3 show ?thesis by auto
  qed
qed (auto simp: CHECK_FPARENT_def)

section \<open>Signs along the path\<close>

abbreviation srt :: "(addr \<Rightarrow> int) \<Rightarrow> addr list \<Rightarrow> bool" where
  "srt sg \<equiv> sorted_wrt (\<lambda>x y. sg x < 0 \<or> 0 < sg y)"

lemma linv_srt:
  assumes "linv h0 D h tree xs C T" "cinv C k n" "srt sg xs"
  shows "srt sg (ins T)"
proof -
  from cinv_cl[OF assms(2)] linvD(1)[OF assms(1)] have "xs = tl (cl C) @ ins T @ cr C"
    by (auto simp: ins_plug)
  with assms(3) show ?thesis by (simp add: sorted_wrt_append)
qed

lemma sib_sign:
  assumes "srt sg (ins (N d a q c b))" "d = (sg q < 0)" "y \<in> set (ins b)"
  shows "sg y \<noteq> 0" "d = (sg y < 0)"
  using assms by (cases d; fastforce simp: ins_N sorted_wrt_append)+

section \<open>One iteration\<close>

text \<open>The balance that the loop keeps: unless the current node is the root, it or the child that
  is next on the path is red. \<open>C\<close> is the context of the child.\<close>

fun pushed :: "ctx \<Rightarrow> tr \<Rightarrow> bool" where
  "pushed [] A \<longleftrightarrow> False"
| "pushed [e] A \<longleftrightarrow> True"
| "pushed [(d, x, c, s), e] A \<longleftrightarrow> c \<or> col A \<or> \<not> col s"
| "pushed ((d, x, c, s) # e1 # e2 # C) A \<longleftrightarrow> c \<or> col A"

definition rem_st ::
  "(addr \<Rightarrow> int) \<Rightarrow> 'v RB_node_t heap \<Rightarrow> (addr \<Rightarrow> 'v) \<Rightarrow> RB_t \<Rightarrow> addr list \<Rightarrow> 'v RB_node_t heap \<Rightarrow> ctx \<Rightarrow> tr
    \<Rightarrow> addr \<Rightarrow> addr \<Rightarrow> bool" where
  "rem_st sg h0 D tree xs h C A f fp \<longleftrightarrow>
     linv h0 D h tree xs C A \<and> (\<exists>n. rb A n \<and> cinv C (col A) n) \<and> pushed C A \<and> dirs_ok sg C \<and> fpos sg C f fp"

text \<open>What a call of \<open>RB_Remove_push\<close> at \<open>q\<close>, with the child \<open>a\<close> next on the path, has to achieve.\<close>

definition push_ok ::
  "(addr \<Rightarrow> int) \<Rightarrow> 'v RB_node_t heap \<Rightarrow> (addr \<Rightarrow> 'v) \<Rightarrow> RB_t \<Rightarrow> addr list \<Rightarrow> bool \<Rightarrow> addr \<Rightarrow> tr \<Rightarrow> addr \<Rightarrow> ctx
    \<Rightarrow> bool \<Rightarrow> tr \<Rightarrow> ('v RB_node_t heap \<times> addr \<times> addr) option \<Rightarrow> bool" where
  "push_ok sg h0 D tree xs d q a f C' c' b' r \<longleftrightarrow>
     (\<exists>h' p' fp'. r = Some (h', p', fp') \<and> C' \<noteq> [] \<and> p' = elt_adr (hd C') \<and>
        rem_st sg h0 D tree xs h' ((d, q, c', b') # C') a (if sg q = 0 then q else f) (if sg q = 0 then p' else fp'))"

lemma push_okI:
  assumes "linv h0 D h' tree xs ((d, q, c', b') # C') a" "rb (N d a q c' b') n" "cinv C' c' n"
    "c' \<or> col a \<or> (length C' = 1 \<and> \<not> col b')" "dirs_ok sg C'" "d = (sg q < 0)" "fpos sg C' f fp'"
    and "r = Some (h', elt_adr (hd C'), fp')"
  shows "push_ok sg h0 D tree xs d q a f C' c' b' r"
proof -
  have ne: "C' \<noteq> []" using assms(3) by auto
  then obtain e C where C': "C' = e # C" by (cases C') auto
  from cinv_move[OF assms(2,3)] obtain m where "rb a m" "cinv ((d, q, c', b') # C') (col a) m" .
  moreover have "pushed ((d, q, c', b') # C') a" using assms(4) C' by (cases C) auto
  moreover have "fpos sg ((d, q, c', b') # C') (if sg q = 0 then q else f) (if sg q = 0 then elt_adr (hd C') else fp')"
    using assms(7) C' by auto
  ultimately show ?thesis
    using assms ne unfolding push_ok_def rem_st_def by (auto simp: dirs_ok_Cons simp del: cinv.simps fpos.simps)
qed

lemma cinv_black: "cinv C True n \<Longrightarrow> cinv C False n"
  by (cases "(C, True, n)" rule: cinv.cases) auto

text \<open>No rotation or recolouring is needed.\<close>

lemma push_none:
  assumes l: "linv h0 D h tree xs ((lst, p, cp, sp) # C) (N d a q c b)" and n: "rb (N d a q c b) n"
    "cinv ((lst, p, cp, sp) # C) c n" and ca: "c \<or> col a"
    and "dirs_ok sg ((lst, p, cp, sp) # C)" "fpos sg ((lst, p, cp, sp) # C) f fp" "d = (sg q < 0)"
  shows "push_ok sg h0 D tree xs d q a f ((lst, p, cp, sp) # C) c b (RB_Remove_push h g p q d lst F fp)"
proof -
  from linvD(4)[OF l] obtain m where m: "h q = Some m" "link m d = adr a" "rep h a" by auto
  have "RB_IsRed h q = Some c" using RB_IsRed_adr[OF linvD(4)[OF l] apartD(2)[OF linvD(2)[OF l]]] by simp
  moreover have "RB_IsRed h (adr a) = Some (col a)"
    by (rule RB_IsRed_adr[OF m(3)]) (use apartD(2)[OF linvD(2)[OF l]] in auto)
  ultimately have "RB_Remove_push h g p q d lst F fp = Some (h, p, fp)"
    using m ca by (auto simp: RB_Remove_push_def)
  then show ?thesis
    using assms by (intro push_okI[where n = n]) (auto simp: linv_move simp del: cinv.simps fpos.simps rb_N)
qed

lemma srt_zero_unique:
  "srt sg xs \<Longrightarrow> x \<in> set xs \<Longrightarrow> y \<in> set xs \<Longrightarrow> sg x = 0 \<Longrightarrow> sg y = 0 \<Longrightarrow> x = y"
  by (induction xs) auto

lemma fpos_zero: "fpos sg C f fp \<Longrightarrow> f = 0 \<and> fp = 0 \<or> f \<in> elt_adr ` set (butlast C) \<and> sg f = 0"
proof (induction sg C f fp rule: fpos.induct)
  case (3 sg d x c s e C f fp)
  have "set (butlast (e # C)) \<subseteq> set (butlast ((d, x, c, s) # e # C))" by auto
  with 3 show ?case by (cases "sg x = 0") (force, simp only: fpos.simps if_False, blast)
qed auto

lemma cinv_last: "cinv C k n \<Longrightarrow> \<exists>B. C = B @ [FALSE_ROOT]"
  by (induction C k n rule: cinv.induct) auto

lemma distinct_elts: "distinct (cl C @ cr C) \<Longrightarrow> distinct (map elt_adr C)"
proof (induction C)
  case (Cons e C)
  obtain d x c s where e: "e = (d, x, c, s)" by (cases e)
  with Cons.prems have "distinct (cl C @ cr C)" "x \<notin> cset C" by (cases d; auto simp: cset_def)+
  with Cons.IH elt_adr_cset[of C] e show ?case by auto
qed simp

lemma linv_path:
  assumes l: "linv h0 D h tree xs C T" and ci: "cinv C k n"
  shows "elt_adr ` set (butlast C) \<subseteq> set xs"
proof -
  from cinv_last[OF ci] obtain B where C: "C = B @ [FALSE_ROOT]" by blast
  have "HEAD \<notin> elt_adr ` set B"
    using distinct_elts[OF apartD(5)[OF linvD(2)[OF l]]] unfolding C by (auto simp: FALSE_ROOT_def)
  moreover have "elt_adr ` set C \<subseteq> set (ins (plug C T))"
    using elt_adr_cset[of C] by (auto simp: ins_plug cset_def)
  then have "elt_adr ` set B \<subseteq> insert HEAD (set xs)"
    unfolding linvD(1)[OF l] unfolding C by auto
  ultimately show ?thesis unfolding C butlast_snoc using subset_insert by metis
qed

lemma fpos_fresh:
  assumes "linv h0 D h tree xs C T" "cinv C k n" "srt sg xs" "fpos sg C f fp" "q \<in> set (ins T)" "sg q = 0"
  shows "f = 0" "fp = 0"
proof -
  have q: "q \<in> set xs" using linv_subset[OF assms(1,2)] assms(5) by blast
  have "q \<notin> cset C" using apartD(3)[OF linvD(2)[OF assms(1)]] assms(5) by blast
  then have "q \<notin> elt_adr ` set (butlast C)" using elt_adr_cset[of C] by (auto dest: in_set_butlastD)
  moreover have "q = f" if "f \<in> elt_adr ` set (butlast C)" "sg f = 0"
    using srt_zero_unique[OF assms(3) q _ assms(6)] linv_path[OF assms(1,2)] that by blast
  ultimately show "f = 0" "fp = 0" using fpos_zero[OF assms(4)] by blast+
qed

lemma push_check:
  assumes "crep h C x" "fpos sg C f fp" "sg q = 0 \<Longrightarrow> fp = 0"
  shows "CHECK_FPARENT h (if sg q = 0 then q else f) fp = Some ()"
  using CHECK_FPARENT_ok[OF assms(1,2)] assms(3) by (auto simp: CHECK_FPARENT_def)

text \<open>The other child of the black node is red: rotate it up.\<close>

lemma push_single:
  assumes l: "linv h0 D h tree xs ((lst, p, cp, sp) # C) (N d a q False b)" and n: "rb (N d a q False b) n"
    "cinv ((lst, p, cp, sp) # C) False n" and ca: "\<not> col a" "col b"
    and di: "dirs_ok sg ((lst, p, cp, sp) # C)" and fp: "fpos sg ((lst, p, cp, sp) # C) f fp"
    and d: "d = (sg q < 0)" and srt: "srt sg xs"
  shows "\<exists>C' b'. push_ok sg h0 D tree xs d q a f C' True b'
    (RB_Remove_push h g p q d lst (if sg q = 0 then q else f) fp)"
proof -
  let ?C = "(lst, p, cp, sp) # C" and ?F = "if sg q = 0 then q else f"
  from ca(2) obtain b1 s b2 where b: "b = N d b1 s True b2"
    by (cases rule: tr_dir_cases[where t = b and d = d]) auto
  have T: "N d a q False b = N (\<not> d) (N d b1 s True b2) q False a" by (simp add: b N_flip)
  from linvD(3,4)[OF l] have "rep h (plug ?C (N (\<not> d) (N d b1 s True b2) q False a))"
    unfolding T rep_plug by simp
  from single_at[OF this linvD(2)[OF l, unfolded T]] obtain h1 h2 where
    h: "RB_Single h q d = Some (h1, s)" "upd h1 p (set_link lst s) = Some h2"
    "rep h2 (plug ?C (N d (N (\<not> d) b1 q True a) s False b2))" "skel {p, q, s} h h2" .
  have e: "N d (N (\<not> d) b1 q True a) s False b2 = N d (N d a q True b1) s False b2" by (simp add: N_flip)
  let ?C' = "(d, s, False, b2) # ?C"
  have l2: "linv h0 D h2 tree xs ((d, q, True, b1) # ?C') a"
    by (rule linv_skel[OF l h(4)]) (use h(3) in \<open>simp_all add: e b ins_plug ins_N del: rep_N\<close>)
  from n b ca obtain m where m: "n = Suc m" "rb a m" "rb b1 m" "\<not> col b1" "rb b2 m" by auto
  have sg: "sg s \<noteq> 0" "d = (sg s < 0)"
    using sib_sign[OF linv_srt[OF l n(2) srt] d, of s] b by auto
  from fpos_fresh[OF l n(2) srt fp, of q] have "sg q = 0 \<Longrightarrow> fp = 0" by auto
  moreover from h(3) have "crep h2 ?C s" unfolding rep_plug by simp
  ultimately have ck: "CHECK_FPARENT h2 ?F fp = Some ()" by (intro push_check[OF _ fp])
  from linvD(4)[OF l] obtain k where k: "h q = Some k" "link k d = adr a" "link k (\<not> d) = adr b" "rep h a" "rep h b" by auto
  note z = apartD(2)[OF linvD(2)[OF l]]
  have "RB_Remove_push h g p q d lst ?F fp = Some (h2, s, fp)"
    using k h(1,2) ck ca z RB_IsRed_adr[OF linvD(4)[OF l] z] RB_IsRed_adr[OF k(4)] RB_IsRed_adr[OF k(5)]
    by (simp add: RB_Remove_push_def)
  moreover have "push_ok sg h0 D tree xs d q a f ?C' True b1 (Some (h2, s, fp))"
  proof (rule push_okI[OF l2])
    show "d = (sg q < 0)" by (rule d)
    show "rb (N d a q True b1) m" using m ca by simp
    show "cinv ?C' True m" using m n(2) by (cases C) auto
    show "dirs_ok sg ?C'" using di sg by (simp add: dirs_ok_Cons)
    show "fpos sg ?C' f fp" using fp sg by simp
  qed simp_all
  ultimately show ?thesis by metis
qed

text \<open>The node and its children are black: the sibling \<open>sp\<close> decides.\<close>

lemma push_lone:
  assumes l: "linv h0 D h tree xs [(lst, p, cp, Lf)] (N d a q False b)" and n: "rb (N d a q False b) n"
    "cinv [(lst, p, cp, Lf)] False n" and ca: "\<not> col a" "\<not> col b"
    and di: "dirs_ok sg [(lst, p, cp, Lf)]" and fp: "fpos sg [(lst, p, cp, Lf)] f fp"
    and d: "d = (sg q < 0)"
  shows "push_ok sg h0 D tree xs d q a f [(lst, p, cp, Lf)] False b
    (RB_Remove_push h g p q d lst F fp)"
proof -
  from linvD(4)[OF l] obtain k where k: "h q = Some k" "link k d = adr a" "link k (\<not> d) = adr b" "rep h a" "rep h b"
    by auto
  from linvD(3)[OF l] obtain pn where p: "h p = Some pn" "link pn (\<not> lst) = 0" by auto
  note z = apartD(2)[OF linvD(2)[OF l]]
  have "RB_Remove_push h g p q d lst F fp = Some (h, p, fp)"
    using k p ca z RB_IsRed_adr[OF linvD(4)[OF l] z] RB_IsRed_adr[OF k(4)] RB_IsRed_adr[OF k(5)]
    by (simp add: RB_Remove_push_def)
  then show ?thesis
    by (intro push_okI[OF l[unfolded linv_move] n, where fp' = fp]) (use ca di fp d in simp_all)
qed

lemma push_flip:
  assumes l: "linv h0 D h tree xs ((lst, p, cp, N lst i s False x) # C) (N d a q False b)"
    and n: "rb (N d a q False b) n" "cinv ((lst, p, cp, N lst i s False x) # C) False n" "cinv C True n"
    and ca: "\<not> col a" "\<not> col b" "\<not> col i" "\<not> col x"
    and di: "dirs_ok sg ((lst, p, cp, N lst i s False x) # C)"
    and fp: "fpos sg ((lst, p, cp, N lst i s False x) # C) f fp"
    and d: "d = (sg q < 0)" and srt: "srt sg xs"
  shows "push_ok sg h0 D tree xs d q a f ((lst, p, False, N lst i s True x) # C) True b
    (RB_Remove_push h g p q d lst (if sg q = 0 then q else f) fp)"
proof -
  let ?F = "if sg q = 0 then q else f" and ?S = "N lst i s False x" and ?T = "N d a q False b"
  note ap = linvD(2)[OF l] and z = apartD(2)[OF linvD(2)[OF l]]
  from n(3) obtain e C0 where C: "C = e # C0" by (cases C) auto
  have p0: "rep h (plug C (N lst ?T p cp ?S))" using linv_rep[OF l] by (simp only: plug.simps)
  from paint_N_at[OF p0 ap[unfolded apart_Cons], of False] obtain h1 where
    h1: "upd h p (set_red False) = Some h1" "rep h1 (plug C (N lst ?T p False ?S))" "skel {p} h h1" by blast
  have r1: "rep h1 (plug ((\<not> lst, p, False, ?T) # C) ?S)"
    using h1(2) unfolding plug.simps N_flip .
  have ap1: "apart ((\<not> lst, p, False, ?T) # C) ?S"
    unfolding apart_Cons N_flip
    by (subst apart_ins_cong[of _ "N lst ?T p cp ?S"]) (use ap in \<open>simp_all add: ins_N\<close>)
  from paint_N_at[OF r1 ap1, of True] obtain h2 where
    h2: "upd h1 s (set_red True) = Some h2" "rep h2 (plug ((\<not> lst, p, False, ?T) # C) (N lst i s True x))" "skel {s} h1 h2"
    by blast
  let ?C' = "(lst, p, False, N lst i s True x) # C"
  have r2: "rep h2 (plug ?C' ?T)" using h2(2) unfolding plug.simps N_flip .
  have ap2: "apart ?C' ?T" unfolding apart_Cons
    by (subst apart_ins_cong[of _ "N lst ?T p cp ?S"]) (use ap in \<open>simp_all add: ins_N\<close>)
  from paint_N_at[OF r2 ap2, of True] obtain h3 where
    h3: "upd h2 q (set_red True) = Some h3" "rep h3 (plug ?C' (N d a q True b))" "skel {q} h2 h3" by blast
  have "skel (set (ins (plug ((lst, p, cp, ?S) # C) ?T))) h h3"
    using skel_trans[OF skel_trans[OF h1(3) h2(3)] h3(3)] by (rule skel_mono) (simp add: ins_plug)
  from linv_skel[OF l this subset_refl h3(2)] have l3: "linv h0 D h3 tree xs ?C' (N d a q True b)"
    by (simp add: ins_plug ins_N)
  from linvD(4)[OF l] obtain k where k: "h q = Some k" "link k d = adr a" "link k (\<not> d) = adr b" "rep h a" "rep h b"
    by auto
  from linvD(3)[OF l] obtain pn sn where p: "h p = Some pn" "link pn (\<not> lst) = s"
    and sn: "h s = Some sn" "link sn lst = adr i" "link sn (\<not> lst) = adr x" "rep h i" "rep h x" by auto
  have nz: "s \<noteq> 0" "0 \<notin> set (ins i)" "0 \<notin> set (ins x)" using apartD(4)[OF ap] by auto
  from fpos_fresh[OF l n(2) srt fp, of q] have "sg q = 0 \<Longrightarrow> fp = 0" by auto
  moreover have "crep h3 ?C' q" using h3(2) unfolding rep_plug by simp
  moreover have fp': "fpos sg ?C' f fp" using fp unfolding C by simp
  ultimately have ck: "CHECK_FPARENT h3 ?F fp = Some ()" by (intro push_check)
  have "RB_Remove_push h g p q d lst ?F fp = Some (h3, p, fp)"
    using k p sn h1(1) h2(1) h3(1) ck ca z nz RB_IsRed_adr[OF linvD(4)[OF l] z] RB_IsRed_adr[OF k(4)]
      RB_IsRed_adr[OF k(5)] RB_IsRed_adr[OF sn(4)] RB_IsRed_adr[OF sn(5)]
    by (simp add: RB_Remove_push_def Let_def)
  from n C obtain m where m: "n = Suc m" "rb a m" "rb b m" "rb i m" "rb x m" by auto
  have "push_ok sg h0 D tree xs d q a f ?C' True b (Some (h3, p, fp))"
  proof (rule push_okI[OF l3[unfolded linv_move]])
    show "rb (N d a q True b) m" using m ca by simp
    show "cinv ?C' True m" using m ca cinv_black[OF n(3)] unfolding C by simp
    show "dirs_ok sg ?C'" using di unfolding C by (simp add: dirs_ok_Cons)
  qed (use fp' d in simp_all)
  with \<open>RB_Remove_push h g p q d lst ?F fp = Some (h3, p, fp)\<close> show ?thesis by simp
qed

text \<open>The recolouring after a rotation at \<open>p\<close> that brought \<open>z\<close> up.\<close>

lemma push_recolor:
  assumes r: "rep h (plug C (N lst (N lst (N d a q c b) p cp E) z cz S))" and S: "S \<noteq> Lf"
    and ap: "apart C (N lst (N lst (N d a q c b) p cp E) z cz S)"
  obtains h1 h2 zn h3 h4 where "upd h z (set_red True) = Some h1" "upd h1 q (set_red True) = Some h2"
    "h2 z = Some zn" "upd h2 (link zn False) (set_red False) = Some h3" "upd h3 (link zn True) (set_red False) = Some h4"
    "rep h4 (plug C (N lst (N lst (N d a q True b) p False E) z True (paint False S)))" "skel {z, q, p, adr S} h h4"
proof -
  let ?T = "N d a q c b" and ?P = "\<lambda>c'. N lst (N d a q c' b) p cp E"
  from paint_N_at[OF r ap, of True] obtain h1 where h1: "upd h z (set_red True) = Some h1"
    "rep h1 (plug C (N lst (?P c) z True S))" "skel {z} h h1" .
  let ?C1 = "(lst, p, cp, E) # (lst, z, True, S) # C"
  have r1: "rep h1 (plug ?C1 ?T)" using h1(2) by (simp only: plug.simps)
  have ap1: "apart ?C1 ?T" unfolding apart_Cons
    by (subst apart_ins_cong[of _ "N lst (?P c) z cz S"]) (use ap in \<open>simp_all add: ins_N\<close>)
  from paint_N_at[OF r1 ap1, of True] obtain h2 where h2: "upd h1 q (set_red True) = Some h2"
    "rep h2 (plug ?C1 (N d a q True b))" "skel {q} h1 h2" .
  have r2: "rep h2 (plug C (N lst (?P True) z True S))" using h2(2) by (simp only: plug.simps)
  have ap2: "apart C (N lst (?P True) z True S)"
    by (subst apart_ins_cong[of _ "N lst (?P c) z cz S"]) (use ap in \<open>simp_all add: ins_N\<close>)
  from r2 obtain zn where zn: "h2 z = Some zn" unfolding rep_plug rep_N by blast
  from paint_kids[OF r2 N_neq_Lf(1) S ap2 zn] obtain h3 h4 where
    h4: "upd h2 (link zn False) (set_red False) = Some h3" "upd h3 (link zn True) (set_red False) = Some h4"
    "rep h4 (plug C (N lst (paint False (?P True)) z True (paint False S)))" "skel {adr (?P True), adr S} h2 h4" .
  have "skel {z, q, p, adr S} h h4"
    using skel_trans[OF skel_trans[OF h1(3) h2(3)] h4(4)] by (rule skel_mono) auto
  with h1(1) h2(1) zn h4(1,2) h4(3)[unfolded paint_N] show thesis by (rule that)
qed

text \<open>A red nephew: rotate at the parent.\<close>

lemma rot_fpos:
  assumes ap: "apart ((lst, p, cp, sp) # (d3, g, c3, s3) # C) T"
    and fp: "fpos sg ((lst, p, cp, sp) # (d3, g, c3, s3) # C) f fp" and z: "sg z \<noteq> 0"
  shows "fpos sg ((lst, p, cp', E) # (lst, z, cz, S) # (d3, g, c3, s3) # C) f (if g = fp then z else fp)"
proof (cases "sg p = 0")
  case True
  with fp show ?thesis by simp
next
  case False
  have "g \<noteq> fp"
  proof -
    from fp False have "fpos sg ((d3, g, c3, s3) # C) f fp" by simp
    from fpos_mem[OF this] have "fp = 0 \<or> fp \<in> elt_adr ` set C" by auto
    moreover have "g \<noteq> 0" using apartD(4)[OF ap] by auto
    moreover have "g \<notin> elt_adr ` set C" using distinct_elts[OF apartD(5)[OF ap]] by auto
    ultimately show ?thesis by blast
  qed
  with False z fp show ?thesis by simp
qed

lemma rot_exec:
  assumes l: "linv h0 D h tree xs ((lst, p, cp, N lst i s False x) # (d3, g, c3, s3) # C) (N d a q False b)"
    and ca: "\<not> col a" "\<not> col b" "col i \<or> col x"
    and rot: "(if col i then RB_Double h p lst else RB_Single h p lst) = Some (h1, z)"
      "upd h1 g (set_link d3 z) = Some h2" "CHECK_FPARENT h2 F (if g = fp then z else fp) = Some ()"
      "upd h2 z (set_red True) = Some h3" "upd h3 q (set_red True) = Some h4"
      "h4 z = Some zn" "upd h4 (link zn False) (set_red False) = Some h5" "upd h5 (link zn True) (set_red False) = Some h6"
  shows "RB_Remove_push h g p q d lst F fp = Some (h6, p, if g = fp then z else fp)"
proof -
  note ap = linvD(2)[OF l] and zz = apartD(2)[OF linvD(2)[OF l]]
  from linvD(4)[OF l] obtain k where k: "h q = Some k" "link k d = adr a" "link k (\<not> d) = adr b" "rep h a" "rep h b"
    by auto
  from linvD(3)[OF l] obtain pn sn gn where p: "h p = Some pn" "link pn (\<not> lst) = s"
    and sn: "h s = Some sn" "link sn lst = adr i" "link sn (\<not> lst) = adr x" "rep h i" "rep h x"
    and g: "h g = Some gn" "crep h ((d3, g, c3, s3) # C) p" by auto
  have nz: "s \<noteq> 0" "0 \<notin> set (ins i)" "0 \<notin> set (ins x)" "p \<noteq> 0" using apartD(4)[OF ap] by auto
  have "p \<notin> set (ins s3)" using apartD(5)[OF ap] by (cases lst; cases d3) auto
  from dir2_eq[OF g(2,1) nz(4) this] have d3: "(link gn True = p) = d3" .
  have "(\<not> col x \<and> \<not> col i) = False" using ca(3) by blast
  then show ?thesis
    using k p sn g(1) rot ca(1,2) zz nz d3 RB_IsRed_adr[OF linvD(4)[OF l] zz] RB_IsRed_adr[OF k(4)]
      RB_IsRed_adr[OF k(5)] RB_IsRed_adr[OF sn(4)] RB_IsRed_adr[OF sn(5)]
    by (cases "col i"; cases "col x") (simp_all add: RB_Remove_push_def Let_def)
qed

lemma push_rotated:
  assumes l: "linv h0 D h tree xs ((lst, p, cp, N lst i s False x) # (d3, g, c3, s3) # C) (N d a q False b)"
    and n: "rb (N d a q False b) n" "cinv ((lst, p, cp, N lst i s False x) # (d3, g, c3, s3) # C) False n"
      "cinv ((d3, g, c3, s3) # C) True n"
    and ca: "\<not> col a" "\<not> col b" "col i \<or> col x"
    and rot: "(if col i then RB_Double h p lst else RB_Single h p lst) = Some (h1, z)"
      "upd h1 g (set_link d3 z) = Some h2"
      "rep h2 (plug ((d3, g, c3, s3) # C) (N lst (N lst (N d a q False b) p True E) z False S))"
      "skel {g, p, s, z} h h2"
    and ins: "ins (N lst (N lst (N d a q False b) p True E) z False S)
        = ins (N lst (N d a q False b) p cp (N lst i s False x))"
    and S: "S \<noteq> Lf" "n = Suc m" "rb E m" "rb (paint False S) n"
    and zs: "z \<in> set (ins (N lst i s False x))"
    and di: "dirs_ok sg ((lst, p, cp, N lst i s False x) # (d3, g, c3, s3) # C)"
    and fp: "fpos sg ((lst, p, cp, N lst i s False x) # (d3, g, c3, s3) # C) f fp"
    and d: "d = (sg q < 0)" and srt: "srt sg xs"
  shows "push_ok sg h0 D tree xs d q a f ((lst, p, False, E) # (lst, z, True, paint False S) # (d3, g, c3, s3) # C) True b
    (RB_Remove_push h g p q d lst (if sg q = 0 then q else f) fp)"
proof -
  let ?F = "if sg q = 0 then q else f" and ?S = "N lst i s False x" and ?T = "N d a q False b"
  let ?C = "(d3, g, c3, s3) # C" and ?f = "if g = fp then z else fp"
  let ?C' = "(lst, p, False, E) # (lst, z, True, paint False S) # ?C"
  note ap = linvD(2)[OF l]
  have ap2: "apart ?C (N lst (N lst ?T p True E) z False S)"
    using ap unfolding apart_Cons apart_ins_cong[OF ins] .
  from push_recolor[OF rot(3) S(1) ap2] obtain h3 h4 zn h5 h6 where
    h: "upd h2 z (set_red True) = Some h3" "upd h3 q (set_red True) = Some h4"
    "h4 z = Some zn" "upd h4 (link zn False) (set_red False) = Some h5" "upd h5 (link zn True) (set_red False) = Some h6"
    "rep h6 (plug ?C (N lst (N lst (N d a q True b) p False E) z True (paint False S)))" "skel {z, q, p, adr S} h2 h6" .
  have lp: "linv h0 D h tree xs ?C (N lst ?T p cp ?S)" using l by (simp only: linv_move)
  have zz: "sg z \<noteq> 0" "lst = (sg z < 0)"
    using sib_sign[OF linv_srt[OF lp cinv_black[OF n(3)] srt] _ zs] di by (simp_all add: dirs_ok_Cons)
  have fq: "sg q = 0 \<Longrightarrow> ?f = 0" 
    using fpos_fresh[OF l n(2) srt fp, of q] apartD(4)[OF ap] by auto
  have "crep h2 ((lst, p, True, E) # (lst, z, False, S) # ?C) q" using rot(3) unfolding rep_plug by simp
  from push_check[OF this rot_fpos[OF ap fp zz(1)] fq] have ck: "CHECK_FPARENT h2 ?F ?f = Some ()" .
  note e = rot_exec[OF l ca rot(1,2) ck h(1-5)]
  have ii: "ins (plug ?C' (N d a q True b)) = ins (plug ((lst, p, cp, ?S) # ?C) ?T)"
    using ins by (cases lst) (simp_all add: ins_plug ins_N)
  have "adr S \<in> set (ins (paint False S))" using S(1) by (cases S) simp_all
  then have "adr S \<in> set (ins (plug ((lst, p, cp, ?S) # ?C) ?T))" unfolding ii[symmetric] by (simp add: ins_plug)
  then have sk: "skel (set (ins (plug ((lst, p, cp, ?S) # ?C) ?T))) h h6"
    using skel_trans[OF rot(4) h(7)] zs by (elim skel_mono) (auto simp: ins_plug)
  have "rep h6 (plug ?C' (N d a q True b))" using h(6) by (simp only: plug.simps)
  from linv_skel[OF l sk subset_refl this ii] have l6: "linv h0 D h6 tree xs ((d, q, True, b) # ?C') a"
    by (simp only: linv_move)
  from n S have m: "rb a m" "rb b m" by auto
  have "push_ok sg h0 D tree xs d q a f ?C' True b (Some (h6, p, ?f))"
  proof (rule push_okI[OF l6])
    show "rb (N d a q True b) m" using m ca by simp
    show "cinv ?C' True m" using S n(3) by (cases S) simp_all
    show "dirs_ok sg ?C'" using di zz by (simp add: dirs_ok_Cons)
    show "fpos sg ?C' f ?f" by (rule rot_fpos[OF ap fp zz(1)])
  qed (use d in simp_all)
  with e show ?thesis by simp
qed

lemma push_rot:
  assumes l: "linv h0 D h tree xs ((lst, p, cp, N lst i s False x) # C) (N d a q False b)"
    and n: "rb (N d a q False b) n" "cinv ((lst, p, cp, N lst i s False x) # C) False n" "cinv C True n"
    and ca: "\<not> col a" "\<not> col b" "col i \<or> col x"
    and di: "dirs_ok sg ((lst, p, cp, N lst i s False x) # C)"
    and fp: "fpos sg ((lst, p, cp, N lst i s False x) # C) f fp"
    and d: "d = (sg q < 0)" and srt: "srt sg xs" and g: "g = elt_adr (hd C)"
  shows "\<exists>C' b'. push_ok sg h0 D tree xs d q a f C' True b'
    (RB_Remove_push h g p q d lst (if sg q = 0 then q else f) fp)"
proof -
  let ?T = "N d a q False b"
  from n(3) g obtain d3 c3 s3 C3 where C: "C = (d3, g, c3, s3) # C3" by (cases C) auto
  from n C obtain m where m: "n = Suc m" "rb i m" "rb x m" by auto
  note l' = l[unfolded C] and n' = n[unfolded C] and di' = di[unfolded C] and fp' = fp[unfolded C]
  have r: "rep h (plug C (N (\<not> lst) (N lst i s False x) p cp ?T))"
    using linv_rep[OF l] unfolding plug.simps N_flip .
  have ap: "apart C (N (\<not> lst) (N lst i s False x) p cp ?T)"
    using linvD(2)[OF l] unfolding apart_Cons N_flip .
  show ?thesis
  proof (cases "col i")
    case True
    then obtain B z E where i: "i = N (\<not> lst) B z True E"
      by (cases rule: tr_dir_cases[where t = i and d = "\<not> lst"]) auto
    from double_at[OF r[unfolded C i] ap[unfolded C i]] obtain h1 h2 where
      h: "RB_Double h p lst = Some (h1, z)" "upd h1 g (set_link d3 z) = Some h2"
      "rep h2 (plug ((d3, g, c3, s3) # C3) (N lst (N (\<not> lst) E p True ?T) z False (N lst B s True x)))"
      "skel {g, p, s, z} h h2" .
    have "push_ok sg h0 D tree xs d q a f
        ((lst, p, False, E) # (lst, z, True, paint False (N lst B s True x)) # (d3, g, c3, s3) # C3) True b
        (RB_Remove_push h g p q d lst (if sg q = 0 then q else f) fp)"
      using l' n' ca(1,2) disjI1[OF True] _ h(2) _ h(4)
    proof (rule push_rotated)
      show "(if col i then RB_Double h p lst else RB_Single h p lst) = Some (h1, z)" using True h(1) by simp
      show "rep h2 (plug ((d3, g, c3, s3) # C3) (N lst (N lst ?T p True E) z False (N lst B s True x)))"
        using h(3) unfolding N_flip .
      show "n = Suc m" by (rule m(1))
      show "rb E m" using m(2) unfolding i by auto
    qed (use m i di' fp' d srt in \<open>simp_all add: ins_N\<close>)
    then show ?thesis by blast
  next
    case False
    with ca have x: "x \<noteq> Lf" by (cases x) auto
    from single_at[OF r[unfolded C] ap[unfolded C]] obtain h1 h2 where
      h: "RB_Single h p lst = Some (h1, s)" "upd h1 g (set_link d3 s) = Some h2"
      "rep h2 (plug ((d3, g, c3, s3) # C3) (N lst (N (\<not> lst) i p True ?T) s False x))"
      "skel {g, p, s} h h2" .
    have "push_ok sg h0 D tree xs d q a f
        ((lst, p, False, i) # (lst, s, True, paint False x) # (d3, g, c3, s3) # C3) True b
        (RB_Remove_push h g p q d lst (if sg q = 0 then q else f) fp)"
      using l' n' ca _ h(2)
    proof (rule push_rotated)
      show "(if col i then RB_Double h p lst else RB_Single h p lst) = Some (h1, s)" using False h(1) by simp
      show "rep h2 (plug ((d3, g, c3, s3) # C3) (N lst (N lst ?T p True i) s False x))"
        using h(3) unfolding N_flip .
      show "skel {g, p, s, s} h h2" using h(4) by simp
      show "rb (paint False x) n" using m ca(3) False by (cases x) auto
    qed (use m x di' fp' d srt in \<open>simp_all add: ins_N\<close>)
    then show ?thesis by blast
  qed
qed

lemma remove_push:
  assumes st: "rem_st sg h0 D tree xs h ((lst, p, cp, sp) # C) (N d a q c b) f fp"
    and d: "d = (sg q < 0)" and srt: "srt sg xs" and g: "C \<noteq> [] \<Longrightarrow> g = elt_adr (hd C)"
  shows "\<exists>C' c' b'. push_ok sg h0 D tree xs d q a f C' c' b'
    (RB_Remove_push h g p q d lst (if sg q = 0 then q else f) fp)"
proof -
  let ?C = "(lst, p, cp, sp) # C"
  from st obtain n where l: "linv h0 D h tree xs ?C (N d a q c b)" and n: "rb (N d a q c b) n" "cinv ?C c n"
    and pu: "pushed ?C (N d a q c b)" and di: "dirs_ok sg ?C" and fp: "fpos sg ?C f fp"
    by (auto simp: rem_st_def simp del: rb_N cinv.simps fpos.simps)
  consider "c \<or> col a" | "\<not> c" "\<not> col a" "col b" | "\<not> c" "\<not> col a" "\<not> col b" "C = []" 
    | e C' where "\<not> c" "\<not> col a" "\<not> col b" "C = e # C'" by (cases C) auto
  then show ?thesis
  proof cases
    case 1
    with push_none[OF l n _ di fp d] show ?thesis by blast
  next
    case 2
    then have c: "c = False" by simp
    from push_single[OF l[unfolded c] n[unfolded c] 2(2,3) di fp d srt, of g] show ?thesis by blast
  next
    case 3
    with n have "sp = Lf" by (auto simp: FALSE_ROOT_def)
    then have e: "?C = [(lst, p, cp, Lf)]" "c = False" using 3 by auto
    from push_lone[OF l[unfolded e] n[unfolded e] 3(2,3) di[unfolded e] fp[unfolded e] d] show ?thesis by blast
  next
    case (4 e C')
    have cn: "cinv C True n" "\<not> col sp"
      using pu n 4 by (cases C'; auto)+
    from n 4 obtain i s x where sp: "sp = N lst i s False x"
      using cn by (cases rule: tr_dir_cases[where t = sp and d = lst]) auto
    have c: "c = False" using 4 by simp
    have g': "g = elt_adr (hd C)" using g 4 by simp
    show ?thesis
    proof (cases "col i \<or> col x")
      case True
      from push_rot[OF l[unfolded c sp] n[unfolded c sp] cn(1) 4(2,3) True di[unfolded sp] fp[unfolded sp] d srt g']
      show ?thesis by blast
    next
      case False
      then have "\<not> col i" "\<not> col x" by blast+
      from push_flip[OF l[unfolded c sp] n[unfolded c sp] cn(1) 4(2,3) this di[unfolded sp] fp[unfolded sp] d srt]
      show ?thesis by blast
    qed
  qed
qed

section \<open>The loop\<close>

lemma remove_loop:
  assumes "rem_st sg h0 D tree xs h ((d, q, c, b) # C) A f fp" "p = (if C = [] then 0 else elt_adr (hd C))"
    and sg: "sg = (\<lambda>x. COMPARE_VALUE_func I (D x) key)" and srt: "srt sg xs"
  shows "\<exists>h' d' q' c' b' C' f' fp'.
    RB_Remove_loop I key h p q d f fp = Some (h', if C' = [] then 0 else elt_adr (hd C'), q', f', fp') \<and>
    rem_st sg h0 D tree xs h' ((d', q', c', b') # C') Lf f' fp'"
  using assms(1,2)
proof (induction A arbitrary: h d q c b C f fp p)
  case Lf
  then have "crep h ((d, q, c, b) # C) 0" by (auto simp: rem_st_def dest!: linvD(3))
  then obtain n where "h q = Some n" "link n d = 0" by auto
  then have "RB_Remove_loop I key h p q d f fp = Some (h, p, q, f, fp)"
    by (simp add: RB_Remove_loop.simps)
  with Lf show ?case by (simp del: fpos.simps) blast
next
  case (Nd l y k r)
  let ?d = "sg y < 0" and ?F = "if sg y = 0 then y else f" and ?C = "(d, q, c, b) # C"
  obtain a s where as: "Nd l y k r = N ?d a y k s" "a = l \<or> a = r" by (cases ?d) (auto simp: N_def)
  from Nd.prems(1) obtain m where l: "linv h0 D h tree xs ?C (Nd l y k r)" and n: "cinv ?C k m"
    and fp: "fpos sg ?C f fp" by (auto simp: rem_st_def simp del: cinv.simps fpos.simps)
  from linvD(3)[OF l] obtain qn where qn: "h q = Some qn" "link qn d = y" by auto
  have "y \<in> set xs" using linv_subset[OF l n] by auto
  with linvD(4,6)[OF l] obtain yn where yn: "h y = Some yn" "rdata yn = D y" by auto
  have "f \<noteq> y" "y \<noteq> 0" using fpos_mem[OF fp] apartD[OF linvD(2)[OF l]] elt_adr_cset[of ?C] by auto
  from remove_push[OF Nd.prems(1)[unfolded as(1)] refl srt, of p] Nd.prems(2) obtain C' c' b' where
    "push_ok sg h0 D tree xs ?d y a f C' c' b' (RB_Remove_push h p q y ?d d ?F fp)" by auto
  then obtain h' p' fp' where r: "RB_Remove_push h p q y ?d d ?F fp = Some (h', p', fp')" "C' \<noteq> []" "p' = elt_adr (hd C')"
    and st: "rem_st sg h0 D tree xs h' ((?d, y, c', b') # C') a ?F (if sg y = 0 then p' else fp')"
    by (auto simp: push_ok_def)
  let ?fp = "if sg y = 0 then p' else fp'"
  have "RB_Remove_loop I key h p q d f fp = RB_Remove_loop I key h' p' y ?d ?F ?fp"
    using qn yn \<open>y \<noteq> 0\<close> \<open>f \<noteq> y\<close> r(1) unfolding RB_Remove_loop.simps[of I key h p q d] sg
    by (simp add: Let_def)
  moreover have "p' = (if C' = [] then 0 else elt_adr (hd C'))" using r by simp
  note pp = this
  have "\<exists>h'' d' q' c' b' C' f' fp'.
    RB_Remove_loop I key h' p' y ?d ?F ?fp = Some (h'', if C' = [] then 0 else elt_adr (hd C'), q', f', fp') \<and>
    rem_st sg h0 D tree xs h'' ((d', q', c', b') # C') Lf f' fp'" (is ?G)
    using as(2)
  proof
    assume "a = l"
    from Nd.IH(1)[OF st[unfolded this] pp] show ?G .
  next
    assume "a = r"
    from Nd.IH(2)[OF st[unfolded this] pp] show ?G .
  qed
  ultimately show ?case by simp
qed

section \<open>Where the loop ends\<close>

lemma ctx_snoc [simp]: "cl (B @ [FALSE_ROOT]) = HEAD # cl B" "cr (B @ [FALSE_ROOT]) = cr B"
  by (induction B) (auto simp: FALSE_ROOT_def)

lemma srt_tl:
  "srt sg (cl ((d, x, c, s) # B) @ cr ((d, x, c, s) # B)) \<Longrightarrow> srt sg (cl B @ cr B)"
  by (cases d; simp add: sorted_wrt_append; blast)

lemma path_zero:
  assumes "list_all (\<lambda>(d, x, c, s). d = (sg x < 0)) B" "srt sg (cl B @ cr B)" "y \<in> cset B" "sg y = 0"
  shows "y \<in> elt_adr ` set B"
  using assms
proof (induction B)
  case (Cons e B)
  obtain d x c s where e: "e = (d, x, c, s)" by (cases e)
  have "y \<notin> set (ins s)"
  proof
    assume "y \<in> set (ins s)"
    with Cons.prems(1,2) e have "if d then sg y < 0 \<or> 0 < sg x else sg x < 0 \<or> 0 < sg y"
      by (cases d) (simp_all add: sorted_wrt_append)
    with Cons.prems(1,4) e show False by (simp split: if_splits)
  qed
  with Cons.prems(3) e consider "y = x" | "y \<in> cset B" by auto
  then show ?case
  proof cases
    case 2
    with Cons.IH Cons.prems(1,4) srt_tl[OF Cons.prems(2)[unfolded e]] show ?thesis by simp
  qed (simp add: e)
qed simp

lemma path_head:
  assumes "list_all (\<lambda>(d, x, c, s). d = (sg x < 0)) B" "srt sg (cl B @ cr B)" "f \<in> elt_adr ` set B" "sg f = 0"
  shows "\<exists>vs. cr B = f # vs"
  using assms
proof (induction B)
  case (Cons e B)
  obtain d x c s where e: "e = (d, x, c, s)" by (cases e)
  show ?case
  proof (cases "x = f")
    case True
    with e Cons.prems(1,4) show ?thesis by simp
  next
    case False
    with Cons.prems(3) e have "f \<in> elt_adr ` set B" by auto
    with Cons.IH Cons.prems(1,4) srt_tl[OF Cons.prems(2)[unfolded e]] obtain vs where vs: "cr B = f # vs" by auto
    have "d"
    proof (rule ccontr)
      assume "\<not> d"
      with Cons.prems(2) vs e have "sg x < 0 \<or> 0 < sg f" by (simp add: sorted_wrt_append) blast
      with \<open>\<not> d\<close> Cons.prems(1,4) e show False by simp
    qed
    with vs e show ?thesis by simp
  qed
qed simp

lemma fpos_none: "fpos sg C 0 fp \<Longrightarrow> 0 \<notin> cset C \<Longrightarrow> x \<in> elt_adr ` set (butlast C) \<Longrightarrow> sg x \<noteq> 0"
  by (induction sg C "0 :: addr" fp rule: fpos.induct) (auto split: if_splits)

lemma fpos_split:
  "fpos sg C f fp \<Longrightarrow> f \<noteq> 0 \<Longrightarrow> \<exists>A d c s d' c' s' B. C = A @ (d, f, c, s) # (d', fp, c', s') # B \<and> sg f = 0"
proof (induction sg C f fp rule: fpos.induct)
  case (3 sg d x c s e C f fp)
  show ?case
  proof (cases "sg x = 0")
    case True
    with 3 show ?thesis by (cases e) (auto intro!: exI[of _ "[]"])
  next
    case False
    with 3 obtain A d1 c1 s1 d' c' s' B where "e # C = A @ (d1, f, c1, s1) # (d', fp, c', s') # B" "sg f = 0" by auto
    then show ?thesis by (metis append_Cons)
  qed
qed auto

lemma rem_end:
  assumes st: "rem_st sg h0 D tree xs h C Lf f fp" and srt: "srt sg xs"
  obtains B where "C = B @ [FALSE_ROOT]" "xs = cl B @ cr B" "0 \<notin> cset C"
    "list_all (\<lambda>(d, x, c, s). d = (sg x < 0)) B" "srt sg (cl B @ cr B)"
proof -
  from st obtain n where l: "linv h0 D h tree xs C Lf" and n: "cinv C False n" and di: "dirs_ok sg C"
    by (auto simp: rem_st_def)
  from cinv_last[OF n] obtain B where B: "C = B @ [FALSE_ROOT]" by blast
  have xs: "xs = cl B @ cr B" using linvD(1)[OF l] by (simp add: ins_plug B)
  moreover have "list_all (\<lambda>(d, x, c, s). d = (sg x < 0)) B"
    using di by (simp add: dirs_ok_def B list_all_iff)
  ultimately show thesis using that[OF B] srt apartD(4)[OF linvD(2)[OF l]] by simp
qed

lemma end_absent:
  assumes st: "rem_st sg h0 D tree xs h C Lf 0 fp" and srt: "srt sg xs" and x: "x \<in> set xs"
  shows "sg x \<noteq> 0"
proof
  assume z: "sg x = 0"
  from rem_end[OF st srt] obtain B where B: "C = B @ [FALSE_ROOT]" "xs = cl B @ cr B" "0 \<notin> cset C"
    "list_all (\<lambda>(d, x, c, s). d = (sg x < 0)) B" "srt sg (cl B @ cr B)" .
  have "x \<in> elt_adr ` set B" using path_zero[OF B(4,5) _ z] x B(2) by (simp add: cset_def)
  moreover have "fpos sg C 0 fp" using st by (simp add: rem_st_def)
  ultimately show False using fpos_none[of sg C fp x] B(1,3) z by simp
qed

lemma end_found:
  assumes st: "rem_st sg h0 D tree xs h C Lf f fp" and srt: "srt sg xs" and f: "f \<noteq> 0"
  obtains vs where "cr C = f # vs" "sg f = 0"
proof -
  from rem_end[OF st srt] obtain B where B: "C = B @ [FALSE_ROOT]" "xs = cl B @ cr B" "0 \<notin> cset C"
    "list_all (\<lambda>(d, x, c, s). d = (sg x < 0)) B" "srt sg (cl B @ cr B)" .
  have "fpos sg C f fp" using st by (simp add: rem_st_def)
  from fpos_zero[OF this] f B(1) have "f \<in> elt_adr ` set B" "sg f = 0" by simp_all
  with path_head[OF B(4,5)] B(1) that show thesis by auto
qed

text \<open>At the end the current node is a red leaf, or the only node.\<close>

lemma end_leaf:
  assumes st: "rem_st sg h0 D tree xs h ((d, q, c, b) # C) Lf f fp" and xs: "xs \<noteq> []"
  shows "b = Lf" "cinv C False 0"
proof -
  from st have l: "linv h0 D h tree xs ((d, q, c, b) # C) Lf" and n: "cinv ((d, q, c, b) # C) False 0"
    and pu: "pushed ((d, q, c, b) # C) Lf" by (auto simp: rem_st_def)
  have "C \<noteq> []" using linvD(1)[OF l] n xs by (auto simp: FALSE_ROOT_def ins_N)
  then obtain e C' where C: "C = e # C'" by (cases C) auto
  have nb: "\<not> col b" "c \<or> C' = []" using n pu unfolding C by (cases C'; auto)+
  then show "b = Lf" using n unfolding C by (cases b) auto
  show "cinv C False 0" using n nb(2) cinv_black[of C 0] unfolding C by (cases c) auto
qed

section \<open>Taking the node out\<close>

lemma ctx_append [simp]:
  "cl (A @ B) = cl B @ cl A" "cr (A @ B) = cr A @ cr B" "cset (A @ B) = cset A \<union> cset B"
proof -
  show "cl (A @ B) = cl B @ cl A" "cr (A @ B) = cr A @ cr B" by (induction A) auto
  then show "cset (A @ B) = cset A \<union> cset B" by (auto simp: cset_def)
qed

lemma crep_append:
  "crep h (A @ B) a \<longleftrightarrow> crep h A a \<and> crep h B (if A = [] then a else elt_adr (last A))"
  by (induction A arbitrary: a) auto

text \<open>\<open>q\<close> takes the place of \<open>f\<close> below \<open>g\<close>.\<close>

lemma crep_replace:
  assumes cr: "crep h (A @ (d, f, c, s) # (d', g, c', s') # B) a" and q: "h q = Some qn" "h f = Some fn"
    and C: "C = A @ (d, f, c, s) # (d', g, c', s') # B" "q \<notin> cset C" "distinct (cl C @ cr C)"
    and g: "upd h g (set_link d' q) = Some h1" and n: "red n = red fn" "link n = link fn"
  shows "crep (h1(q \<mapsto> n)) (A @ (d, q, c, s) # (d', g, c', s') # B) a"
proof -
  from g obtain gn where gn: "h g = Some gn" "h1 = h(g \<mapsto> set_link d' q gn)" by (auto simp: upd_def split: option.splits)
  let ?h = "h1(q \<mapsto> n)"
  have g: "g \<notin> cset A" "g \<noteq> q" "g \<noteq> f" "g \<notin> set (ins s)" "g \<notin> set (ins s')" "g \<notin> cset B"
    using C by (cases d; cases d'; auto simp: cset_def)+
  have e: "?h x = h x" if "x \<noteq> g" "x \<noteq> q" for x using that gn by simp
  have "crep ?h A a = crep h A a" "crep ?h B g = crep h B g" "rep ?h s = rep h s" "rep ?h s' = rep h s'"
    by (intro crep_cong rep_cong e; use g C(1,2) in auto)+
  with cr gn g n q show ?thesis by (simp add: crep_append split: if_splits)
qed

lemma unlink_leaf:
  assumes l: "linv h0 D h tree xs ((d, q, c, Lf) # (d', p, c', s') # C) Lf"
  obtains pn qn h1 where "h p = Some pn" "h q = Some qn"
    "upd h p (set_link (link pn True = q) (link qn (link qn False = 0))) = Some h1"
    "crep h1 ((d', p, c', s') # C) 0" "skel {p} h h1"
proof -
  note ap = apartD[OF linvD(2)[OF l]]
  from linvD(3)[OF l] obtain pn qn where n: "h p = Some pn" "h q = Some qn" "link qn d = 0" "link qn (\<not> d) = 0"
    and cr: "crep h ((d', p, c', s') # C) q" by auto
  have q: "q \<noteq> 0" "q \<notin> set (ins s')" using ap(4,5) by (cases d; cases d'; auto)+
  have ps: "p \<notin> set (ins s')" "p \<notin> cset C" using ap(5) by (cases d; cases d'; auto simp: cset_def)+
  have qn: "link qn x = 0" for x using n(3,4) by (cases d; cases x) auto
  have "upd h p (set_link (link pn True = q) (link qn (link qn False = 0))) = Some (h(p \<mapsto> set_link d' 0 pn))"
    using n(1) qn dir2_eq[OF cr n(1) q] by simp
  moreover have "crep (h(p \<mapsto> set_link d' 0 pn)) ((d', p, c', s') # C) 0"
    by (rule crep_relink[OF cr n(1) ps])
  moreover have "skel {p} h (h(p \<mapsto> set_link d' 0 pn))" using n(1) by (simp add: skel_upd)
  ultimately show thesis using that n(1,2) by blast
qed

lemma cinv_replace: "cinv (A @ (d, f, c, s) # B) k n \<Longrightarrow> B \<noteq> [] \<Longrightarrow> cinv (A @ (d, q, c, s) # B) k n"
proof (induction A arbitrary: k n)
  case Nil
  then show ?case by (cases B) auto
next
  case (Cons e A)
  obtain d' x c' s' where e: "e = (d', x, c', s')" by (cases e)
  from Cons e show ?case by (cases A) auto
qed

lemma unlink_replace:
  assumes cr: "crep h C 0" and fp: "fpos sg C f fp" and f: "f \<noteq> 0" "f \<noteq> q" and q: "h q = Some qn" "q \<notin> cset C"
    and di: "distinct (cl C @ cr C)" and ci: "cinv C False 0" and vs: "cr C = f # vs"
  obtains h1 fn C' where "CHECK_FPARENT h f fp = Some ()"
    "do { n \<leftarrow> h fp; upd h fp (set_link (link n True = f) q) } = Some h1" "h1 f = Some fn" "h1 q = Some qn"
    "crep (h1(q \<mapsto> set_link True (link fn True) (set_link False (link fn False) (set_red (red fn) qn)))) C' 0"
    "cinv C' False 0" "cl C' = cl C" "cr C' = q # vs" "skel (cset C) h h1"
proof -
  from fpos_split[OF fp f(1)] obtain A d c s d' c' s' B where C: "C = A @ (d, f, c, s) # (d', fp, c', s') # B" by blast
  have cr2: "crep h (A @ (d, f, c, s) # (d', fp, c', s') # B) 0" using cr C by simp
  then obtain gn fn where n: "h fp = Some gn" "h f = Some fn" and cf: "crep h ((d', fp, c', s') # B) f"
    by (auto simp: crep_append)
  have f': "f \<notin> set (ins s')" "f \<noteq> fp" using di C by (cases d; cases d'; auto)+
  let ?h = "h(fp \<mapsto> set_link d' q gn)"
  have d': "(link gn True = f) = d'" by (rule dir2_eq[OF cf n(1) f(1) f'(1)])
  have "fp \<noteq> q" using q C by auto
  have A: "\<not> d" "cr A = []" "f # ins s @ cr ((d', fp, c', s') # B) = f # vs"
  proof -
    have "f \<notin> set (cr A)" "f \<notin> set (cr ((d', fp, c', s') # B))" "d \<Longrightarrow> f \<in> set (cl C)" "f \<in> set (cr C)"
      using di C vs by (cases d; auto)+
    then show "\<not> d" "cr A = []" using vs C di by (cases d; cases "cr A"; auto)+
    with vs C show "f # ins s @ cr ((d', fp, c', s') # B) = f # vs" by simp
  qed
  show thesis
  proof (rule that)
    show "CHECK_FPARENT h f fp = Some ()" by (rule CHECK_FPARENT_ok[OF cr fp])
    show "do { n \<leftarrow> h fp; upd h fp (set_link (link n True = f) q) } = Some ?h" using n d' by simp
    show "?h f = Some fn" "?h q = Some qn" using n f' q \<open>fp \<noteq> q\<close> by simp_all
    show "crep (?h(q \<mapsto> set_link True (link fn True) (set_link False (link fn False) (set_red (red fn) qn))))
        (A @ (d, q, c, s) # (d', fp, c', s') # B) 0"
      by (rule crep_replace[OF cr2 q(1) n(2) C q(2) di])
        (use n in \<open>auto simp: set_link_def set_red_def fun_eq_iff\<close>)
    show "cinv (A @ (d, q, c, s) # (d', fp, c', s') # B) False 0" using cinv_replace ci C by simp
    show "skel (cset C) h ?h" using n by (intro skel_mono[OF skel_upd]) (auto simp: C)
  qed (use A C in simp_all)
qed

lemma upd_nonnull:
  assumes "p \<noteq> 0 \<Longrightarrow> h p \<noteq> None"
  obtains h' where "(if p \<noteq> 0 then upd h p g else Some h) = Some h'"
    "\<And>x. h' x = (if p \<noteq> 0 \<and> x = p then map_option g (h x) else h x)"
  using assms that[of h] that[of "h(p \<mapsto> g (the (h p)))"] by (cases "p = 0") auto

lemma unlink_chain:
  assumes c: "chained h tree (us @ f # vs)" and di: "distinct (us @ f # vs)" and z: "0 \<notin> set (us @ f # vs)"
    and fn: "h f = Some fn" and dom: "\<And>x. x \<in> set (us @ vs) \<Longrightarrow> h x \<noteq> None"
    and t1: "t1 = (if rfirst tree = f then tree\<lparr>rfirst := rnext fn\<rparr> else tree)"
    and t2: "t2 = (if rlast t1 = f then t1\<lparr>rlast := rprev fn\<rparr> else t1)"
  obtains h1 h2 where
    "(if rprev fn \<noteq> 0 then upd h (rprev fn) (rnext_update (\<lambda>_. rnext fn)) else Some h) = Some h1"
    "(if rnext fn \<noteq> 0 then upd h1 (rnext fn) (rprev_update (\<lambda>_. rprev fn)) else Some h1) = Some h2"
    "chained (h2(f := None)) (t2\<lparr>rsize := rsize t2 - 1\<rparr>) (us @ vs)"
    "\<And>x. map_option shape (h2 x) = map_option shape (h x)"
    "\<And>x. map_option rdata (h2 x) = map_option rdata (h x)"
    "\<And>x. x \<notin> set (us @ vs) \<Longrightarrow> h2 x = h x"
proof -
  from c have d: "dll (nxt h) (prv h) 0 (us @ f # vs) 0" by (simp add: chained_def)
  from dll_at[OF this] fn have pn: "rprev fn = last1 us 0" "rnext fn = hd1 vs 0" by (simp_all add: nxt_def prv_def)
  let ?p = "rprev fn" and ?n = "rnext fn"
  have p2: "us \<noteq> [] \<Longrightarrow> ?p = last us" by (simp add: pn last1_def)
  have "us \<noteq> [] \<Longrightarrow> last us \<noteq> 0"
  proof
    assume "us \<noteq> []" "last us = 0"
    with last_in_set[of us] z show False by simp
  qed
  with p2 have p: "?p \<noteq> 0 \<longleftrightarrow> us \<noteq> []" "us \<noteq> [] \<Longrightarrow> ?p = last us"
    by (cases "us = []"; simp add: pn last1_def)+
  have n: "?n \<noteq> 0 \<longleftrightarrow> vs \<noteq> []" "vs \<noteq> [] \<Longrightarrow> ?n = hd vs"
    using z by (cases vs; auto simp: pn)+
  have ps: "?p \<noteq> 0 \<Longrightarrow> ?p \<in> set us" "?n \<noteq> 0 \<Longrightarrow> ?n \<in> set vs" using p n by simp_all
  have "?p \<noteq> 0 \<Longrightarrow> h ?p \<noteq> None" using ps(1) dom by simp
  from upd_nonnull[where p = ?p and h = h and g = "rnext_update (\<lambda>_. ?n)", OF this] obtain h1 where
    h1: "(if ?p \<noteq> 0 then upd h ?p (rnext_update (\<lambda>_. ?n)) else Some h) = Some h1"
    "\<And>x. h1 x = (if ?p \<noteq> 0 \<and> x = ?p then map_option (rnext_update (\<lambda>_. ?n)) (h x) else h x)" by blast
  have "h1 ?n \<noteq> None" if "?n \<noteq> 0"
  proof -
    have "h ?n \<noteq> None" using ps(2)[OF that] dom by simp
    then show ?thesis using h1(2)[of ?n] by (auto split: if_splits)
  qed
  from upd_nonnull[where p = ?n and h = h1 and g = "rprev_update (\<lambda>_. ?p)", OF this] obtain h2 where
    h2: "(if ?n \<noteq> 0 then upd h1 ?n (rprev_update (\<lambda>_. ?p)) else Some h1) = Some h2"
    "\<And>x. h2 x = (if ?n \<noteq> 0 \<and> x = ?n then map_option (rprev_update (\<lambda>_. ?p)) (h1 x) else h1 x)" by blast
  have f: "f \<notin> set (us @ vs)" using di by simp
  let ?h = "h2(f := None)"
  have "dll (nxt ?h) (prv ?h) 0 (us @ vs) 0"
  proof (rule dll_remove[OF d di])
    fix x assume x: "x \<in> set (us @ vs)"
    then have "x \<noteq> f" using f by blast
    obtain y where y: "h x = Some y" using dom[OF x] by auto
    show "nxt ?h x = (if us \<noteq> [] \<and> x = last us then hd1 vs 0 else nxt h x)"
      using \<open>x \<noteq> f\<close> y p h1(2) h2(2) pn by (auto simp: nxt_def)
    show "prv ?h x = (if vs \<noteq> [] \<and> x = hd vs then last1 us 0 else prv h x)"
      using \<open>x \<noteq> f\<close> y n h1(2) h2(2) pn by (auto simp: prv_def)
  qed
  moreover have "us @ vs \<noteq> [] \<Longrightarrow> rfirst t2 = hd (us @ vs) \<and> rlast t2 = last (us @ vs)"
  proof
    assume ne: "us @ vs \<noteq> []"
    have t: "rfirst tree = hd (us @ [f])" "rlast tree = last (f # vs)"
      using c by (simp_all add: chained_def hd_append)
    show "rfirst t2 = hd (us @ vs)"
      using t di ne n(2) by (cases us) (auto simp: t1 t2)
    have "vs \<noteq> [] \<Longrightarrow> last vs \<noteq> f" using di last_in_set[of vs] by auto
    then show "rlast t2 = last (us @ vs)"
      using t ne p(2) by (cases "vs = []") (auto simp: t1 t2)
  qed
  moreover have "rsize t2 - 1 = of_nat (length (us @ vs))" using c by (simp add: t1 t2 chained_def)
  ultimately have "chained ?h (t2\<lparr>rsize := rsize t2 - 1\<rparr>) (us @ vs)" by (simp add: chained_def)
  with h1(1) h2(1) show thesis
  proof (rule that)
    fix x
    show "map_option shape (h2 x) = map_option shape (h x)" "map_option rdata (h2 x) = map_option rdata (h x)"
      using h1(2) h2(2) by (simp_all add: option.map_comp comp_def shape_def[abs_def])
    show "h2 x = h x" if "x \<notin> set (us @ vs)"
      using that h1(2)[of x] h2(2)[of x] ps by auto
  qed
qed

lemma unlink_shape:
  assumes st: "rem_st sg h0 D tree xs h ((d, q, c, b) # C) Lf f fp" and srt: "srt sg xs" and f: "f \<noteq> 0"
  obtains pn qn h1 h2 C' us vs where "h (elt_adr (hd C)) = Some pn" "h q = Some qn"
    "upd h (elt_adr (hd C)) (set_link (link pn True = q) (link qn (link qn False = 0))) = Some h1"
    "(if f \<noteq> q then do {
        CHECK_FPARENT h1 f fp;
        n \<leftarrow> h1 fp;
        h \<leftarrow> upd h1 fp (set_link (link n True = f) q);
        fn \<leftarrow> h f;
        h \<leftarrow> upd h q (set_red (red fn));
        h \<leftarrow> upd h q (set_link False (link fn False));
        upd h q (set_link True (link fn True))
      } else Some h1) = Some h2"
    "crep h2 C' 0" "cinv C' False 0" "cl C' @ cr C' = HEAD # us @ vs" "xs = us @ f # vs" "skel (set (HEAD # xs)) h h2"
proof -
  let ?C = "(d, q, c, b) # C"
  from st obtain n where l: "linv h0 D h tree xs ?C Lf" and n: "cinv ?C False n" and fp: "fpos sg ?C f fp"
    by (auto simp: rem_st_def simp del: cinv.simps fpos.simps)
  from end_found[OF st srt f] obtain vs where vs: "cr ?C = f # vs" "sg f = 0" .
  from cinv_cl[OF n] obtain us where us: "cl ?C = HEAD # us" by blast
  have xs: "xs = us @ f # vs" using linvD(1)[OF l] unfolding ins_plug us vs(1) by simp
  from end_leaf[OF st] xs have b: "b = Lf" and ci: "cinv C False 0" by simp_all
  from ci obtain d' p c' s' C2 where C: "C = (d', p, c', s') # C2" by (cases C) auto
  from unlink_leaf[OF l[unfolded b C]] obtain pn qn h1 where h1: "h p = Some pn" "h q = Some qn"
    "upd h p (set_link (link pn True = q) (link qn (link qn False = 0))) = Some h1" "crep h1 C 0" "skel {p} h h1"
    unfolding C .
  note di = apartD(5)[OF linvD(2)[OF l]]
  have q: "q \<notin> cset C" and diC: "distinct (cl C @ cr C)" using di by (cases d; auto simp: cset_def)+
  have sub: "cset ?C \<subseteq> set (HEAD # xs)" unfolding cset_def us vs(1) xs by auto
  let ?P = "elt_adr (hd C)"
  have P: "?P = p" using C by simp
  show thesis
  proof (cases "f = q")
    case True
    have "\<not> d" "vs = cr C" using vs(1) q True b by (cases d; auto simp: cset_def)+
    then have "cl C @ cr C = HEAD # us @ vs" using us by simp
    moreover have "skel (set (HEAD # xs)) h h1" using h1(5) by (rule skel_mono) (use sub C in auto)
    ultimately show thesis using True h1 ci xs P by (intro that[of pn qn h1 h1 C us vs]) simp_all
  next
    case False
    have d: d using vs(1) False by (cases d) auto
    have "sg q \<noteq> 0"
    proof
      assume "sg q = 0"
      moreover have "q \<in> set xs" "f \<in> set xs" using us xs d ci by (auto dest!: cinv_cl)
      ultimately show False using srt_zero_unique[OF srt] vs(2) False by blast
    qed
    then have fp': "fpos sg C f fp" using fp C by simp
    have cv: "cr C = f # vs" using vs(1) d by simp
    have "p \<noteq> q" using q C by auto
    then have "h1 q = Some qn" using h1(2,5) by (simp add: skel_frame)
    from unlink_replace[OF h1(4) fp' f False this q diC ci cv] obtain h2 fn C' where
      h2: "CHECK_FPARENT h1 f fp = Some ()"
      "do { n \<leftarrow> h1 fp; upd h1 fp (set_link (link n True = f) q) } = Some h2" "h2 f = Some fn" "h2 q = Some qn"
      "crep (h2(q \<mapsto> set_link True (link fn True) (set_link False (link fn False) (set_red (red fn) qn)))) C' 0"
      "cinv C' False 0" "cl C' = cl C" "cr C' = q # vs" "skel (cset C) h1 h2" .
    let ?h = "h2(q \<mapsto> set_link True (link fn True) (set_link False (link fn False) (set_red (red fn) qn)))"
    have "skel {q} h2 ?h" using h2(4) by (simp add: skel_upd)
    from skel_trans[OF skel_trans[OF h1(5) h2(9)] this] have sk: "skel (set (HEAD # xs)) h ?h"
      by (rule skel_mono) (use sub C in auto)
    have cc: "cl C' @ cr C' = HEAD # us @ vs" using h2(7,8) us d b by simp
    show thesis
    proof (rule that[of pn qn h1 ?h C' us vs])
      from h2(2) obtain gn where gn: "h1 fp = Some gn" "upd h1 fp (set_link (link gn True = f) q) = Some h2"
        by (auto simp: bind_eq_Some_conv)
      show "(if f \<noteq> q then do {
        CHECK_FPARENT h1 f fp;
        n \<leftarrow> h1 fp;
        h \<leftarrow> upd h1 fp (set_link (link n True = f) q);
        fn \<leftarrow> h f;
        h \<leftarrow> upd h q (set_red (red fn));
        h \<leftarrow> upd h q (set_link False (link fn False));
        upd h q (set_link True (link fn True))
      } else Some h1) = Some ?h"
        using False unfolding h2(1) gn(1) Option.bind_lunit gn(2) h2(3) upd_Some[of h2 q qn, OF h2(4)]
        by (simp add: set_link_def set_red_def)
    qed (use h1 P h2(5,6) cc xs sk in simp_all)
  qed
qed

lemma unlink_ok:
  assumes st: "rem_st sg h0 D tree xs h ((d, q, c, b) # C) Lf f fp" and srt: "srt sg xs" and f: "f \<noteq> 0"
  obtains h' tree' us vs X m where "RB_Remove_unlink h tree (elt_adr (hd C)) q f fp = Some (h', tree')"
    "xs = us @ f # vs" "sg f = 0" "linv (h0(f := None)) D h' tree' (us @ vs) [FALSE_ROOT] X" "rb X m" "h' f = None"
proof -
  let ?C = "(d, q, c, b) # C"
  from st have l: "linv h0 D h tree xs ?C Lf" by (simp add: rem_st_def)
  from end_found[OF st srt f] have "sg f = 0" by blast
  from unlink_shape[OF st srt f] obtain pn qn h1 h2 C' us vs where
    s: "h (elt_adr (hd C)) = Some pn" "h q = Some qn"
    "upd h (elt_adr (hd C)) (set_link (link pn True = q) (link qn (link qn False = 0))) = Some h1"
    "(if f \<noteq> q then do {
        CHECK_FPARENT h1 f fp;
        n \<leftarrow> h1 fp;
        h \<leftarrow> upd h1 fp (set_link (link n True = f) q);
        fn \<leftarrow> h f;
        h \<leftarrow> upd h q (set_red (red fn));
        h \<leftarrow> upd h q (set_link False (link fn False));
        upd h q (set_link True (link fn True))
      } else Some h1) = Some h2"
    and c: "crep h2 C' 0" "cinv C' False 0" "cl C' @ cr C' = HEAD # us @ vs" and xs: "xs = us @ f # vs"
    and sk: "skel (set (HEAD # xs)) h h2" .
  have di: "distinct (HEAD # us @ f # vs)" "0 \<notin> set (HEAD # us @ f # vs)"
    using linvD(2)[OF l] unfolding apart_def linvD(1)[OF l] unfolding xs by (rule conjunct1, rule conjunct2)
  have co: "map_option core (h2 x) = map_option core (h x)" for x using sk by (simp add: skel_def)
  have ch: "chained h2 tree (us @ f # vs)" using chained_cong[OF linvD(5)[OF l] co refl refl refl] xs by simp
  have rd: "map_option rdata (h2 x) = Some (D x)" if "x \<in> set xs" for x
    using core_eqD(3)[of h2 x h, OF co] linvD(6)[OF l that] by simp
  then have dom: "h2 x \<noteq> None" if "x \<in> set xs" for x using that by fastforce
  then obtain fn where fn: "h2 f = Some fn" using xs by fastforce
  define t1 where "t1 = (if rfirst tree = f then tree\<lparr>rfirst := rnext fn\<rparr> else tree)"
  define t2 where "t2 = (if rlast t1 = f then t1\<lparr>rlast := rprev fn\<rparr> else t1)"
  have du: "distinct (us @ f # vs)" "0 \<notin> set (us @ f # vs)" "\<And>x. x \<in> set (us @ vs) \<Longrightarrow> h2 x \<noteq> None"
    using di dom xs by simp_all
  from unlink_chain[OF ch du(1,2) fn du(3) t1_def t2_def] obtain h3 h4 where h4:
    "(if rprev fn \<noteq> 0 then upd h2 (rprev fn) (rnext_update (\<lambda>_. rnext fn)) else Some h2) = Some h3"
    "(if rnext fn \<noteq> 0 then upd h3 (rnext fn) (rprev_update (\<lambda>_. rprev fn)) else Some h3) = Some h4"
    "chained (h4(f := None)) (t2\<lparr>rsize := rsize t2 - 1\<rparr>) (us @ vs)"
    "\<And>x. map_option shape (h4 x) = map_option shape (h2 x)"
    "\<And>x. map_option rdata (h4 x) = map_option rdata (h2 x)"
    "\<And>x. x \<notin> set (us @ vs) \<Longrightarrow> h4 x = h2 x" by blast
  let ?h = "h4(f := None)" and ?t = "t2\<lparr>rsize := rsize t2 - 1\<rparr>"
  have "RB_Remove_unlink h tree (elt_adr (hd C)) q f fp = Some (?h, ?t)"
    using s(1-3) fn h4(1,2) unfolding RB_Remove_unlink_def s(1,2,3) Option.bind_lunit s(4)
    by (simp add: Let_def t1_def t2_def)
  moreover have "linv (h0(f := None)) D ?h ?t (us @ vs) C' Lf"
    unfolding linv_def apart_def
  proof (intro conjI ballI allI impI)
    show e: "ins (plug C' Lf) = HEAD # us @ vs" using c(3) by (simp add: ins_plug)
    have "set (cl C' @ cr C') = set (HEAD # us @ vs)" using c(3) by simp
    then have "f \<notin> cset C'" "distinct (ins (plug C' Lf))" "0 \<notin> set (ins (plug C' Lf))"
      using di unfolding e cset_def by auto
    then show "distinct (ins (plug C' Lf))" "0 \<notin> set (ins (plug C' Lf))" by blast+
    have "crep ?h C' 0 = crep h2 C' 0"
      by (rule crep_shape) (use \<open>f \<notin> cset C'\<close> h4(4) in auto)
    with c(1) show "rep ?h (plug C' Lf)" by simp
    show "map_option rdata (?h x) = Some (D x)" if "x \<in> set (us @ vs)" for x
      using that di(1) h4(5)[of x] rd[of x] xs by auto
    show "?h x = (h0(f := None)) x" if "x \<notin> set (HEAD # us @ vs)" for x
      using that h4(6)[of x] skel_frame[OF sk, of x] linvD(7)[OF l, of x] xs by auto
  qed (rule h4(3))
  moreover obtain X m where "linv (h0(f := None)) D ?h ?t (us @ vs) [FALSE_ROOT] X" "rb X m"
    using linv_finish[OF calculation(2), of 0] c(2) by auto
  ultimately show thesis using xs \<open>sg f = 0\<close> that by simp
qed

section \<open>The contract of RB_Remove\<close>

lemma RB_Remove_leave:
  assumes l: "linv h0 D h tree xs [FALSE_ROOT] X" and X: "rb X m"
  obtains hn h' where "h HEAD = Some hn"
    "(if link hn True \<noteq> 0 then upd (h(HEAD := None)) (link hn True) (set_red False) else Some (h(HEAD := None))) = Some h'"
    "rb_tree h' (tree\<lparr>root := link hn True\<rparr>) xs" "\<And>x. x \<in> set xs \<Longrightarrow> map_option rdata (h' x) = Some (D x)"
    "\<And>x. x \<notin> set xs \<Longrightarrow> h' x = (if x = HEAD then None else h0 x)"
proof -
  from linvD(3)[OF l] obtain hn where hn: "h HEAD = Some hn" "link hn True = adr X" by (auto simp: FALSE_ROOT_def)
  note ap = apartD(2)[OF linvD(2)[OF l]]
  have xs: "ins X = xs" using linvD(1)[OF l] by (simp add: FALSE_ROOT_def ins_N)
  show thesis
  proof (cases "X = Lf")
    case True
    then have "xs = []" using xs by simp
    moreover have "chained h tree xs" by (rule linvD(5)[OF l])
    ultimately have "rb_tree (h(HEAD := None)) (tree\<lparr>root := 0\<rparr>) xs"
      by (auto simp: rb_tree_def chained_def intro!: exI[of _ Lf])
    with True hn \<open>xs = []\<close> show thesis using linvD(7)[OF l] by (intro that[of hn "h(HEAD := None)"]) auto
  next
    case False
    then have "adr X \<noteq> 0" using ap by (simp add: adr_eq_0)
    with linv_leave[OF l X False] hn show thesis by (metis that)
  qed
qed

lemma remove_start:
  assumes t: "rb_tree h tree xs" and o: "ordered I h xs key"
  shows "\<exists>h' d q c b C f fp. RB_Remove_loop I key (with_head I h (root tree)) 0 HEAD True 0 0
      = Some (h', if C = [] then 0 else elt_adr (hd C), q, f, fp) \<and>
    rem_st (sign I h key) h (\<lambda>x. rdata (the (h x))) tree xs h' ((d, q, c, b) # C) Lf f fp"
proof -
  from linv_enter[OF t, where I = I] obtain T n where T: "root tree = adr T" "ins T = xs" "rb T n" "\<not> col T"
    and l: "linv h (\<lambda>x. rdata (the (h x))) (with_head I h (root tree)) tree xs [FALSE_ROOT] T" .
  have st: "rem_st (sign I h key) h (\<lambda>x. rdata (the (h x))) tree xs (with_head I h (root tree)) [(True, HEAD, False, Lf)] T 0 0"
    using l T by (auto simp: rem_st_def FALSE_ROOT_def dirs_ok_def)
  have "srt (sign I h key) xs" using o by (simp add: ordered_def)
  from remove_loop[OF st _ _ this, of 0 I key] show ?thesis by (simp add: sign_def[abs_def])
qed

lemma RB_Remove_spec:
  assumes t: "rb_tree h tree xs" and o: "ordered I h xs key" and hd: "h HEAD = None"
  obtains h' tree' where "RB_Remove I h tree key = Some (h', tree', True)"
    "rb_tree h' tree' (filter (\<lambda>x. sign I h key x \<noteq> 0) xs)"
    "\<And>x. x \<in> set xs \<Longrightarrow> sign I h key x \<noteq> 0 \<Longrightarrow> map_option rdata (h' x) = map_option rdata (h x)"
    "\<And>x. x \<in> set xs \<Longrightarrow> sign I h key x = 0 \<Longrightarrow> h' x = None"
    "\<And>x. x \<notin> set xs \<Longrightarrow> h' x = h x"
proof (cases "root tree = 0")
  case True
  with t have "xs = []" by (auto simp: rb_tree_def adr_eq_0)
  moreover have "RB_Remove I h tree key = Some (h, tree, True)"
    using True unfolding RB_Remove_def CHECK_COUNT_tree[OF t] by simp
  ultimately show thesis using t by (intro that) simp_all
next
  case False
  let ?sg = "sign I h key" and ?D = "\<lambda>x. rdata (the (h x))"
  have srt: "srt ?sg xs" using o by (simp add: ordered_def)
  have dd: "map_option rdata (h x) = Some (?D x)" if "x \<in> set xs" for x using rb_tree_rep[OF t that] by auto
  from remove_start[OF t o] obtain h1 d q c b C f fp where
    lp: "RB_Remove_loop I key (with_head I h (root tree)) 0 HEAD True 0 0 = Some (h1, if C = [] then 0 else elt_adr (hd C), q, f, fp)"
    and st: "rem_st ?sg h ?D tree xs h1 ((d, q, c, b) # C) Lf f fp" by blast
  have run: "RB_Remove I h tree key = Some (h', t2\<lparr>root := link hn True\<rparr>, True)"
    if "(if f \<noteq> 0 then RB_Remove_unlink h1 tree (if C = [] then 0 else elt_adr (hd C)) q f fp else Some (h1, tree)) = Some (h2, t2)"
      "h2 HEAD = Some hn"
      "(if link hn True \<noteq> 0 then upd (h2(HEAD := None)) (link hn True) (set_red False) else Some (h2(HEAD := None))) = Some h'"
    for h2 t2 hn h'
    using False lp that unfolding RB_Remove_def CHECK_COUNT_tree[OF t] with_head_def
    by (cases "link hn True = 0") (simp_all add: Let_def)
  show thesis
  proof (cases "f = 0")
    case True
    from st obtain n where l: "linv h ?D h1 tree xs ((d, q, c, b) # C) Lf" and n: "cinv ((d, q, c, b) # C) False 0"
      by (auto simp: rem_st_def)
    from linv_finish[OF l, of 0] n obtain X m where X: "linv h ?D h1 tree xs [FALSE_ROOT] X" "rb X m" by auto
    from RB_Remove_leave[OF X] obtain hn h' where h': "h1 HEAD = Some hn"
      "(if link hn True \<noteq> 0 then upd (h1(HEAD := None)) (link hn True) (set_red False) else Some (h1(HEAD := None))) = Some h'"
      "rb_tree h' (tree\<lparr>root := link hn True\<rparr>) xs" "\<And>x. x \<in> set xs \<Longrightarrow> map_option rdata (h' x) = Some (?D x)"
      "\<And>x. x \<notin> set xs \<Longrightarrow> h' x = (if x = HEAD then None else h x)" by blast
    have ns: "?sg x \<noteq> 0" if "x \<in> set xs" for x using end_absent[OF st[unfolded True] srt that] .
    then have "filter (\<lambda>x. ?sg x \<noteq> 0) xs = xs" by (simp add: filter_id_conv)
    note fl = this
    show thesis
    proof (rule that)
      show "RB_Remove I h tree key = Some (h', tree\<lparr>root := link hn True\<rparr>, True)"
        using run[OF _ h'(1,2)] True by simp
      show "rb_tree h' (tree\<lparr>root := link hn True\<rparr>) (filter (\<lambda>x. ?sg x \<noteq> 0) xs)" using h'(3) fl by simp
      show "map_option rdata (h' x) = map_option rdata (h x)" if "x \<in> set xs" for x
        by (rule trans[OF h'(4)[OF that] dd[OF that, symmetric]])
      show "h' x = None" if "x \<in> set xs" "?sg x = 0" for x using ns that by blast
      show "h' x = h x" if "x \<notin> set xs" for x using h'(5)[OF that] hd by simp
    qed
  next
    case nf: False
    from unlink_ok[OF st srt nf] obtain h2 t2 us vs X m where u: "RB_Remove_unlink h1 tree (elt_adr (hd C)) q f fp = Some (h2, t2)"
      "xs = us @ f # vs" "?sg f = 0" "linv (h(f := None)) ?D h2 t2 (us @ vs) [FALSE_ROOT] X" "rb X m" "h2 f = None" .
    have C: "C \<noteq> []"
    proof -
      from st have "cinv ((d, q, c, b) # C) False 0" by (auto simp: rem_st_def)
      with end_leaf(2)[OF st] u(2) show ?thesis by auto
    qed
    from RB_Remove_leave[OF u(4,5)] obtain hn h' where h': "h2 HEAD = Some hn"
      "(if link hn True \<noteq> 0 then upd (h2(HEAD := None)) (link hn True) (set_red False) else Some (h2(HEAD := None))) = Some h'"
      "rb_tree h' (t2\<lparr>root := link hn True\<rparr>) (us @ vs)"
      "\<And>x. x \<in> set (us @ vs) \<Longrightarrow> map_option rdata (h' x) = Some (?D x)"
      "\<And>x. x \<notin> set (us @ vs) \<Longrightarrow> h' x = (if x = HEAD then None else (h(f := None)) x)" by blast
    have di: "distinct xs" using t by (simp add: rb_tree_def)
    have ns: "?sg x = 0 \<longleftrightarrow> x = f" if "x \<in> set xs" for x
      using srt_zero_unique[OF srt that, of f] u(2,3) by auto
    have fx: "f \<notin> set (us @ vs)" using di u(2) by simp
    have "filter (\<lambda>x. ?sg x \<noteq> 0) (us @ vs) = us @ vs"
    proof (rule filter_True, rule ballI)
      fix x assume x: "x \<in> set (us @ vs)"
      then have "x \<in> set xs" "x \<noteq> f" using u(2) fx by auto
      with ns show "?sg x \<noteq> 0" by blast
    qed
    then have fl: "filter (\<lambda>x. ?sg x \<noteq> 0) xs = us @ vs" using u(2,3) by simp
    show thesis
    proof (rule that)
      show "RB_Remove I h tree key = Some (h', t2\<lparr>root := link hn True\<rparr>, True)"
        using run[OF _ h'(1,2)] nf C u(1) by simp
      show "rb_tree h' (t2\<lparr>root := link hn True\<rparr>) (filter (\<lambda>x. ?sg x \<noteq> 0) xs)" using h'(3) fl by simp
      show "map_option rdata (h' x) = map_option rdata (h x)" if "x \<in> set xs" "?sg x \<noteq> 0" for x
      proof -
        have "x \<in> set (us @ vs)" unfolding fl[symmetric] using that by simp
        from h'(4)[OF this] dd[OF that(1), symmetric] show ?thesis by (rule trans)
      qed
      show "h' x = None" if "x \<in> set xs" "?sg x = 0" for x
      proof -
        have "x = f" using ns[OF that(1)] that(2) by simp
        with h'(5)[of f] fx show ?thesis by simp
      qed
      show "h' x = h x" if "x \<notin> set xs" for x
      proof -
        have "x \<notin> set (us @ vs)" "x \<noteq> f" using that u(2) by simp_all
        with h'(5)[of x] hd show ?thesis by (cases "x = HEAD") simp_all
      qed
    qed
  qed
qed

end
