(* ===== verification/RBMap.thy ===== *)
theory RBMap
  imports RBRemove
begin

text \<open>
  The contract of the trees for their callers: with a comparison function that orders the values
  by a key, a tree is a finite map from keys to nodes. The locale \<open>rb_order\<close> says what a caller
  has to provide; the lemmas say what the operations do to the map and that they change no
  other node of the heap.
\<close>

section \<open>Trees as maps\<close>

definition data_at :: "'v RB_node_t heap \<Rightarrow> addr \<Rightarrow> 'v" where
  "data_at h x = rdata (the (h x))"

definition rb_map :: "('v \<Rightarrow> 'o :: linorder) \<Rightarrow> 'v RB_node_t heap \<Rightarrow> RB_t \<Rightarrow> addr list \<Rightarrow> bool" where
  "rb_map vkey h tree xs \<longleftrightarrow>
     rb_tree h tree xs \<and> sorted_wrt (\<lambda>x y. vkey (data_at h x) < vkey (data_at h y)) xs"

definition rb_abs :: "('v \<Rightarrow> 'o) \<Rightarrow> 'v RB_node_t heap \<Rightarrow> addr list \<Rightarrow> 'o \<rightharpoonup> addr \<times> 'v" where
  "rb_abs vkey h xs = map_of (map (\<lambda>x. (vkey (data_at h x), x, data_at h x)) xs)"

lemma data_at_cong: "map_option rdata (h' x) = map_option rdata (h x) \<Longrightarrow> h x \<noteq> None \<Longrightarrow> data_at h' x = data_at h x"
  by (cases "h' x"; cases "h x") (auto simp: data_at_def)

lemma option_pair_eqI: "(\<And>x w. m = Some (x, w) \<longleftrightarrow> m' = Some (x, w)) \<Longrightarrow> m = m'"
  by (cases m; cases m') auto

lemma rb_map_distinct: "rb_map vkey h tree xs \<Longrightarrow> distinct (map (\<lambda>x. vkey (data_at h x)) xs)"
  using strict_sorted_iff[of "map (\<lambda>x. vkey (data_at h x)) xs"] by (simp add: rb_map_def sorted_wrt_map)

lemma rb_map_dom: "rb_map vkey h tree xs \<Longrightarrow> x \<in> set xs \<Longrightarrow> h x \<noteq> None"
  using rb_tree_rep by (auto simp: rb_map_def)

lemma rb_abs_None: "rb_abs vkey h xs k = None \<longleftrightarrow> (\<forall>x \<in> set xs. vkey (data_at h x) \<noteq> k)"
  by (force simp: rb_abs_def map_of_eq_None_iff)

lemma rb_abs_Some:
  assumes "rb_map vkey h tree xs"
  shows "rb_abs vkey h xs k = Some (x, v) \<longleftrightarrow> x \<in> set xs \<and> vkey (data_at h x) = k \<and> data_at h x = v"
  unfolding rb_abs_def using rb_map_distinct[OF assms]
  by (subst map_of_eq_Some_iff) (auto simp: comp_def)

lemma rb_map_cong:
  assumes "rb_map vkey h tree xs" "rb_tree h' tree' xs" "\<And>x. x \<in> set xs \<Longrightarrow> data_at h' x = data_at h x"
  shows "rb_map vkey h' tree' xs" "rb_abs vkey h' xs = rb_abs vkey h xs"
proof -
  have "sorted_wrt (\<lambda>x y. vkey (data_at h' x) < vkey (data_at h' y)) xs"
    using assms(1) by (auto simp: rb_map_def assms(3) elim!: sorted_wrt_mono_rel[rotated])
  then show "rb_map vkey h' tree' xs" using assms(2) by (simp add: rb_map_def)
  have "map (\<lambda>x. (vkey (data_at h' x), x, data_at h' x)) xs = map (\<lambda>x. (vkey (data_at h x), x, data_at h x)) xs"
    by (simp add: assms(3))
  then show "rb_abs vkey h' xs = rb_abs vkey h xs" unfolding rb_abs_def by (rule arg_cong)
qed

text \<open>Another tree in the same heap is not touched.\<close>

lemma rb_tree_frame:
  assumes "rb_tree h tree xs" "\<And>x. x \<in> set xs \<Longrightarrow> h' x = h x"
  shows "rb_tree h' tree xs"
proof -
  have "rep h' T = rep h T" if "ins T = xs" for T using that assms(2) by (intro rep_cong) auto
  moreover have "chained h' tree xs"
    using assms by (intro chained_cong[of h tree xs h' tree]) (auto simp: rb_tree_def)
  ultimately show ?thesis using assms(1) unfolding rb_tree_def by metis
qed

lemma rb_map_frame:
  assumes "rb_map vkey h tree xs" "\<And>x. x \<in> set xs \<Longrightarrow> h' x = h x"
  shows "rb_map vkey h' tree xs" "rb_abs vkey h' xs = rb_abs vkey h xs"
  using rb_map_cong[OF assms(1)] rb_tree_frame[of h tree xs h'] assms by (simp_all add: rb_map_def data_at_def)

lemma sorted_filter_split:
  fixes k :: "'o :: linorder"
  assumes "sorted_wrt (\<lambda>x y. f x < f y) xs" "\<forall>x \<in> set xs. f x \<noteq> k"
  shows "xs = filter (\<lambda>x. f x < k) xs @ filter (\<lambda>x. k < f x) xs"
  using assms
proof (induction xs)
  case (Cons x xs)
  show ?case
  proof (cases "f x < k")
    case False
    then have "k < f x" using Cons.prems by auto
    with Cons.prems have "\<forall>y \<in> set xs. k < f y" by auto
    then have "filter (\<lambda>x. f x < k) xs = []" "filter (\<lambda>x. k < f x) xs = xs"
      by (auto simp: filter_empty_conv filter_id_conv)
    with \<open>k < f x\<close> show ?thesis by simp
  qed (use Cons in simp)
qed simp

locale rb_order =
  fixes I :: "('k, 'v) RBTreeImpl" and vkey :: "'v \<Rightarrow> 'o :: linorder" and key_of :: "'k \<Rightarrow> 'o"
  assumes compare_less: "COMPARE_VALUE_func I v k < 0 \<longleftrightarrow> vkey v < key_of k"
    and compare_eq: "COMPARE_VALUE_func I v k = 0 \<longleftrightarrow> vkey v = key_of k"
    and init_key: "INIT_VALUE_func I k = Some v \<Longrightarrow> vkey v = key_of k"
begin

lemma compare_greater: "0 < COMPARE_VALUE_func I v k \<longleftrightarrow> key_of k < vkey v"
  using compare_less[of v k] compare_eq[of v k] by (metis linorder_neqE not_less_iff_gr_or_eq)

lemma sign_iff:
  "sign I h k x < 0 \<longleftrightarrow> vkey (data_at h x) < key_of k" "sign I h k x = 0 \<longleftrightarrow> vkey (data_at h x) = key_of k"
  "0 < sign I h k x \<longleftrightarrow> key_of k < vkey (data_at h x)"
  by (simp_all add: sign_def data_at_def compare_less compare_eq compare_greater)

lemma rb_map_ordered: "rb_map vkey h tree xs \<Longrightarrow> ordered I h xs k"
  unfolding rb_map_def ordered_def sign_iff by (auto elim!: sorted_wrt_mono_rel[rotated])

lemma FindImpl:
  "rb_map vkey h tree xs \<Longrightarrow> RB_FindImpl I h tree k rel = Some (find_spec (sign I h k) rel xs 0)"
  using RB_FindImpl_tree[of h tree xs I k rel] rb_map_ordered[of h tree xs k] unfolding rb_map_def by blast

lemma Find_EQ:
  assumes "rb_map vkey h tree xs"
  shows "RB_Find I h tree k RB_EQ = Some (case rb_abs vkey h xs (key_of k) of None \<Rightarrow> 0 | Some (x, _) \<Rightarrow> x)"
proof -
  have "RB_Find I h tree k RB_EQ = Some (hd1 (filter (\<lambda>x. vkey (data_at h x) = key_of k) xs) 0)"
    using FindImpl[OF assms, of k] by (simp add: RB_Find_def sign_iff)
  moreover have "hd1 (filter (\<lambda>x. vkey (data_at h x) = key_of k) xs) 0
      = (case rb_abs vkey h xs (key_of k) of None \<Rightarrow> 0 | Some (x, _) \<Rightarrow> x)"
    unfolding rb_abs_def by (induction xs) auto
  ultimately show ?thesis by simp
qed

lemma Find_LT:
  assumes "rb_map vkey h tree xs"
  shows "RB_Find I h tree k RB_LT = Some (last1 (filter (\<lambda>x. vkey (data_at h x) < key_of k) xs) 0)"
  using FindImpl[OF assms, of k] by (simp add: RB_Find_def sign_iff)

lemma Find_GE:
  assumes "rb_map vkey h tree xs"
  shows "RB_Find I h tree k RB_GE = Some (hd1 (filter (\<lambda>x. key_of k \<le> vkey (data_at h x)) xs) 0)"
proof -
  have "0 \<le> sign I h k x \<longleftrightarrow> key_of k \<le> vkey (data_at h x)" for x using sign_iff(1)[of h k x] by (metis not_le)
  then show ?thesis using FindImpl[OF assms, of k] by (simp add: RB_Find_def)
qed

lemma Insert_new:
  assumes t: "rb_map vkey h tree xs" and new: "rb_abs vkey h xs (key_of k) = None"
    and a: "a \<noteq> 0" "a \<noteq> HEAD" "h a = None" "h HEAD = None" and v: "INIT_VALUE_func I k = Some v"
  obtains h' tree' us vs where "RB_Insert I h tree k a = Some (h', tree', a)" "xs = us @ vs"
    "rb_map vkey h' tree' (us @ a # vs)" "data_at h' a = v" "rb_abs vkey h' (us @ a # vs) = (rb_abs vkey h xs)(key_of k \<mapsto> (a, v))"
    "\<And>x. x \<in> set xs \<Longrightarrow> data_at h' x = data_at h x" "\<And>x. x \<notin> insert a (set xs) \<Longrightarrow> h' x = h x"
proof -
  have ns: "\<forall>x \<in> set xs. sign I h k x \<noteq> 0" using new by (simp add: rb_abs_None sign_iff)
  have "COMPARE_VALUE_func I v k = 0" using init_key[OF v] by (simp add: compare_eq)
  note cv = this
  have t': "rb_tree h tree xs" using t by (simp add: rb_map_def)
  from RB_Insert_new[OF t' rb_map_ordered[OF t] ns a v cv] obtain h' tree' where
    i: "RB_Insert I h tree k a = Some (h', tree', a)"
    "rb_tree h' tree' (filter (\<lambda>x. sign I h k x < 0) xs @ a # filter (\<lambda>x. 0 < sign I h k x) xs)"
    "map_option rdata (h' a) = Some v" "\<And>x. x \<noteq> a \<Longrightarrow> map_option rdata (h' x) = map_option rdata (h x)"
    "\<And>x. x \<notin> insert a (set xs) \<Longrightarrow> h' x = h x" by blast
  let ?us = "filter (\<lambda>x. vkey (data_at h x) < key_of k) xs" and ?vs = "filter (\<lambda>x. key_of k < vkey (data_at h x)) xs"
  have xs: "xs = ?us @ ?vs"
    by (rule sorted_filter_split) (use t new in \<open>auto simp: rb_map_def rb_abs_None\<close>)
  then have sx: "set (?us @ ?vs) = set xs" by (rule arg_cong[OF sym])
  have d: "data_at h' x = data_at h x" if "x \<in> set xs" for x
  proof -
    have "x \<noteq> a" using rb_map_dom[OF t that] a(3) by auto
    from data_at_cong[of h' x h, OF i(4)[OF this] rb_map_dom[OF t that]] show ?thesis .
  qed
  have v': "data_at h' a = v" using i(3) by (auto simp: data_at_def)
  have m: "rb_map vkey h' tree' (?us @ a # ?vs)"
    unfolding rb_map_def
  proof
    show "rb_tree h' tree' (?us @ a # ?vs)" using i(2) by (simp add: sign_iff)
    have "sorted_wrt (\<lambda>x y. vkey (data_at h x) < vkey (data_at h y)) (?us @ ?vs)"
      unfolding xs[symmetric] using t by (simp add: rb_map_def)
    then have "sorted_wrt (\<lambda>x y. vkey (data_at h' x) < vkey (data_at h' y)) (?us @ ?vs)"
      by (rule sorted_wrt_mono_rel[rotated]) (auto simp: d)
    then show "sorted_wrt (\<lambda>x y. vkey (data_at h' x) < vkey (data_at h' y)) (?us @ a # ?vs)"
      by (auto simp: sorted_wrt_append v' d init_key[OF v])
  qed
  have "rb_abs vkey h' (?us @ a # ?vs) = (rb_abs vkey h xs)(key_of k \<mapsto> (a, v))"
  proof
    fix y
    show "rb_abs vkey h' (?us @ a # ?vs) y = ((rb_abs vkey h xs)(key_of k \<mapsto> (a, v))) y"
    proof (cases "y = key_of k")
      case True
      then show ?thesis using rb_abs_Some[OF m, of y a v] v' init_key[OF v] by simp
    next
      case False
      have "rb_abs vkey h' (?us @ a # ?vs) y = Some (x, w) \<longleftrightarrow> rb_abs vkey h xs y = Some (x, w)" for x w
      proof (cases "x \<in> set xs")
        case True
        then have "x \<in> set (?us @ a # ?vs)" using sx by auto
        with True show ?thesis unfolding rb_abs_Some[OF m] rb_abs_Some[OF t] using d[OF True] by simp
      next
        case nx: False
        then have "x \<notin> set (?us @ ?vs)" using sx by simp
        with nx show ?thesis unfolding rb_abs_Some[OF m] rb_abs_Some[OF t] using False v' init_key[OF v] by auto
      qed
      then have "rb_abs vkey h' (?us @ a # ?vs) y = rb_abs vkey h xs y" by (rule option_pair_eqI)
      then show ?thesis using False by simp
    qed
  qed
  with i(1) xs m v' show thesis using d i(5) by (rule that[of h' tree' ?us ?vs])
qed

lemma Insert_dup:
  assumes t: "rb_map vkey h tree xs" and dup: "rb_abs vkey h xs (key_of k) \<noteq> None"
    and a: "a \<noteq> 0" "a \<noteq> HEAD" "h a = None" "h HEAD = None" and v: "INIT_VALUE_func I k = Some v"
  obtains h' tree' where "RB_Insert I h tree k a = Some (h', tree', 0)" "rb_map vkey h' tree' xs"
    "rb_abs vkey h' xs = rb_abs vkey h xs"
    "\<And>x. x \<in> set xs \<Longrightarrow> data_at h' x = data_at h x" "\<And>x. x \<notin> set xs \<Longrightarrow> h' x = h x"
proof -
  have t': "rb_tree h tree xs" using t by (simp add: rb_map_def)
  have d: "\<exists>x \<in> set xs. sign I h k x = 0" using dup by (simp add: rb_abs_None sign_iff)
  have "COMPARE_VALUE_func I v k = 0" using init_key[OF v] by (simp add: compare_eq)
  from RB_Insert_dup[OF t' rb_map_ordered[OF t] d a v this] obtain h' tree' where
    i: "RB_Insert I h tree k a = Some (h', tree', 0)" "rb_tree h' tree' xs"
    "\<And>x. map_option rdata (h' x) = map_option rdata (h x)" "\<And>x. x \<notin> set xs \<Longrightarrow> h' x = h x" by blast
  have d: "data_at h' x = data_at h x" if "x \<in> set xs" for x
    by (rule data_at_cong[of h' x h, OF i(3) rb_map_dom[OF t that]])
  from i(1) rb_map_cong[OF t i(2) d] d i(4) show thesis by (rule that)
qed

lemma Remove:
  assumes t: "rb_map vkey h tree xs" and hd: "h HEAD = None"
  obtains h' tree' where "RB_Remove I h tree k = Some (h', tree', True)"
    "rb_map vkey h' tree' (filter (\<lambda>x. vkey (data_at h x) \<noteq> key_of k) xs)"
    "rb_abs vkey h' (filter (\<lambda>x. vkey (data_at h x) \<noteq> key_of k) xs) = (rb_abs vkey h xs)(key_of k := None)"
    "\<And>x. x \<in> set xs \<Longrightarrow> vkey (data_at h x) \<noteq> key_of k \<Longrightarrow> data_at h' x = data_at h x"
    "\<And>x. x \<in> set xs \<Longrightarrow> vkey (data_at h x) = key_of k \<Longrightarrow> h' x = None"
    "\<And>x. x \<notin> set xs \<Longrightarrow> h' x = h x"
proof -
  have t': "rb_tree h tree xs" using t by (simp add: rb_map_def)
  let ?xs = "filter (\<lambda>x. vkey (data_at h x) \<noteq> key_of k) xs"
  from RB_Remove_spec[OF t' rb_map_ordered[OF t] hd, of k] obtain h' tree' where
    r: "RB_Remove I h tree k = Some (h', tree', True)" "rb_tree h' tree' ?xs"
    "\<And>x. x \<in> set xs \<Longrightarrow> vkey (data_at h x) \<noteq> key_of k \<Longrightarrow> map_option rdata (h' x) = map_option rdata (h x)"
    "\<And>x. x \<in> set xs \<Longrightarrow> vkey (data_at h x) = key_of k \<Longrightarrow> h' x = None" "\<And>x. x \<notin> set xs \<Longrightarrow> h' x = h x"
    unfolding sign_iff by blast
  have d: "data_at h' x = data_at h x" if "x \<in> set xs" "vkey (data_at h x) \<noteq> key_of k" for x
    by (rule data_at_cong[of h' x h, OF r(3)[OF that] rb_map_dom[OF t that(1)]])
  have "sorted_wrt (\<lambda>x y. vkey (data_at h x) < vkey (data_at h y)) ?xs"
    using t by (simp add: rb_map_def sorted_wrt_filter)
  then have "sorted_wrt (\<lambda>x y. vkey (data_at h' x) < vkey (data_at h' y)) ?xs"
    by (rule sorted_wrt_mono_rel[rotated]) (auto simp: d)
  then have m: "rb_map vkey h' tree' ?xs" using r(2) by (simp add: rb_map_def)
  have "rb_abs vkey h' ?xs y = ((rb_abs vkey h xs)(key_of k := None)) y" for y
  proof (rule option_pair_eqI)
    fix x w
    show "rb_abs vkey h' ?xs y = Some (x, w) \<longleftrightarrow> ((rb_abs vkey h xs)(key_of k := None)) y = Some (x, w)"
      using d[of x] rb_abs_Some[OF m, of y x w] rb_abs_Some[OF t, of y x w] by auto
  qed
  then have "rb_abs vkey h' ?xs = (rb_abs vkey h xs)(key_of k := None)" by blast
  with r(1) m show thesis using d r(4,5) by (rule that)
qed

end

section \<open>The operations as operations on maps\<close>

text \<open>C7: \<open>RB_Insert\<close> on a tree of ordered values with a fresh address implements the insertion into
  a map: a key that is present is refused with a null result and no value changes; a new key is
  mapped to the new node. The result is again a red-black tree in key order and no node
  outside of the tree changes.\<close>

theorem RB_Insert_refines:
  assumes "rb_order I vkey key_of" "rb_map vkey h tree xs"
    and "a \<noteq> 0" "a \<noteq> HEAD" "h a = None" "h HEAD = None" "INIT_VALUE_func I k = Some v"
  shows "\<exists>h' tree' xs'.
    RB_Insert I h tree k a = Some (h', tree', if rb_abs vkey h xs (key_of k) = None then a else 0) \<and>
    rb_map vkey h' tree' xs' \<and>
    rb_abs vkey h' xs' = (if rb_abs vkey h xs (key_of k) = None then (rb_abs vkey h xs)(key_of k \<mapsto> (a, v)) else rb_abs vkey h xs) \<and>
    (\<forall>x. x \<notin> insert a (set xs) \<longrightarrow> h' x = h x)"
proof (cases "rb_abs vkey h xs (key_of k) = None")
  case True
  obtain h' tree' us vs where "RB_Insert I h tree k a = Some (h', tree', a)"
    "rb_map vkey h' tree' (us @ a # vs)" "rb_abs vkey h' (us @ a # vs) = (rb_abs vkey h xs)(key_of k \<mapsto> (a, v))"
    "\<And>x. x \<notin> insert a (set xs) \<Longrightarrow> h' x = h x"
    by (rule rb_order.Insert_new[OF assms(1,2) True assms(3-)]) blast
  with True show ?thesis by (intro exI[of _ h'] exI[of _ tree'] exI[of _ "us @ a # vs"]) simp
next
  case False
  obtain h' tree' where "RB_Insert I h tree k a = Some (h', tree', 0)" "rb_map vkey h' tree' xs"
    "rb_abs vkey h' xs = rb_abs vkey h xs" "\<And>x. x \<notin> set xs \<Longrightarrow> h' x = h x"
    by (rule rb_order.Insert_dup[OF assms(1,2) False assms(3-)]) blast
  with False show ?thesis by (intro exI[of _ h'] exI[of _ tree'] exI[of _ xs]) (simp only: if_False, simp)
qed

text \<open>C8: \<open>RB_Remove\<close> implements the removal from a map: afterwards the key is absent, its node is
  freed, every other key keeps its node and value, and the result is again a red-black tree in
  key order. It returns true whether or not the key was present.\<close>

theorem RB_Remove_refines:
  assumes "rb_order I vkey key_of" "rb_map vkey h tree xs" "h HEAD = None"
  shows "\<exists>h' tree' xs'.
    RB_Remove I h tree k = Some (h', tree', True) \<and> rb_map vkey h' tree' xs' \<and>
    rb_abs vkey h' xs' = (rb_abs vkey h xs)(key_of k := None) \<and>
    (\<forall>x v. rb_abs vkey h xs (key_of k) = Some (x, v) \<longrightarrow> h' x = None) \<and>
    (\<forall>x. x \<notin> set xs \<longrightarrow> h' x = h x)"
proof -
  let ?xs = "filter (\<lambda>x. vkey (data_at h x) \<noteq> key_of k) xs"
  obtain h' tree' where r: "RB_Remove I h tree k = Some (h', tree', True)" "rb_map vkey h' tree' ?xs"
    "rb_abs vkey h' ?xs = (rb_abs vkey h xs)(key_of k := None)"
    "\<And>x. x \<in> set xs \<Longrightarrow> vkey (data_at h x) = key_of k \<Longrightarrow> h' x = None" "\<And>x. x \<notin> set xs \<Longrightarrow> h' x = h x"
    by (rule rb_order.Remove[OF assms, of k]) blast
  with rb_abs_Some[OF assms(2)] show ?thesis
    by (intro exI[of _ h'] exI[of _ tree'] exI[of _ ?xs]) simp
qed

text \<open>C9: \<open>RB_Find\<close> returns the node of the key for \<open>RB_EQ\<close>, the node with the greatest smaller key for
  \<open>RB_LT\<close> and the one with the least key that is not smaller for \<open>RB_GE\<close>, and null when there is
  none.\<close>

theorem RB_Find_correct:
  assumes "rb_order I vkey key_of" "rb_map vkey h tree xs"
  shows "\<exists>x. RB_Find I h tree k rel = Some x \<and>
    (if x = 0 then \<forall>y \<in> set xs. (case rel of RB_EQ \<Rightarrow> vkey (data_at h y) \<noteq> key_of k
         | RB_LT \<Rightarrow> key_of k \<le> vkey (data_at h y) | RB_GE \<Rightarrow> vkey (data_at h y) < key_of k)
     else x \<in> set xs \<and> (case rel of RB_EQ \<Rightarrow> vkey (data_at h x) = key_of k
         | RB_LT \<Rightarrow> vkey (data_at h x) < key_of k \<and>
             (\<forall>y \<in> set xs. vkey (data_at h y) < key_of k \<longrightarrow> vkey (data_at h y) \<le> vkey (data_at h x))
         | RB_GE \<Rightarrow> key_of k \<le> vkey (data_at h x) \<and>
             (\<forall>y \<in> set xs. key_of k \<le> vkey (data_at h y) \<longrightarrow> vkey (data_at h x) \<le> vkey (data_at h y))))"
proof -
  have ne: "x \<noteq> 0" if "x \<in> set xs" for x using assms(2) that unfolding rb_map_def rb_tree_def by metis
  note so = assms(2)[unfolded rb_map_def, THEN conjunct2]
  show ?thesis
  proof (cases rel)
    case RB_EQ
    show ?thesis
    proof (cases "rb_abs vkey h xs (key_of k)")
      case None
      then show ?thesis
        using rb_order.Find_EQ[OF assms, of k] RB_EQ None[unfolded rb_abs_None] by simp
    next
      case (Some xv)
      then obtain x v where xv: "rb_abs vkey h xs (key_of k) = Some (x, v)" by (cases xv) auto
      then have "x \<in> set xs" "vkey (data_at h x) = key_of k" using rb_abs_Some[OF assms(2)] by blast+
      then show ?thesis using rb_order.Find_EQ[OF assms, of k] RB_EQ ne[of x] xv by simp
    qed
  next
    case RB_LT
    let ?ys = "filter (\<lambda>x. vkey (data_at h x) < key_of k) xs"
    show ?thesis
    proof (cases ?ys rule: rev_cases)
      case Nil
      then show ?thesis using rb_order.Find_LT[OF assms, of k] RB_LT by (simp add: filter_empty_conv not_less)
    next
      case (snoc ys x)
      have "sorted_wrt (\<lambda>x y. vkey (data_at h x) < vkey (data_at h y)) ?ys" using so by (rule sorted_wrt_filter)
      then have le: "\<forall>y \<in> set ?ys. vkey (data_at h y) \<le> vkey (data_at h x)"
        unfolding snoc by (auto simp: sorted_wrt_append)
      have "x \<in> set ?ys" unfolding snoc by simp
      then have "x \<in> set xs" "vkey (data_at h x) < key_of k" by simp_all
      moreover have "RB_Find I h tree k RB_LT = Some x" using rb_order.Find_LT[OF assms, of k] snoc by simp
      ultimately show ?thesis using le ne[of x] RB_LT by simp
    qed
  next
    case RB_GE
    let ?ys = "filter (\<lambda>x. key_of k \<le> vkey (data_at h x)) xs"
    show ?thesis
    proof (cases ?ys)
      case Nil
      then show ?thesis using rb_order.Find_GE[OF assms, of k] RB_GE by (simp add: filter_empty_conv not_le)
    next
      case (Cons x ys)
      have "sorted_wrt (\<lambda>x y. vkey (data_at h x) < vkey (data_at h y)) ?ys" using so by (rule sorted_wrt_filter)
      then have le: "\<forall>y \<in> set ?ys. vkey (data_at h x) \<le> vkey (data_at h y)"
        unfolding Cons by (auto simp: less_imp_le)
      have "x \<in> set ?ys" unfolding Cons by simp
      then have "x \<in> set xs" "key_of k \<le> vkey (data_at h x)" by simp_all
      moreover have "RB_Find I h tree k RB_GE = Some x" using rb_order.Find_GE[OF assms, of k] Cons by simp
      ultimately show ?thesis using le ne[of x] RB_GE by simp
    qed
  qed
qed

text \<open>C10: Starting at \<open>RB_First\<close>, \<open>RB_Iterator_Next\<close> visits the nodes of a tree in the order of their
  keys and then reports the end.\<close>

theorem RB_Iterator_in_order:
  assumes "rb_map vkey h tree xs" "i < length xs"
  shows "RB_First tree = hd xs \<and> RB_Last tree = last xs \<and>
    RB_Iterator_Next h (xs ! i) = Some (if Suc i = length xs then (xs ! i, False) else (xs ! Suc i, True)) \<and>
    (Suc i < length xs \<longrightarrow> vkey (data_at h (xs ! i)) < vkey (data_at h (xs ! Suc i)))"
proof -
  have t: "rb_tree h tree (take i xs @ xs ! i # drop (Suc i) xs)"
    using assms by (simp add: rb_map_def id_take_nth_drop[symmetric])
  have "RB_First tree = hd xs" "RB_Last tree = last xs"
    using assms by (auto simp: rb_map_def rb_tree_def chained_def RB_First_def RB_Last_def)
  moreover have "drop (Suc i) xs = [] \<longleftrightarrow> Suc i = length xs" "Suc i < length xs \<Longrightarrow> hd (drop (Suc i) xs) = xs ! Suc i"
    using assms(2) by (auto simp: hd_drop_conv_nth)
  moreover have "Suc i < length xs \<Longrightarrow> vkey (data_at h (xs ! i)) < vkey (data_at h (xs ! Suc i))"
    using assms(1) by (simp add: rb_map_def sorted_wrt_iff_nth_less)
  ultimately show ?thesis using RB_Iterator_Next_tree[OF t] assms(2) by auto
qed




section \<open>A concrete tree\<close>

text \<open>The instance of the template in \<open>src/src/lib/tests/rbtree-test.c\<close>, integers that are their own keys,
  and a tree with the one value 5 at address 2.\<close>

definition RB_int :: "(int, int) RBTreeImpl" where
  "RB_int = \<lparr>INIT_VALUE_func = Some, COMPARE_VALUE_func = (\<lambda>val key. val - key), ZERO_VALUE = 0\<rparr>"

interpretation int_tree: rb_order RB_int "\<lambda>v. v" "\<lambda>k. k"
  by unfold_locales (auto simp: RB_int_def)

definition one_heap :: "int RB_node_t heap" where
  "one_heap = [2 \<mapsto> \<lparr>rdata = 5, red = False, link = (\<lambda>_. 0), rnext = 0, rprev = 0\<rparr>]"

definition one_tree :: RB_t where
  "one_tree = \<lparr>root = 2, rsize = 1, rfirst = 2, rlast = 2\<rparr>"

lemma one_map: "rb_map (\<lambda>v. v) one_heap one_tree [2]" "one_heap 3 = None" "one_heap HEAD = None"
  "rb_abs (\<lambda>v. v) one_heap [2] = [5 \<mapsto> (2, 5)]" "(3 :: addr) \<noteq> 0" "3 \<noteq> HEAD" "RB_int = RB_int"
  by (auto simp: rb_map_def rb_tree_def chained_def one_heap_def one_tree_def HEAD_def nxt_def prv_def
      rb_abs_def data_at_def intro!: exI[of _ "Nd Lf 2 False Lf"])

theorem RB_Insert_refines_witness:
  "\<exists>h' tree' xs'. RB_Insert RB_int one_heap one_tree 7 3 = Some (h', tree', 3) \<and>
     rb_map (\<lambda>v. v) h' tree' xs' \<and> rb_abs (\<lambda>v. v) h' xs' = [5 \<mapsto> (2, 5), 7 \<mapsto> (3, 7)]"
  using RB_Insert_refines[OF int_tree.rb_order_axioms one_map(1,5,6,2,3), of 7 7] one_map(4)
  by (fastforce simp: RB_int_def)

theorem RB_Remove_refines_witness:
  "\<exists>h' tree' xs'. RB_Remove RB_int one_heap one_tree 5 = Some (h', tree', True) \<and>
     rb_map (\<lambda>v. v) h' tree' xs' \<and> rb_abs (\<lambda>v. v) h' xs' = Map.empty \<and> h' 2 = None"
  using RB_Remove_refines[OF int_tree.rb_order_axioms one_map(1,3), of 5] one_map(4) by fastforce

theorem RB_Find_correct_witness: "RB_Find RB_int one_heap one_tree 4 RB_GE = Some 2"
  using RB_Find_correct[OF int_tree.rb_order_axioms one_map(1), of 4 RB_GE]
  by (auto simp: data_at_def one_heap_def split: if_splits)

theorem RB_Iterator_in_order_witness: "RB_First one_tree = 2 \<and> RB_Iterator_Next one_heap 2 = Some (2, False)"
  using RB_Iterator_in_order[OF one_map(1), of 0] by simp


end
