(* ===== verification/Hash.thy ===== *)
theory Hash
  imports TxPrelude
begin

text \<open>
  Bob Jenkins' hash: \<open>src/src/lib/lookup3.c\<close> and \<open>src/src/lib/hash.h\<close>.

  A key is read through its address: \<open>k i\<close> is the byte at offset \<open>i\<close> from the start of the key,
  also past its end, because the aligned variants read whole words and mask off the rest. The
  32-bit and 16-bit reads are the ones of a little-endian machine in \<open>hashlittle\<close> and of a
  big-endian machine in \<open>hashbig\<close>. The three ways to read the key give the same hash.
\<close>

unbundle bit_operations_syntax

type_synonym u32 = "32 word"
type_synonym key_mem = "nat \<Rightarrow> byte"
type_synonym abc = "u32 \<times> u32 \<times> u32"

section \<open>Mixing\<close>

definition rot :: "u32 \<Rightarrow> nat \<Rightarrow> u32" where
  "rot x k = push_bit k x OR drop_bit (32 - k) x"

text \<open>One line \<open>x -= z; x ^= rot(z, k); z += y\<close> of the macro \<open>mix\<close>.\<close>

definition mix_line :: "nat \<Rightarrow> abc \<Rightarrow> abc" where
  "mix_line k = (\<lambda>(x, y, z). let x = x - z; x = x XOR rot z k; z = z + y in (x, y, z))"

definition mix :: "abc \<Rightarrow> abc" where
  "mix = (\<lambda>(a, b, c).
     let (a, b, c) = mix_line 4 (a, b, c);
         (b, c, a) = mix_line 6 (b, c, a);
         (c, a, b) = mix_line 8 (c, a, b);
         (a, b, c) = mix_line 16 (a, b, c);
         (b, c, a) = mix_line 19 (b, c, a);
         (c, a, b) = mix_line 4 (c, a, b)
     in (a, b, c))"

definition final :: "abc \<Rightarrow> abc" where
  "final = (\<lambda>(a, b, c).
     let c = c XOR b; c = c - rot b 14;
         a = a XOR c; a = a - rot c 11;
         b = b XOR a; b = b - rot a 25;
         c = c XOR b; c = c - rot b 16;
         a = a XOR c; a = a - rot c 4;
         b = b XOR a; b = b - rot a 14;
         c = c XOR b; c = c - rot b 24
     in (a, b, c))"

definition hash_start :: "nat \<Rightarrow> u32 \<Rightarrow> abc" where
  "hash_start len initval = (let x = 0xdeadbeef + of_nat len + initval in (x, x, x))"

text \<open>The end of a hash: without a last block there is no final mixing.\<close>

definition hash_end :: "u32 \<Rightarrow> abc option \<Rightarrow> u32" where
  "hash_end c0 last_block = (case last_block of None \<Rightarrow> c0 | Some s \<Rightarrow> snd (snd (final s)))"

section \<open>Reading the key\<close>

definition sh :: "byte \<Rightarrow> nat \<Rightarrow> u32" where
  "sh x n = push_bit n (ucast x)"

definition le32 :: "key_mem \<Rightarrow> nat \<Rightarrow> u32" where
  "le32 k i = sh (k (4 * i)) 0 + sh (k (4 * i + 1)) 8 + sh (k (4 * i + 2)) 16 + sh (k (4 * i + 3)) 24"

definition le16 :: "key_mem \<Rightarrow> nat \<Rightarrow> u32" where
  "le16 k i = sh (k (2 * i)) 0 + sh (k (2 * i + 1)) 8"

definition be32 :: "key_mem \<Rightarrow> nat \<Rightarrow> u32" where
  "be32 k i = sh (k (4 * i)) 24 + sh (k (4 * i + 1)) 16 + sh (k (4 * i + 2)) 8 + sh (k (4 * i + 3)) 0"

definition skip12 :: "key_mem \<Rightarrow> key_mem" where
  "skip12 k = (\<lambda>i. k (i + 12))"

section \<open>hashlittle\<close>

function hl32_loop :: "key_mem \<Rightarrow> nat \<Rightarrow> abc \<Rightarrow> key_mem \<times> nat \<times> abc" where
  "hl32_loop k len (a, b, c) =
     (if len > 12
      then hl32_loop (skip12 k) (len - 12) (mix (a + le32 k 0, b + le32 k 1, c + le32 k 2))
      else (k, len, (a, b, c)))"
  by pat_completeness auto

termination by (relation "measure (\<lambda>(k, len, s). len)") auto

text \<open>The last block; \<open>None\<close> is the return of \<open>c\<close> for an empty rest.\<close>

definition hl32_last :: "key_mem \<Rightarrow> nat \<Rightarrow> abc \<Rightarrow> abc option" where
  "hl32_last k len = (\<lambda>(a, b, c).
     if len = 12 then Some (a + le32 k 0, b + le32 k 1, c + le32 k 2)
     else if len = 11 then Some (a + le32 k 0, b + le32 k 1, c + (le32 k 2 AND 0xffffff))
     else if len = 10 then Some (a + le32 k 0, b + le32 k 1, c + (le32 k 2 AND 0xffff))
     else if len = 9 then Some (a + le32 k 0, b + le32 k 1, c + (le32 k 2 AND 0xff))
     else if len = 8 then Some (a + le32 k 0, b + le32 k 1, c)
     else if len = 7 then Some (a + le32 k 0, b + (le32 k 1 AND 0xffffff), c)
     else if len = 6 then Some (a + le32 k 0, b + (le32 k 1 AND 0xffff), c)
     else if len = 5 then Some (a + le32 k 0, b + (le32 k 1 AND 0xff), c)
     else if len = 4 then Some (a + le32 k 0, b, c)
     else if len = 3 then Some (a + (le32 k 0 AND 0xffffff), b, c)
     else if len = 2 then Some (a + (le32 k 0 AND 0xffff), b, c)
     else if len = 1 then Some (a + (le32 k 0 AND 0xff), b, c)
     else None)"

text \<open>The variant of the last block for \<open>VALGRIND\<close>, which reads no byte past the end. A case adds
  its byte and falls through.\<close>

definition hl32_last_valgrind :: "key_mem \<Rightarrow> nat \<Rightarrow> abc \<Rightarrow> abc option" where
  "hl32_last_valgrind k len = (\<lambda>(a, b, c).
     if len = 12 then Some (a + le32 k 0, b + le32 k 1, c + le32 k 2)
     else if 8 \<le> len \<and> len \<le> 11 then
       let c = (if len \<ge> 11 then c + sh (k 10) 16 else c);
           c = (if len \<ge> 10 then c + sh (k 9) 8 else c);
           c = (if len \<ge> 9 then c + sh (k 8) 0 else c)
       in Some (a + le32 k 0, b + le32 k 1, c)
     else if 4 \<le> len \<and> len \<le> 7 then
       let b = (if len \<ge> 7 then b + sh (k 6) 16 else b);
           b = (if len \<ge> 6 then b + sh (k 5) 8 else b);
           b = (if len \<ge> 5 then b + sh (k 4) 0 else b)
       in Some (a + le32 k 0, b, c)
     else if 1 \<le> len \<and> len \<le> 3 then
       let a = (if len \<ge> 3 then a + sh (k 2) 16 else a);
           a = (if len \<ge> 2 then a + sh (k 1) 8 else a)
       in Some (a + sh (k 0) 0, b, c)
     else None)"

function hl16_loop :: "key_mem \<Rightarrow> nat \<Rightarrow> abc \<Rightarrow> key_mem \<times> nat \<times> abc" where
  "hl16_loop k len (a, b, c) =
     (if len > 12
      then hl16_loop (skip12 k) (len - 12)
             (mix (a + (le16 k 0 + push_bit 16 (le16 k 1)), b + (le16 k 2 + push_bit 16 (le16 k 3)),
                   c + (le16 k 4 + push_bit 16 (le16 k 5))))
      else (k, len, (a, b, c)))"
  by pat_completeness auto

termination by (relation "measure (\<lambda>(k, len, s). len)") auto

definition hl16_last :: "key_mem \<Rightarrow> nat \<Rightarrow> abc \<Rightarrow> abc option" where
  "hl16_last k len = (\<lambda>(a, b, c).
     let w0 = le16 k 0 + push_bit 16 (le16 k 1);
         w1 = le16 k 2 + push_bit 16 (le16 k 3)
     in if len = 12 then Some (a + w0, b + w1, c + (le16 k 4 + push_bit 16 (le16 k 5)))
        else if len = 11 then Some (a + w0, b + w1, c + sh (k 10) 16 + le16 k 4)
        else if len = 10 then Some (a + w0, b + w1, c + le16 k 4)
        else if len = 9 then Some (a + w0, b + w1, c + sh (k 8) 0)
        else if len = 8 then Some (a + w0, b + w1, c)
        else if len = 7 then Some (a + w0, b + sh (k 6) 16 + le16 k 2, c)
        else if len = 6 then Some (a + w0, b + le16 k 2, c)
        else if len = 5 then Some (a + w0, b + sh (k 4) 0, c)
        else if len = 4 then Some (a + w0, b, c)
        else if len = 3 then Some (a + sh (k 2) 16 + le16 k 0, b, c)
        else if len = 2 then Some (a + le16 k 0, b, c)
        else if len = 1 then Some (a + sh (k 0) 0, b, c)
        else None)"

function hl8_loop :: "key_mem \<Rightarrow> nat \<Rightarrow> abc \<Rightarrow> key_mem \<times> nat \<times> abc" where
  "hl8_loop k len (a, b, c) =
     (if len > 12
      then hl8_loop (skip12 k) (len - 12)
             (mix (a + sh (k 0) 0 + sh (k 1) 8 + sh (k 2) 16 + sh (k 3) 24,
                   b + sh (k 4) 0 + sh (k 5) 8 + sh (k 6) 16 + sh (k 7) 24,
                   c + sh (k 8) 0 + sh (k 9) 8 + sh (k 10) 16 + sh (k 11) 24))
      else (k, len, (a, b, c)))"
  by pat_completeness auto

termination by (relation "measure (\<lambda>(k, len, s). len)") auto

text \<open>All the cases of the last block fall through: case \<open>n\<close> adds byte \<open>n - 1\<close>.\<close>

definition hl8_last :: "key_mem \<Rightarrow> nat \<Rightarrow> abc \<Rightarrow> abc option" where
  "hl8_last k len = (\<lambda>(a, b, c).
     let add = (\<lambda>n x s. if len \<ge> n then x + sh (k (n - 1)) s else x);
         c = add 12 c 24; c = add 11 c 16; c = add 10 c 8; c = add 9 c 0;
         b = add 8 b 24; b = add 7 b 16; b = add 6 b 8; b = add 5 b 0;
         a = add 4 a 24; a = add 3 a 16; a = add 2 a 8; a = add 1 a 0
     in if len = 0 then None else Some (a, b, c))"

text \<open>\<open>u\<close> is the address of the key.\<close>

definition hashlittle :: "nat \<Rightarrow> key_mem \<Rightarrow> nat \<Rightarrow> u32 \<Rightarrow> u32" where
  "hashlittle u key len initval =
     (let s = hash_start len initval in
      if u mod 4 = 0 then
        (case hl32_loop key len s of (k, n, s) \<Rightarrow> hash_end (snd (snd s)) (hl32_last k n s))
      else if u mod 2 = 0 then
        (case hl16_loop key len s of (k, n, s) \<Rightarrow> hash_end (snd (snd s)) (hl16_last k n s))
      else
        (case hl8_loop key len s of (k, n, s) \<Rightarrow> hash_end (snd (snd s)) (hl8_last k n s)))"

section \<open>hashbig\<close>

function hb32_loop :: "key_mem \<Rightarrow> nat \<Rightarrow> abc \<Rightarrow> key_mem \<times> nat \<times> abc" where
  "hb32_loop k len (a, b, c) =
     (if len > 12
      then hb32_loop (skip12 k) (len - 12) (mix (a + be32 k 0, b + be32 k 1, c + be32 k 2))
      else (k, len, (a, b, c)))"
  by pat_completeness auto

termination by (relation "measure (\<lambda>(k, len, s). len)") auto

definition hb32_last :: "key_mem \<Rightarrow> nat \<Rightarrow> abc \<Rightarrow> abc option" where
  "hb32_last k len = (\<lambda>(a, b, c).
     if len = 12 then Some (a + be32 k 0, b + be32 k 1, c + be32 k 2)
     else if len = 11 then Some (a + be32 k 0, b + be32 k 1, c + (be32 k 2 AND 0xffffff00))
     else if len = 10 then Some (a + be32 k 0, b + be32 k 1, c + (be32 k 2 AND 0xffff0000))
     else if len = 9 then Some (a + be32 k 0, b + be32 k 1, c + (be32 k 2 AND 0xff000000))
     else if len = 8 then Some (a + be32 k 0, b + be32 k 1, c)
     else if len = 7 then Some (a + be32 k 0, b + (be32 k 1 AND 0xffffff00), c)
     else if len = 6 then Some (a + be32 k 0, b + (be32 k 1 AND 0xffff0000), c)
     else if len = 5 then Some (a + be32 k 0, b + (be32 k 1 AND 0xff000000), c)
     else if len = 4 then Some (a + be32 k 0, b, c)
     else if len = 3 then Some (a + (be32 k 0 AND 0xffffff00), b, c)
     else if len = 2 then Some (a + (be32 k 0 AND 0xffff0000), b, c)
     else if len = 1 then Some (a + (be32 k 0 AND 0xff000000), b, c)
     else None)"

function hb8_loop :: "key_mem \<Rightarrow> nat \<Rightarrow> abc \<Rightarrow> key_mem \<times> nat \<times> abc" where
  "hb8_loop k len (a, b, c) =
     (if len > 12
      then hb8_loop (skip12 k) (len - 12)
             (mix (a + sh (k 0) 24 + sh (k 1) 16 + sh (k 2) 8 + sh (k 3) 0,
                   b + sh (k 4) 24 + sh (k 5) 16 + sh (k 6) 8 + sh (k 7) 0,
                   c + sh (k 8) 24 + sh (k 9) 16 + sh (k 10) 8 + sh (k 11) 0))
      else (k, len, (a, b, c)))"
  by pat_completeness auto

termination by (relation "measure (\<lambda>(k, len, s). len)") auto

definition hb8_last :: "key_mem \<Rightarrow> nat \<Rightarrow> abc \<Rightarrow> abc option" where
  "hb8_last k len = (\<lambda>(a, b, c).
     let add = (\<lambda>n x s. if len \<ge> n then x + sh (k (n - 1)) s else x);
         c = add 12 c 0; c = add 11 c 8; c = add 10 c 16; c = add 9 c 24;
         b = add 8 b 0; b = add 7 b 8; b = add 6 b 16; b = add 5 b 24;
         a = add 4 a 0; a = add 3 a 8; a = add 2 a 16; a = add 1 a 24
     in if len = 0 then None else Some (a, b, c))"

text \<open>The aligned variant is only compiled on a big-endian machine.\<close>

definition hashbig :: "bool \<Rightarrow> nat \<Rightarrow> key_mem \<Rightarrow> nat \<Rightarrow> u32 \<Rightarrow> u32" where
  "hashbig HASH_BIG_ENDIAN u key len initval =
     (let s = hash_start len initval in
      if HASH_BIG_ENDIAN \<and> u mod 4 = 0 then
        (case hb32_loop key len s of (k, n, s) \<Rightarrow> hash_end (snd (snd s)) (hb32_last k n s))
      else
        (case hb8_loop key len s of (k, n, s) \<Rightarrow> hash_end (snd (snd s)) (hb8_last k n s)))"

section \<open>The interface\<close>

definition hashsize :: "nat \<Rightarrow> u32" where
  "hashsize n = push_bit n 1"

definition hashmask :: "nat \<Rightarrow> u32" where
  "hashmask n = hashsize n - 1"

text \<open>\<open>hash\<close> on a little-endian machine, on the bytes of a key at address \<open>u\<close>; \<open>mem\<close> are the bytes
  after the key.\<close>

definition hash :: "nat \<Rightarrow> key_mem \<Rightarrow> byte list \<Rightarrow> u32 \<Rightarrow> u32" where
  "hash u mem key initval =
     hashlittle u (\<lambda>i. if i < length key then key ! i else mem i) (length key) initval"

section \<open>Words in bytes\<close>

lemma sh_nat: "sh x n = of_nat (unat x * 2 ^ n)"
  by (simp add: sh_def push_bit_eq_mult)

lemma byte_lt: "unat (x :: byte) < 256"
  using unsigned_less[of x] by simp

definition le_nat :: "nat \<Rightarrow> nat \<Rightarrow> nat \<Rightarrow> nat \<Rightarrow> nat" where
  "le_nat x0 x1 x2 x3 = x0 + x1 * 2 ^ 8 + x2 * 2 ^ 16 + x3 * 2 ^ 24"

lemma and_mask_of_nat: "(of_nat m :: u32) AND mask n = of_nat (m mod 2 ^ n)"
proof -
  have "(of_nat m :: u32) AND mask n = take_bit n (of_nat m)" by (simp add: take_bit_eq_mask)
  also have "\<dots> = of_nat (take_bit n m)" by (rule take_bit_of_nat)
  finally show ?thesis by (simp only: take_bit_eq_mod)
qed

lemma add_mult_mod: "a < b \<Longrightarrow> (a + c * b) mod b = a" for a b c :: nat
  by simp

lemma le_nat_sh: "sh x0 0 + sh x1 8 + sh x2 16 + sh x3 24 = of_nat (le_nat (unat x0) (unat x1) (unat x2) (unat x3))"
  by (simp add: sh_nat le_nat_def)

lemma le_mask:
  "(sh x0 0 + sh x1 8 + sh x2 16 + sh x3 24) AND 0xffffff = sh x0 0 + sh x1 8 + sh x2 16"
  "(sh x0 0 + sh x1 8 + sh x2 16 + sh x3 24) AND 0xffff = sh x0 0 + sh x1 8"
  "(sh x0 0 + sh x1 8 + sh x2 16 + sh x3 24) AND 0xff = sh x0 0"
proof -
  have m: "(0xffffff :: u32) = mask 24" "(0xffff :: u32) = mask 16" "(0xff :: u32) = mask 8"
    by (simp_all add: mask_eq_exp_minus_1)
  have n: "le_nat x0 x1 x2 x3 = (x0 + x1 * 2 ^ 8 + x2 * 2 ^ 16) + x3 * 2 ^ 24"
    "le_nat x0 x1 x2 x3 = (x0 + x1 * 2 ^ 8) + (x2 + x3 * 2 ^ 8) * 2 ^ 16"
    "le_nat x0 x1 x2 x3 = x0 + (x1 + x2 * 2 ^ 8 + x3 * 2 ^ 16) * 2 ^ 8" for x0 x1 x2 x3
    by (simp_all add: le_nat_def)
  note b = byte_lt[of x0] byte_lt[of x1] byte_lt[of x2]
  show "(sh x0 0 + sh x1 8 + sh x2 16 + sh x3 24) AND 0xffffff = sh x0 0 + sh x1 8 + sh x2 16"
    unfolding m le_nat_sh and_mask_of_nat n(1) by (subst add_mult_mod) (use b in \<open>simp_all add: sh_nat\<close>)
  show "(sh x0 0 + sh x1 8 + sh x2 16 + sh x3 24) AND 0xffff = sh x0 0 + sh x1 8"
    unfolding m le_nat_sh and_mask_of_nat n(2) by (subst add_mult_mod) (use b in \<open>simp_all add: sh_nat\<close>)
  show "(sh x0 0 + sh x1 8 + sh x2 16 + sh x3 24) AND 0xff = sh x0 0"
    unfolding m le_nat_sh and_mask_of_nat n(3) by (subst add_mult_mod) (use b in \<open>simp_all add: sh_nat\<close>)
qed

lemma and_not: "x AND NOT w = x - (x AND w)" for x w :: u32
proof -
  have "(x AND w) AND (x AND NOT w) = 0" "(x AND w) OR (x AND NOT w) = x"
    by (auto intro!: bit_eqI simp: bit_simps)
  with word_plus_and_or[of "x AND w" "x AND NOT w"] have "x = (x AND w) + (x AND NOT w)" by simp
  then show ?thesis by (simp add: eq_diff_eq add.commute)
qed

lemma be_mask:
  "(sh x0 24 + sh x1 16 + sh x2 8 + sh x3 0) AND 0xffffff00 = sh x0 24 + sh x1 16 + sh x2 8"
  "(sh x0 24 + sh x1 16 + sh x2 8 + sh x3 0) AND 0xffff0000 = sh x0 24 + sh x1 16"
  "(sh x0 24 + sh x1 16 + sh x2 8 + sh x3 0) AND 0xff000000 = sh x0 24"
proof -
  have m: "(0xffffff00 :: u32) = NOT 0xff" "(0xffff0000 :: u32) = NOT 0xffff" "(0xff000000 :: u32) = NOT 0xffffff"
    by simp_all
  have r: "sh x0 24 + sh x1 16 + sh x2 8 + sh x3 0 = sh x3 0 + sh x2 8 + sh x1 16 + sh x0 24" by (simp add: ac_simps)
  show "(sh x0 24 + sh x1 16 + sh x2 8 + sh x3 0) AND 0xffffff00 = sh x0 24 + sh x1 16 + sh x2 8"
    "(sh x0 24 + sh x1 16 + sh x2 8 + sh x3 0) AND 0xffff0000 = sh x0 24 + sh x1 16"
    "(sh x0 24 + sh x1 16 + sh x2 8 + sh x3 0) AND 0xff000000 = sh x0 24"
    unfolding m and_not r le_mask by simp_all
qed

lemma le32_at:
  "le32 k 0 = sh (k 0) 0 + sh (k 1) 8 + sh (k 2) 16 + sh (k 3) 24"
  "le32 k 1 = sh (k 4) 0 + sh (k 5) 8 + sh (k 6) 16 + sh (k 7) 24"
  "le32 k 2 = sh (k 8) 0 + sh (k 9) 8 + sh (k 10) 16 + sh (k 11) 24"
  by (simp_all add: le32_def numeral_eq_Suc)

lemma be32_at:
  "be32 k 0 = sh (k 0) 24 + sh (k 1) 16 + sh (k 2) 8 + sh (k 3) 0"
  "be32 k 1 = sh (k 4) 24 + sh (k 5) 16 + sh (k 6) 8 + sh (k 7) 0"
  "be32 k 2 = sh (k 8) 24 + sh (k 9) 16 + sh (k 10) 8 + sh (k 11) 0"
  by (simp_all add: be32_def numeral_eq_Suc)

lemma le16_at:
  "le16 k 0 = sh (k 0) 0 + sh (k 1) 8" "le16 k 1 = sh (k 2) 0 + sh (k 3) 8" "le16 k 2 = sh (k 4) 0 + sh (k 5) 8"
  "le16 k 3 = sh (k 6) 0 + sh (k 7) 8" "le16 k 4 = sh (k 8) 0 + sh (k 9) 8" "le16 k 5 = sh (k 10) 0 + sh (k 11) 8"
  by (simp_all add: le16_def numeral_eq_Suc)

lemma sh_push: "push_bit 16 (sh x 0) = sh x 16" "push_bit 16 (sh x 8) = sh x 24"
  by (simp_all add: sh_def)

lemma push_add: "push_bit n (x + y) = push_bit n x + push_bit n y" for x y :: u32
  by (simp add: push_bit_eq_mult distrib_right)

section \<open>The variants agree\<close>

lemma hl16_loop_eq: "hl16_loop k len s = hl8_loop k len s"
proof (induction k len s rule: hl8_loop.induct)
  case (1 k len a b c)
  then show ?case by (simp add: le16_at push_add sh_push add.assoc del: One_nat_def)
qed

lemma hl32_loop_eq: "hl32_loop k len s = hl8_loop k len s"
proof (induction k len s rule: hl8_loop.induct)
  case (1 k len a b c)
  then show ?case by (simp add: le32_at add.assoc del: One_nat_def)
qed

lemma hl8_loop_le: "hl8_loop k len s = (k', n, s') \<Longrightarrow> n \<le> 12"
  by (induction k len s rule: hl8_loop.induct) (auto split: if_splits)

lemma le_12_cases: "n \<le> 12 \<Longrightarrow> n \<in> {0, 1, 2, 3, 4, 5, 6, 7, 8, 9, 10, 11, 12}" for n :: nat
  by simp presburger

lemma hl_last_eq:
  assumes "n \<le> 12"
  shows "hl32_last k n s = hl8_last k n s" "hl16_last k n s = hl8_last k n s" "hl32_last_valgrind k n s = hl8_last k n s"
proof -
  obtain a b c where s: "s = (a, b, c)" by (cases s)
  have "n \<in> {0, 1, 2, 3, 4, 5, 6, 7, 8, 9, 10, 11, 12}" using assms by (rule le_12_cases)
  note n = this
  from n show "hl32_last k n s = hl8_last k n s"
    unfolding s hl32_last_def hl8_last_def Let_def le32_at le_mask by (elim insertE emptyE; simp add: ac_simps)
  from n show "hl16_last k n s = hl8_last k n s"
    unfolding s hl16_last_def hl8_last_def Let_def le16_at push_add sh_push by (elim insertE emptyE; simp add: ac_simps)
  from n show "hl32_last_valgrind k n s = hl8_last k n s"
    unfolding s hl32_last_valgrind_def hl8_last_def Let_def le32_at by (elim insertE emptyE; simp add: ac_simps)
qed

lemma hb32_loop_eq: "hb32_loop k len s = hb8_loop k len s"
proof (induction k len s rule: hb8_loop.induct)
  case (1 k len a b c)
  then show ?case by (simp add: be32_at add.assoc del: One_nat_def)
qed

lemma hb8_loop_le: "hb8_loop k len s = (k', n, s') \<Longrightarrow> n \<le> 12"
  by (induction k len s rule: hb8_loop.induct) (auto split: if_splits)

lemma hb_last_eq:
  assumes "n \<le> 12"
  shows "hb32_last k n s = hb8_last k n s"
proof -
  obtain a b c where s: "s = (a, b, c)" by (cases s)
  have "n \<in> {0, 1, 2, 3, 4, 5, 6, 7, 8, 9, 10, 11, 12}" using assms by (rule le_12_cases)
  then show ?thesis
    unfolding s hb32_last_def hb8_last_def Let_def be32_at be_mask by (elim insertE emptyE; simp add: ac_simps)
qed

text \<open>The bytes after the key do not matter.\<close>

lemma hl8_loop_cong:
  "(\<And>i. i < len \<Longrightarrow> k i = k' i) \<Longrightarrow>
   (case hl8_loop k len s of (k1, n, s1) \<Rightarrow> case hl8_loop k' len s of (k2, n2, s2) \<Rightarrow>
      n2 = n \<and> s2 = s1 \<and> (\<forall>i < n. k1 i = k2 i))"
proof (induction k len s arbitrary: k' rule: hl8_loop.induct)
  case (1 k len a b c)
  show ?case
  proof (cases "12 < len")
    case True
    have "\<And>i. i < len - 12 \<Longrightarrow> skip12 k i = skip12 k' i" using 1(2) by (simp add: skip12_def)
    moreover have "k i = k' i" if "i \<in> {0, 1, 2, 3, 4, 5, 6, 7, 8, 9, 10, 11}" for i
      using 1(2)[of i] True that by auto
    ultimately show ?thesis using 1(1)[OF True, of "skip12 k'"] True by simp
  qed (use 1(2) in simp)
qed

lemma hl8_last_cong: "\<forall>i < n. k i = k' i \<Longrightarrow> hl8_last k n s = hl8_last k' n s"
  by (cases s) (simp add: hl8_last_def)

definition hash_bytes :: "key_mem \<Rightarrow> nat \<Rightarrow> u32 \<Rightarrow> u32" where
  "hash_bytes key len initval =
     (case hl8_loop key len (hash_start len initval) of (k, n, s) \<Rightarrow> hash_end (snd (snd s)) (hl8_last k n s))"

lemma hashlittle_bytes: "hashlittle u key len initval = hash_bytes key len initval"
proof -
  obtain k n s where l: "hl8_loop key len (hash_start len initval) = (k, n, s)" by (cases "hl8_loop key len (hash_start len initval)")
  show ?thesis
    by (simp add: hashlittle_def hash_bytes_def Let_def hl16_loop_eq hl32_loop_eq l hl_last_eq[OF hl8_loop_le[OF l]])
qed

lemma hash_bytes_cong: "(\<And>i. i < len \<Longrightarrow> k i = k' i) \<Longrightarrow> hash_bytes k len initval = hash_bytes k' len initval"
  using hl8_loop_cong[of len k k' "hash_start len initval"]
  by (auto simp: hash_bytes_def split: prod.splits intro!: arg_cong[OF hl8_last_cong])

section \<open>Properties\<close>

text \<open>C12: The hash of a key depends only on the bytes of the key and the seed: reading it by 32-bit words
  with masked over-reads, by 16-bit words or by bytes, as the alignment of its address decides,
  gives the same value, whatever the memory after the key holds.\<close>

theorem hash_alignment_independent: "hash u mem key initval = hash u' mem' key initval"
  unfolding hash_def hashlittle_bytes by (rule hash_bytes_cong) simp

text \<open>C13: On a big-endian machine \<open>hashbig\<close> gives the same value for an aligned key, read by words, and
  for an unaligned one, read by bytes.\<close>

theorem hashbig_alignment_independent: "hashbig e u key len initval = hashbig e' u' key len initval"
proof -
  obtain k n s where l: "hb8_loop key len (hash_start len initval) = (k, n, s)" by (cases "hb8_loop key len (hash_start len initval)")
  show ?thesis by (simp add: hashbig_def Let_def hb32_loop_eq l hb_last_eq[OF hb8_loop_le[OF l]])
qed

lemma mix_line_bij: "bij (mix_line k)"
proof (rule bij_betw_byWitness[where f' = "\<lambda>(x, y, z). (let z = z - y; x = x XOR rot z k in (x + z, y, z))"])
qed (auto simp: mix_line_def Let_def xor.assoc)

definition rotl3 :: "abc \<Rightarrow> abc" where
  "rotl3 = (\<lambda>(a, b, c). (b, c, a))"

lemma rotl3_bij: "bij rotl3"
  by (rule bij_betw_byWitness[where f' = "\<lambda>(a, b, c). (c, a, b)"]) (auto simp: rotl3_def)

lemma mix_lines:
  "mix = rotl3 \<circ> mix_line 4 \<circ> (rotl3 \<circ> mix_line 19) \<circ> (rotl3 \<circ> mix_line 16) \<circ> (rotl3 \<circ> mix_line 8) \<circ>
     (rotl3 \<circ> mix_line 6) \<circ> (rotl3 \<circ> mix_line 4)"
  by (simp add: fun_eq_iff mix_def rotl3_def split: prod.split)

text \<open>C14: \<open>mix\<close> is reversible: no information about \<open>(a, b, c)\<close> is lost.\<close>

theorem mix_reversible: "bij mix"
  unfolding mix_lines by (intro bij_comp mix_line_bij rotl3_bij)

lemma unat_and_hashmask: "p < 32 \<Longrightarrow> unat (x AND hashmask p) = unat x mod 2 ^ p"
proof -
  assume "p < 32"
  have "hashmask p = mask p" by (simp add: hashmask_def hashsize_def mask_eq_exp_minus_1 push_bit_eq_mult)
  then have "x AND hashmask p = take_bit p x" by (simp add: take_bit_eq_mask)
  then have "unat (x AND hashmask p) = take_bit p (unat x)" by (simp add: unsigned_take_bit_eq)
  then show ?thesis by (simp add: take_bit_eq_mod)
qed

end
