(* ===== verification/Memory.thy ===== *)
theory Memory
  imports Hash
begin

text \<open>
  Sizes of memory: \<open>src/src/lib/memory.h\<close> and \<open>src/src/lib/memory.c\<close>, with the part of the C library that
  they use, \<open>sprintf("%llu")\<close> and \<open>strtoull\<close> with base 0. A C string is the list of its characters
  before the terminating null.
\<close>

section \<open>Decimal numbers\<close>

definition digit :: "nat \<Rightarrow> char" where
  "digit d = char_of (48 + d)"

fun fmt_llu :: "nat \<Rightarrow> string" where
  "fmt_llu n = (if n < 10 then [digit n] else fmt_llu (n div 10) @ [digit (n mod 10)])"

declare fmt_llu.simps [simp del]

text \<open>The value of a digit of a base up to 16; 99 for any other character.\<close>

definition digit_val :: "char \<Rightarrow> nat" where
  "digit_val ch = (let c = (of_char ch :: nat) in
     if 48 \<le> c \<and> c \<le> 57 then c - 48
     else if 97 \<le> c \<and> c \<le> 102 then c - 87
     else if 65 \<le> c \<and> c \<le> 70 then c - 55 else 99)"

fun read_digits :: "nat \<Rightarrow> nat \<Rightarrow> string \<Rightarrow> nat \<times> string" where
  "read_digits base acc [] = (acc, [])"
| "read_digits base acc (c # cs) =
     (if digit_val c < base then read_digits base (acc * base + digit_val c) cs else (acc, c # cs))"

definition is_space :: "char \<Rightarrow> bool" where
  "is_space ch = (let c = (of_char ch :: nat) in c = 32 \<or> 9 \<le> c \<and> c \<le> 13)"

text \<open>\<open>strtoull(s, \&end, 0)\<close>: the value, saturated and negated after a minus sign, and the rest of the
  string; without any digits the rest is the whole string.\<close>

definition strto_sign :: "string \<Rightarrow> bool \<times> string" where
  "strto_sign s =
     (case dropWhile is_space s of [] \<Rightarrow> (False, [])
      | c # t \<Rightarrow> if c = CHR ''-'' then (True, t) else if c = CHR ''+'' then (False, t) else (False, c # t))"

definition strto_base :: "string \<Rightarrow> nat \<times> string" where
  "strto_base t =
     (if t \<noteq> [] \<and> hd t = CHR ''0'' then
        if length t > 2 \<and> (t ! 1 = CHR ''x'' \<or> t ! 1 = CHR ''X'') \<and> digit_val (t ! 2) < 16
        then (16, drop 2 t) else (8, t)
      else (10, t))"

definition strtoull0 :: "string \<Rightarrow> 64 word \<times> string" where
  "strtoull0 s =
     (let (neg, t) = strto_sign s; (base, t) = strto_base t
      in if t = [] \<or> \<not> digit_val (hd t) < base then (0, s)
         else let (n, rest) = read_digits base 0 t; v = (if n < 2 ^ 64 then of_nat n else - 1)
              in (if neg then - v else v, rest))"

section \<open>The operations\<close>

definition MALLOC_SIZE :: "size_t \<Rightarrow> size_t" where
  "MALLOC_SIZE sz = (if sz \<le> 24 then 32 else ((sz + 7) OR 15) + 1)"

definition Memory_FmtSize :: "size_t \<Rightarrow> string" where
  "Memory_FmtSize n =
     (let (n, suffix) = (n, []);
          (n, suffix) = (if n AND 0x3ff = 0 then (drop_bit 10 n, ''K'') else (n, suffix));
          (n, suffix) = (if n AND 0x3ff = 0 then (drop_bit 10 n, ''M'') else (n, suffix));
          (n, suffix) = (if n AND 0x3ff = 0 then (drop_bit 10 n, ''G'') else (n, suffix))
      in fmt_llu (unat n) @ suffix)"

text \<open>The cases of the switch fall through.\<close>

definition Memory_ReadSize1 :: "string \<Rightarrow> size_t \<times> string" where
  "Memory_ReadSize1 buf =
     (case strtoull0 buf of (res, end) \<Rightarrow>
        (case end of [] \<Rightarrow> (res, end)
         | c # rest \<Rightarrow>
             if c \<in> {CHR ''G'', CHR ''g''} then (push_bit 10 (push_bit 10 (push_bit 10 res)), rest)
             else if c \<in> {CHR ''M'', CHR ''m''} then (push_bit 10 (push_bit 10 res), rest)
             else if c \<in> {CHR ''K'', CHR ''k''} then (push_bit 10 res, rest)
             else (res, end)))"

lemma read_digits_le: "length (snd (read_digits base acc s)) \<le> length s"
  by (induction base acc s rule: read_digits.induct) auto

lemma strto_sign_le: "length (snd (strto_sign s)) \<le> length s"
  using length_dropWhile_le[of is_space s] by (auto simp: strto_sign_def split: list.split)

lemma strto_base_le: "length (snd (strto_base s)) \<le> length s"
  by (simp add: strto_base_def)

lemma strtoull0_le: "length (snd (strtoull0 s)) \<le> length s"
proof -
  obtain neg t where t: "strto_sign s = (neg, t)" by (cases "strto_sign s")
  obtain base u where u: "strto_base t = (base, u)" by (cases "strto_base t")
  obtain n rest where r: "read_digits base 0 u = (n, rest)" by (cases "read_digits base 0 u")
  have "length rest \<le> length s"
    using strto_sign_le[of s] strto_base_le[of t] read_digits_le[of base 0 u] t u r by simp
  then show ?thesis using t u r by (simp add: strtoull0_def Let_def)
qed

lemma Memory_ReadSize1_le: "length (snd (Memory_ReadSize1 s)) \<le> length s"
  using strtoull0_le[of s] by (auto simp: Memory_ReadSize1_def split: prod.splits list.splits)

text \<open>The sum of the sizes of the items that are separated by \<open>+\<close>, and the rest of the string.\<close>

function Memory_ReadSize_loop :: "size_t \<Rightarrow> string \<Rightarrow> size_t \<times> string" where
  "Memory_ReadSize_loop ret buf =
     (let (r, buf') = Memory_ReadSize1 buf; ret = ret + r
      in if buf' \<noteq> [] \<and> hd buf' = CHR ''+'' \<and> tl buf' \<noteq> [] then Memory_ReadSize_loop ret (tl buf')
         else (ret, buf'))"
  by pat_completeness auto

termination
proof (relation "measure (\<lambda>(ret, buf). length buf)")
  fix ret buf x r buf' ret'
  assume "x = Memory_ReadSize1 buf" "(r, buf') = x" "buf' \<noteq> [] \<and> hd buf' = CHR ''+'' \<and> tl buf' \<noteq> []"
  then have "length buf' \<le> length buf" "buf' \<noteq> []" using Memory_ReadSize1_le[of buf] by (auto dest: sym)
  then show "((ret', tl buf'), (ret, buf)) \<in> measure (\<lambda>(ret, buf). length buf)" by (cases buf') auto
qed simp

declare Memory_ReadSize_loop.simps [simp del]

definition Memory_ReadSize :: "string \<Rightarrow> size_t \<times> string" where
  "Memory_ReadSize buf = Memory_ReadSize_loop 0 buf"

section \<open>Round trip\<close>

lemma digit_facts:
  assumes "d < 10"
  shows "digit_val (digit d) = d" "\<not> is_space (digit d)" "digit d \<noteq> CHR ''-''" "digit d \<noteq> CHR ''+''"
    "digit d = CHR ''0'' \<longleftrightarrow> d = 0"
proof -
  have "d \<in> {0, 1, 2, 3, 4, 5, 6, 7, 8, 9}" using assms by simp presburger
  then show "digit_val (digit d) = d" "\<not> is_space (digit d)" "digit d \<noteq> CHR ''-''" "digit d \<noteq> CHR ''+''"
    "digit d = CHR ''0'' \<longleftrightarrow> d = 0"
    by (elim insertE emptyE; simp add: digit_val_def digit_def is_space_def Let_def; code_simp)+
qed

lemma read_digits_append:
  "\<forall>c \<in> set ds. digit_val c < base \<Longrightarrow>
   read_digits base acc (ds @ rest) = read_digits base (fst (read_digits base acc ds)) rest"
  by (induction ds arbitrary: acc) auto

lemma fmt_llu_ne [simp]: "fmt_llu n \<noteq> []"
  by (subst fmt_llu.simps) simp

lemma fmt_llu_digits: "c \<in> set (fmt_llu n) \<Longrightarrow> digit_val c < 10"
proof (induction n rule: fmt_llu.induct)
  case (1 n)
  then show ?case by (subst (asm) (2) fmt_llu.simps) (auto simp: digit_facts split: if_splits)
qed

lemma fmt_llu_hd: "\<exists>d < 10. hd (fmt_llu n) = digit d \<and> (d = 0 \<longleftrightarrow> n = 0)"
proof (induction n rule: fmt_llu.induct)
  case (1 n)
  then show ?case by (subst fmt_llu.simps) (auto simp: hd_append)
qed

lemma read_fmt_llu: "fst (read_digits 10 0 (fmt_llu n)) = n"
proof (induction n rule: fmt_llu.induct)
  case (1 n)
  show ?case
  proof (cases "n < 10")
    case False
    have "read_digits 10 0 (fmt_llu (n div 10) @ [digit (n mod 10)])
        = read_digits 10 (fst (read_digits 10 0 (fmt_llu (n div 10)))) [digit (n mod 10)]"
      by (rule read_digits_append) (use fmt_llu_digits in blast)
    with 1 False show ?thesis by (subst fmt_llu.simps) (simp add: digit_facts)
  qed (subst fmt_llu.simps, simp add: digit_facts)
qed

lemma strtoull0_fmt:
  assumes "n < 2 ^ 64" and suf: "suf = [] \<or> suf = ''K'' \<or> suf = ''M'' \<or> suf = ''G''"
  shows "strtoull0 (fmt_llu n @ suf) = (of_nat n, suf)"
proof -
  obtain d ds where f: "fmt_llu n = digit d # ds" "d < 10" "d = 0 \<longleftrightarrow> n = 0"
    using fmt_llu_hd[of n] by (cases "fmt_llu n") auto
  have sg: "strto_sign (fmt_llu n @ suf) = (False, fmt_llu n @ suf)"
    using f digit_facts[of d] by (simp add: strto_sign_def)
  have sd: "suf = [] \<or> \<not> digit_val (hd suf) < 10" using suf by (auto simp: digit_val_def)
  show ?thesis
  proof (cases "n = 0")
    case True
    then have z: "fmt_llu n = ''0''" by (subst fmt_llu.simps) (simp add: digit_def, code_simp)
    from suf show ?thesis using sg z True by (elim disjE; simp add: strtoull0_def strto_base_def digit_val_def)
  next
    case False
    then have "digit d \<noteq> CHR ''0''" using f digit_facts[of d] by simp
    then have b: "strto_base (fmt_llu n @ suf) = (10, fmt_llu n @ suf)"
      by (simp add: strto_base_def f(1))
    have "read_digits 10 0 (fmt_llu n @ suf) = (n, suf)"
      using read_digits_append[of "fmt_llu n" 10 0 suf] fmt_llu_digits read_fmt_llu[of n] sd by (cases suf) auto
    then show ?thesis using sg b f digit_facts[of d] assms(1) by (simp add: strtoull0_def)
  qed
qed

lemma shift10: "n AND 0x3ff = 0 \<Longrightarrow> push_bit 10 (drop_bit 10 n) = n" for n :: size_t
proof -
  assume "n AND 0x3ff = 0"
  then have "take_bit 10 n = 0" by (simp add: take_bit_eq_mask mask_eq_exp_minus_1)
  then show ?thesis by (metis add.right_neutral bits_ident add.commute)
qed

text \<open>C15: A size printed with \<open>Memory_FmtSize\<close>, with its largest exact suffix, is read back by
  \<open>Memory_ReadSize\<close> without a rest.\<close>

theorem Memory_size_roundtrip: "Memory_ReadSize (Memory_FmtSize n) = (n, [])"
proof -
  have *: "Memory_ReadSize (fmt_llu (unat m) @ suf) = (r, [])"
    if "suf = [] \<and> r = m \<or> suf = ''K'' \<and> r = push_bit 10 m \<or> suf = ''M'' \<and> r = push_bit 10 (push_bit 10 m) \<or>
      suf = ''G'' \<and> r = push_bit 10 (push_bit 10 (push_bit 10 m))" for m r :: size_t and suf
  proof -
    have "unat m < 2 ^ 64" using unsigned_less[of m] by simp
    with strtoull0_fmt[of "unat m" suf] that have "strtoull0 (fmt_llu (unat m) @ suf) = (m, suf)" by auto
    then have "Memory_ReadSize1 (fmt_llu (unat m) @ suf) = (r, [])" using that by (auto simp: Memory_ReadSize1_def)
    then show ?thesis by (simp add: Memory_ReadSize_def Memory_ReadSize_loop.simps[of 0])
  qed
  let ?n1 = "drop_bit 10 n" and ?n2 = "drop_bit 10 (drop_bit 10 n)" and ?n3 = "drop_bit 10 (drop_bit 10 (drop_bit 10 n))"
  consider "n AND 0x3ff \<noteq> 0" | "n AND 0x3ff = 0" "?n1 AND 0x3ff \<noteq> 0"
    | "n AND 0x3ff = 0" "?n1 AND 0x3ff = 0" "?n2 AND 0x3ff \<noteq> 0"
    | "n AND 0x3ff = 0" "?n1 AND 0x3ff = 0" "?n2 AND 0x3ff = 0" by blast
  then show ?thesis
  proof cases
    case 1
    then have "Memory_FmtSize n = fmt_llu (unat n) @ []" by (simp add: Memory_FmtSize_def)
    then show ?thesis using *[of "[]" n n] by simp
  next
    case 2
    then have "Memory_FmtSize n = fmt_llu (unat ?n1) @ ''K''" by (simp add: Memory_FmtSize_def)
    moreover have "push_bit 10 ?n1 = n" using 2 by (simp add: shift10)
    ultimately show ?thesis using *[of "''K''" n ?n1] by simp
  next
    case 3
    then have "Memory_FmtSize n = fmt_llu (unat ?n2) @ ''M''" by (simp add: Memory_FmtSize_def)
    moreover have "push_bit 10 (push_bit 10 ?n2) = n" using 3 by (simp only: shift10)
    ultimately show ?thesis using *[of "''M''" n ?n2] by simp
  next
    case 4
    then have "Memory_FmtSize n = fmt_llu (unat ?n3) @ ''G''" by (simp add: Memory_FmtSize_def)
    moreover have "push_bit 10 (push_bit 10 (push_bit 10 ?n3)) = n" using 4 by (simp only: shift10)
    ultimately show ?thesis using *[of "''G''" n ?n3] by simp
  qed
qed

end
