(* ===== verification/HashTable.thy ===== *)
theory HashTable
  imports Memory
begin

text \<open>
  Chained hash tables: the template \<open>src/src/lib/tmpl/hashtable-decl.h\<close>,
  \<open>src/src/lib/tmpl/hashtable-impl.h\<close>.

  The values live in a heap and carry their link in the field \<open>FIELD\<close>, given by a reader and an
  updater. A key and its length are a list of bytes. The seed of the hash function is the address
  of the table, truncated to 32 bits. \<open>pprev\<close> points either to a bucket or to the \<open>next\<close> field of
  a value. \<open>PARANOID\<close> is on, so \<open>HT_Insert\<close> checks for a duplicate key. An argument \<open>calloc\<close> says
  whether the allocation of a bucket array succeeds.
\<close>

section \<open>Operations\<close>

datatype HT_ptr = Bucket nat | NextOf addr

record HT_Link_t =
  hnext :: addr
  pprev :: HT_ptr
  hkey :: "byte list"

record HT_t =
  hpower :: nat
  hcount :: int
  buckets :: "addr list"
  seed :: u32

record 'v HT_FIELD =
  getl :: "'v \<Rightarrow> HT_Link_t"
  updl :: "(HT_Link_t \<Rightarrow> HT_Link_t) \<Rightarrow> 'v \<Rightarrow> 'v"

definition INITIAL_POWER :: nat where
  "INITIAL_POWER = 10"

text \<open>\<open>s\<close> is the seed, the truncated address of the table.\<close>

definition HT_Init :: "u32 \<Rightarrow> bool \<Rightarrow> HT_t option" where
  "HT_Init s calloc =
     (if calloc then Some \<lparr>hpower = INITIAL_POWER, hcount = 0, buckets = replicate (2 ^ INITIAL_POWER) 0, seed = s\<rparr>
      else None)"

definition HT_Release :: "HT_t \<Rightarrow> HT_t option" where
  "HT_Release ht = (if hcount ht \<noteq> 0 then None else Some (ht\<lparr>buckets := [], hcount := 0\<rparr>))"

definition HT_GetBucket :: "HT_t \<Rightarrow> byte list \<Rightarrow> nat" where
  "HT_GetBucket ht key = unat (hash 0 (\<lambda>_. 0) key (seed ht) AND hashmask (hpower ht))"

definition read_bucket :: "HT_t \<Rightarrow> nat \<Rightarrow> addr option" where
  "read_bucket ht i = (if i < length (buckets ht) then Some (buckets ht ! i) else None)"

definition HT_KeyCmp :: "'v HT_FIELD \<Rightarrow> 'v \<Rightarrow> byte list \<Rightarrow> bool" where
  "HT_KeyCmp F v key \<longleftrightarrow> hkey (getl F v) = key"

partial_function (option) HT_Get_loop :: "'v HT_FIELD \<Rightarrow> 'v heap \<Rightarrow> byte list \<Rightarrow> addr \<Rightarrow> addr option" where
  "HT_Get_loop F h key lnk =
     (if lnk = 0 then Some 0
      else do {
        v \<leftarrow> h lnk;
        if HT_KeyCmp F v key then Some lnk else HT_Get_loop F h key (hnext (getl F v))
      })"

definition HT_Get :: "'v HT_FIELD \<Rightarrow> 'v heap \<Rightarrow> HT_t \<Rightarrow> byte list \<Rightarrow> addr option" where
  "HT_Get F h ht key = do { b \<leftarrow> read_bucket ht (HT_GetBucket ht key); HT_Get_loop F h key b }"

text \<open>Push a value to the front of its bucket: the lines 97 to 101 and, in the loop of \<open>HT_Expand\<close>, the
  lines 135 to 139.\<close>

definition HT_push :: "'v HT_FIELD \<Rightarrow> 'v heap \<Rightarrow> HT_t \<Rightarrow> nat \<Rightarrow> addr \<Rightarrow> ('v heap \<times> HT_t) option" where
  "HT_push F h ht i v = do {
     b \<leftarrow> read_bucket ht i;
     h \<leftarrow> (if b \<noteq> 0 then upd h b (updl F (pprev_update (\<lambda>_. NextOf v))) else Some h);
     h \<leftarrow> upd h v (updl F (hnext_update (\<lambda>_. b)));
     h \<leftarrow> upd h v (updl F (pprev_update (\<lambda>_. Bucket i)));
     Some (h, ht\<lparr>buckets := (buckets ht)[i := v]\<rparr>)
   }"

partial_function (option) HT_Expand_chain ::
  "'v HT_FIELD \<Rightarrow> 'v heap \<Rightarrow> HT_t \<Rightarrow> addr \<Rightarrow> ('v heap \<times> HT_t) option" where
  "HT_Expand_chain F h ht lnk =
     (if lnk = 0 then Some (h, ht)
      else do {
        v \<leftarrow> h lnk;
        (h, ht) \<leftarrow> HT_push F h ht (HT_GetBucket ht (hkey (getl F v))) lnk;
        HT_Expand_chain F h ht (hnext (getl F v))
      })"

fun HT_Expand_loop :: "'v HT_FIELD \<Rightarrow> 'v heap \<Rightarrow> HT_t \<Rightarrow> addr list \<Rightarrow> ('v heap \<times> HT_t) option" where
  "HT_Expand_loop F h ht [] = Some (h, ht)"
| "HT_Expand_loop F h ht (b # old) = do {
     (h, ht) \<leftarrow> HT_Expand_chain F h ht b;
     HT_Expand_loop F h ht old
   }"

definition HT_Expand :: "'v HT_FIELD \<Rightarrow> bool \<Rightarrow> 'v heap \<Rightarrow> HT_t \<Rightarrow> ('v heap \<times> HT_t) option" where
  "HT_Expand F calloc h ht =
     (if calloc
      then let p = hpower ht + 1
           in HT_Expand_loop F h (ht\<lparr>hpower := p, buckets := replicate (2 ^ p) 0\<rparr>) (buckets ht)
      else None)"

definition HT_Insert ::
  "'v HT_FIELD \<Rightarrow> bool \<Rightarrow> 'v heap \<Rightarrow> HT_t \<Rightarrow> addr \<Rightarrow> byte list \<Rightarrow> ('v heap \<times> HT_t) option" where
  "HT_Insert F calloc h ht v key = do {
     let i = HT_GetBucket ht key;
     b \<leftarrow> read_bucket ht i;
     dup \<leftarrow> HT_Get_loop F h key b;
     Assert (dup = 0);
     h \<leftarrow> upd h v (updl F (hkey_update (\<lambda>_. key)));
     (h, ht) \<leftarrow> HT_push F h ht i v;
     let ht = ht\<lparr>hcount := hcount ht + 1\<rparr>;
     if 3 * 2 ^ hpower ht < 4 * hcount ht then HT_Expand F calloc h ht else Some (h, ht)
   }"

text \<open>Only the pointer that points to the value is changed.\<close>

definition HT_Unlink :: "'v HT_FIELD \<Rightarrow> 'v heap \<Rightarrow> HT_t \<Rightarrow> addr \<Rightarrow> ('v heap \<times> HT_t) option" where
  "HT_Unlink F h ht v = do {
     n \<leftarrow> h v;
     (h, ht) \<leftarrow> (case pprev (getl F n) of
         Bucket i \<Rightarrow> Some (h, ht\<lparr>buckets := (buckets ht)[i := hnext (getl F n)]\<rparr>)
       | NextOf p \<Rightarrow> do { h \<leftarrow> upd h p (updl F (hnext_update (\<lambda>_. hnext (getl F n)))); Some (h, ht) });
     Some (h, ht\<lparr>hcount := hcount ht - 1\<rparr>)
   }"

text \<open>\<open>sz\<close> is \<open>sizeof(VALUE_t)\<close>; \<open>sizeof(HT_t)\<close> is 16 and a pointer has 8 bytes.\<close>

definition HT_Size :: "size_t \<Rightarrow> HT_t \<Rightarrow> int \<times> size_t" where
  "HT_Size sz ht = (hcount ht, 16 + 2 ^ hpower ht * 8 + of_int (hcount ht) * MALLOC_SIZE sz)"

record HT_Iter_t =
  ibucket :: nat
  inext :: addr

text \<open>The first loop reads the bucket before it compares with the end.\<close>

partial_function (option) HT_Iter_loop :: "HT_t \<Rightarrow> nat \<Rightarrow> nat option" where
  "HT_Iter_loop ht i = do {
     b \<leftarrow> read_bucket ht i;
     if b = 0 \<and> i < 2 ^ hpower ht then HT_Iter_loop ht (i + 1) else Some i
   }"

definition HT_Iter :: "HT_t \<Rightarrow> HT_Iter_t option" where
  "HT_Iter ht = do {
     i \<leftarrow> HT_Iter_loop ht 0;
     if i = 2 ^ hpower ht then Some \<lparr>ibucket = i, inext = 0\<rparr>
     else do { b \<leftarrow> read_bucket ht i; Some \<lparr>ibucket = i, inext = b\<rparr> }
   }"

partial_function (option) HT_IterNext_loop :: "HT_t \<Rightarrow> nat \<Rightarrow> nat option" where
  "HT_IterNext_loop ht i =
     (if i + 1 < 2 ^ hpower ht
      then do {
        b \<leftarrow> read_bucket ht (i + 1);
        if b = 0 then HT_IterNext_loop ht (i + 1) else Some (i + 1)
      }
      else Some (i + 1))"

text \<open>The value and the moved iterator.\<close>

definition HT_IterNext :: "'v HT_FIELD \<Rightarrow> 'v heap \<Rightarrow> HT_t \<Rightarrow> HT_Iter_t \<Rightarrow> (addr \<times> HT_Iter_t) option" where
  "HT_IterNext F h ht it =
     (if inext it = 0 then Some (0, it)
      else do {
        v \<leftarrow> h (inext it);
        if hnext (getl F v) \<noteq> 0 then Some (inext it, it\<lparr>inext := hnext (getl F v)\<rparr>)
        else do {
          i \<leftarrow> HT_IterNext_loop ht (ibucket it);
          b \<leftarrow> (if i < 2 ^ hpower ht then read_bucket ht i else Some 0);
          Some (inext it, \<lparr>ibucket = i, inext = b\<rparr>)
        }
      })"

section \<open>The contract\<close>

text \<open>The law of a link field; \<open>hproj\<close> is the rest of the value.\<close>

locale ht_field =
  fixes F :: "'v HT_FIELD"
  assumes get_updl: "getl F (updl F f v) = f (getl F v)"

definition key_at :: "'v HT_FIELD \<Rightarrow> 'v heap \<Rightarrow> addr \<Rightarrow> byte list" where
  "key_at F h x = hkey (getl F (the (h x)))"

fun chain :: "'v HT_FIELD \<Rightarrow> 'v heap \<Rightarrow> addr \<Rightarrow> addr list \<Rightarrow> bool" where
  "chain F h b [] \<longleftrightarrow> b = 0"
| "chain F h b (x # xs) \<longleftrightarrow> b = x \<and> x \<noteq> 0 \<and> (\<exists>v. h x = Some v \<and> chain F h (hnext (getl F v)) xs)"

text \<open>\<open>ht_chains F h ht cs\<close>: the buckets hold the chains \<open>cs\<close>, each value is in the bucket of its key.\<close>

definition ht_chains :: "'v HT_FIELD \<Rightarrow> 'v heap \<Rightarrow> HT_t \<Rightarrow> addr list list \<Rightarrow> bool" where
  "ht_chains F h ht cs \<longleftrightarrow>
     hpower ht < 31 \<and> length cs = 2 ^ hpower ht \<and> length (buckets ht) = 2 ^ hpower ht \<and>
     (\<forall>i < length cs. chain F h (buckets ht ! i) (cs ! i) \<and> (\<forall>x \<in> set (cs ! i). HT_GetBucket ht (key_at F h x) = i)) \<and>
     distinct (concat cs)"

definition ht_rep :: "'v HT_FIELD \<Rightarrow> 'v heap \<Rightarrow> HT_t \<Rightarrow> addr set \<Rightarrow> bool" where
  "ht_rep F h ht X \<longleftrightarrow>
     (\<exists>cs. ht_chains F h ht cs \<and> set (concat cs) = X \<and> hcount ht = int (length (concat cs))) \<and> inj_on (key_at F h) X"

lemma GetBucket_lt: "hpower ht < 31 \<Longrightarrow> HT_GetBucket ht key < 2 ^ hpower ht"
  by (simp add: HT_GetBucket_def unat_and_hashmask)

lemma chain_dom: "chain F h b xs \<Longrightarrow> x \<in> set xs \<Longrightarrow> x \<noteq> 0 \<and> h x \<noteq> None"
  by (induction xs arbitrary: b) auto

lemma chain_cong:
  "(\<And>x. x \<in> set xs \<Longrightarrow> map_option (\<lambda>v. hnext (getl F v)) (h' x) = map_option (\<lambda>v. hnext (getl F v)) (h x)) \<Longrightarrow>
   chain F h' b xs = chain F h b xs"
proof (induction xs arbitrary: b)
  case (Cons x xs)
  have IH: "chain F h' b xs = chain F h b xs" for b using Cons by simp
  have "map_option (\<lambda>v. hnext (getl F v)) (h' x) = map_option (\<lambda>v. hnext (getl F v)) (h x)" using Cons.prems by simp
  then show ?case by (cases "h x"; cases "h' x") (auto simp: IH)
qed simp

lemma HT_Get_loop_chain:
  "chain F h b xs \<Longrightarrow> HT_Get_loop F h key b = Some (hd1 (filter (\<lambda>x. key_at F h x = key) xs) 0)"
proof (induction xs arbitrary: b)
  case (Cons x xs)
  then obtain v where v: "b = x" "x \<noteq> 0" "h x = Some v" "chain F h (hnext (getl F v)) xs" by auto
  then show ?case
    using Cons.IH[OF v(4)] by (subst HT_Get_loop.simps) (simp add: HT_KeyCmp_def key_at_def)
qed (simp add: HT_Get_loop.simps)

lemma in_concat_nth: "y \<in> set (concat cs) \<longleftrightarrow> (\<exists>j < length cs. y \<in> set (cs ! j))"
  by (metis UN_E UN_I in_set_conv_nth set_concat)

lemma concat_push:
  assumes "i < length cs"
  shows "set (concat (cs[i := v # cs ! i])) = insert v (set (concat cs))"
    "length (concat (cs[i := v # cs ! i])) = Suc (length (concat cs))"
    "distinct (concat (cs[i := v # cs ! i])) \<longleftrightarrow> distinct (concat cs) \<and> v \<notin> set (concat cs)"
proof -
  let ?us = "concat (take i cs)" and ?vs = "concat (drop (Suc i) cs)"
  have a: "concat (cs[i := v # cs ! i]) = ?us @ (v # cs ! i) @ ?vs"
    using assms by (simp add: upd_conv_take_nth_drop)
  have b: "concat cs = ?us @ cs ! i @ ?vs"
    by (subst id_take_nth_drop[OF assms]) simp
  show "set (concat (cs[i := v # cs ! i])) = insert v (set (concat cs))"
    "length (concat (cs[i := v # cs ! i])) = Suc (length (concat cs))"
    "distinct (concat (cs[i := v # cs ! i])) \<longleftrightarrow> distinct (concat cs) \<and> v \<notin> set (concat cs)"
    unfolding a b by auto
qed

lemma HT_Get_spec:
  assumes "ht_rep F h ht X"
  shows "\<exists>x. HT_Get F h ht key = Some x \<and>
    (if x = 0 then \<forall>y \<in> X. key_at F h y \<noteq> key else x \<in> X \<and> key_at F h x = key)"
proof -
  let ?i = "HT_GetBucket ht key"
  from assms obtain cs where cs: "ht_chains F h ht cs" "set (concat cs) = X" by (auto simp: ht_rep_def)
  have i: "?i < length cs" using cs GetBucket_lt[of ht key] by (simp add: ht_chains_def)
  then have c: "chain F h (buckets ht ! ?i) (cs ! ?i)" "?i < length (buckets ht)" using cs by (auto simp: ht_chains_def)
  let ?ys = "filter (\<lambda>x. key_at F h x = key) (cs ! ?i)"
  have g: "HT_Get F h ht key = Some (hd1 ?ys 0)"
    using HT_Get_loop_chain[OF c(1)] c(2) by (simp add: HT_Get_def read_bucket_def)
  show ?thesis
  proof (cases ?ys)
    case Nil
    have "key_at F h y \<noteq> key" if y: "y \<in> X" for y
    proof
      assume k: "key_at F h y = key"
      from y cs(2) obtain j where "j < length cs" "y \<in> set (cs ! j)" unfolding cs(2)[symmetric] in_concat_nth by blast
      moreover from this k have "j = ?i" using cs(1) by (auto simp: ht_chains_def)
      ultimately show False using Nil k by (auto simp: filter_empty_conv)
    qed
    with g Nil show ?thesis by simp
  next
    case (Cons x ys)
    then have "x \<in> set ?ys" by simp
    then have "x \<in> set (cs ! ?i)" "key_at F h x = key" by simp_all
    moreover from this have "x \<in> X" "x \<noteq> 0" using i cs(2) chain_dom[OF c(1)] by auto
    ultimately show ?thesis using g Cons by simp
  qed
qed

section \<open>Changes of links\<close>

text \<open>Two heaps that differ in the link field only.\<close>

inductive link_upd :: "'v HT_FIELD \<Rightarrow> addr set \<Rightarrow> 'v heap \<Rightarrow> 'v heap \<Rightarrow> bool" for F A where
  link_upd_refl: "link_upd F A h h"
| link_upd_step: "link_upd F A h h1 \<Longrightarrow> h1 x = Some v \<Longrightarrow> x \<in> A \<Longrightarrow> link_upd F A h (h1(x \<mapsto> updl F f v))"

lemma link_upd_proj:
  assumes "link_upd F A h h'" "\<And>f v. pr (updl F f v) = pr v"
  shows "map_option pr (h' x) = map_option pr (h x)"
  using assms by induction auto

lemma link_upd_frame: "link_upd F A h h' \<Longrightarrow> x \<notin> A \<Longrightarrow> h' x = h x"
  by (induction rule: link_upd.induct) auto

lemma link_upd_None: "link_upd F A h h' \<Longrightarrow> h' x = None \<longleftrightarrow> h x = None"
  by (induction rule: link_upd.induct) auto

lemma link_upd_trans: "link_upd F A h1 h2 \<Longrightarrow> link_upd F A h h1 \<Longrightarrow> link_upd F A h h2"
  by (induction rule: link_upd.induct) (auto intro: link_upd.intros)

lemma link_upd_mono: "link_upd F A h h' \<Longrightarrow> A \<subseteq> B \<Longrightarrow> link_upd F B h h'"
  by (induction rule: link_upd.induct) (auto intro: link_upd.intros)

lemma upd_link: "upd h x (updl F f) = Some h' \<Longrightarrow> x \<in> A \<Longrightarrow> link_upd F A h h'"
  by (auto simp: upd_eq_Some intro: link_upd.intros)

context ht_field
begin

lemma push_chains:
  assumes cs: "ht_chains F h ht cs" and v: "v \<notin> set (concat cs)" "v \<noteq> 0" "h v \<noteq> None"
    and i: "i = HT_GetBucket ht (key_at F h v)"
  obtains h' ht' where "HT_push F h ht i v = Some (h', ht')" "ht_chains F h' ht' (cs[i := v # cs ! i])"
    "hpower ht' = hpower ht" "seed ht' = seed ht" "hcount ht' = hcount ht"
    "\<And>x. x \<noteq> v \<Longrightarrow> map_option (\<lambda>v. hnext (getl F v)) (h' x) = map_option (\<lambda>v. hnext (getl F v)) (h x)"
    "\<And>x. key_at F h' x = key_at F h x" "link_upd F (insert v (set (concat cs))) h h'"
proof -
  have p: "hpower ht < 31" "length cs = 2 ^ hpower ht" "length (buckets ht) = 2 ^ hpower ht"
    and ch: "\<And>j. j < length cs \<Longrightarrow> chain F h (buckets ht ! j) (cs ! j)"
    and kb: "\<And>j x. j < length cs \<Longrightarrow> x \<in> set (cs ! j) \<Longrightarrow> HT_GetBucket ht (key_at F h x) = j"
    and di: "distinct (concat cs)" using cs by (auto simp: ht_chains_def)
  have il: "i < length cs" using i p GetBucket_lt by simp
  let ?b = "buckets ht ! i"
  have rb: "read_bucket ht i = Some ?b" using il p by (simp add: read_bucket_def)
  have b: "?b \<noteq> 0 \<Longrightarrow> ?b \<in> set (cs ! i) \<and> h ?b \<noteq> None" using ch[OF il] by (cases "cs ! i") auto
  have vb: "v \<noteq> ?b" using b v(1,2) il by (auto simp: in_concat_nth)
  from v(3) obtain n where n: "h v = Some n" by auto
  define h1 where "h1 = (if ?b \<noteq> 0 then h(?b \<mapsto> updl F (pprev_update (\<lambda>_. NextOf v)) (the (h ?b))) else h)"
  define n' where "n' = updl F (pprev_update (\<lambda>_. Bucket i)) (updl F (hnext_update (\<lambda>_. ?b)) n)"
  let ?h = "h1(v \<mapsto> n')" and ?ht = "ht\<lparr>buckets := (buckets ht)[i := v]\<rparr>"
  have h1: "(if ?b \<noteq> 0 then upd h ?b (updl F (pprev_update (\<lambda>_. NextOf v))) else Some h) = Some h1" "h1 v = Some n"
    using b vb n by (auto simp: h1_def)
  have h1x: "map_option (\<lambda>v. hnext (getl F v)) (h1 x) = map_option (\<lambda>v. hnext (getl F v)) (h x)" "key_at F h1 x = key_at F h x" for x
    using b by (auto simp: h1_def get_updl key_at_def)
  have push: "HT_push F h ht i v = Some (?h, ?ht)"
    using rb h1 by (simp add: HT_push_def n'_def)
  have hx: "map_option (\<lambda>v. hnext (getl F v)) (?h x) = map_option (\<lambda>v. hnext (getl F v)) (h x)" if "x \<noteq> v" for x
    using that h1x(1) by simp
  have kx: "key_at F ?h x = key_at F h x" for x
    using h1x(2)[of x] n by (auto simp: key_at_def n'_def get_updl)
  have gb: "HT_GetBucket ?ht k = HT_GetBucket ht k" for k by (simp add: HT_GetBucket_def)
  have old: "chain F ?h (buckets ht ! j) (cs ! j)" if "j < length cs" for j
  proof -
    have "v \<notin> set (cs ! j)" using v(1) that by (auto simp: in_concat_nth)
    then have "chain F ?h (buckets ht ! j) (cs ! j) = chain F h (buckets ht ! j) (cs ! j)"
      by (intro chain_cong hx) auto
    with ch[OF that] show ?thesis by simp
  qed
  have "ht_chains F ?h ?ht (cs[i := v # cs ! i])"
    unfolding ht_chains_def
  proof (intro conjI allI impI ballI)
    show "distinct (concat (cs[i := v # cs ! i]))"
      using di v(1) concat_push(3)[OF il] by blast
    fix j assume j: "j < length (cs[i := v # cs ! i])"
    show "chain F ?h (buckets ?ht ! j) (cs[i := v # cs ! i] ! j)"
      using j old[of j] old[OF il] p v(2) il by (cases "j = i") (auto simp: n'_def get_updl)
    show "HT_GetBucket ?ht (key_at F ?h x) = j" if "x \<in> set (cs[i := v # cs ! i] ! j)" for x
      using that j kb[of j x] i il unfolding gb kx by (cases "j = i") auto
  qed (use p in simp_all)
  moreover have "link_upd F (insert v (set (concat cs))) h ?h"
  proof -
    have "link_upd F (insert v (set (concat cs))) h h1"
      using b il by (auto simp: h1_def in_concat_nth intro!: link_upd.intros)
    then have "link_upd F (insert v (set (concat cs))) h (h1(v \<mapsto> updl F (hnext_update (\<lambda>_. ?b)) n))"
      by (rule link_upd_step) (use h1(2) in auto)
    then show ?thesis
      using link_upd_step[of F _ h "h1(v \<mapsto> updl F (hnext_update (\<lambda>_. ?b)) n)" v "updl F (hnext_update (\<lambda>_. ?b)) n"
          "pprev_update (\<lambda>_. Bucket i)"] by (simp add: n'_def)
  qed
  ultimately show thesis using push hx kx by (intro that[of ?h ?ht]) simp_all
qed

lemma expand_chain:
  assumes "ht_chains F h ht cs" "chain F h b xs" "set xs \<inter> set (concat cs) = {}" "distinct xs"
    "set xs \<union> set (concat cs) \<subseteq> A"
  shows "\<exists>h' ht' cs'. HT_Expand_chain F h ht b = Some (h', ht') \<and> ht_chains F h' ht' cs' \<and>
    set (concat cs') = set (concat cs) \<union> set xs \<and> length (concat cs') = length (concat cs) + length xs \<and>
    hpower ht' = hpower ht \<and> seed ht' = seed ht \<and> hcount ht' = hcount ht \<and>
    (\<forall>x. x \<notin> set xs \<longrightarrow> map_option (\<lambda>v. hnext (getl F v)) (h' x) = map_option (\<lambda>v. hnext (getl F v)) (h x)) \<and>
    (\<forall>x. key_at F h' x = key_at F h x) \<and> link_upd F A h h'"
  using assms
proof (induction xs arbitrary: h ht cs b)
  case Nil
  then show ?case by (intro exI[of _ h] exI[of _ ht] exI[of _ cs]) (auto simp: HT_Expand_chain.simps link_upd_refl)
next
  case (Cons v xs)
  then obtain n where n: "b = v" "v \<noteq> 0" "h v = Some n" "chain F h (hnext (getl F n)) xs" by auto
  let ?i = "HT_GetBucket ht (key_at F h v)"
  have k: "key_at F h v = hkey (getl F n)" using n by (simp add: key_at_def)
  have i: "?i < length cs" using Cons.prems(1) GetBucket_lt by (simp add: ht_chains_def)
  have "v \<notin> set (concat cs)" using Cons.prems(3) by auto
  from push_chains[OF Cons.prems(1) this n(2) _ refl] n(3) obtain h1 ht1 where
    p: "HT_push F h ht ?i v = Some (h1, ht1)" "ht_chains F h1 ht1 (cs[?i := v # cs ! ?i])"
    "hpower ht1 = hpower ht" "seed ht1 = seed ht" "hcount ht1 = hcount ht"
    "\<And>x. x \<noteq> v \<Longrightarrow> map_option (\<lambda>v. hnext (getl F v)) (h1 x) = map_option (\<lambda>v. hnext (getl F v)) (h x)"
    "\<And>x. key_at F h1 x = key_at F h x" "link_upd F (insert v (set (concat cs))) h h1" by auto
  note cp = concat_push[OF i, of v]
  have A: "chain F h1 (hnext (getl F n)) xs"
  proof -
    have "chain F h1 (hnext (getl F n)) xs = chain F h (hnext (getl F n)) xs"
    proof (rule chain_cong)
      fix x assume "x \<in> set xs"
      then have "x \<noteq> v" using Cons.prems(4) by auto
      then show "map_option (\<lambda>v. hnext (getl F v)) (h1 x) = map_option (\<lambda>v. hnext (getl F v)) (h x)" by (rule p(6))
    qed
    with n(4) show ?thesis by blast
  qed
  have B: "set xs \<inter> set (concat (cs[?i := v # cs ! ?i])) = {}" "distinct xs"
    "set xs \<union> set (concat (cs[?i := v # cs ! ?i])) \<subseteq> A"
    unfolding cp using Cons.prems(3,4,5) by auto
  from Cons.IH[OF p(2) A B, unfolded cp] obtain h' ht' cs' where r: "HT_Expand_chain F h1 ht1 (hnext (getl F n)) = Some (h', ht')"
    "ht_chains F h' ht' cs'" "set (concat cs') = insert v (set (concat cs)) \<union> set xs"
    "length (concat cs') = Suc (length (concat cs)) + length xs"
    "hpower ht' = hpower ht1" "seed ht' = seed ht1" "hcount ht' = hcount ht1"
    "\<forall>x. x \<notin> set xs \<longrightarrow> map_option (\<lambda>v. hnext (getl F v)) (h' x) = map_option (\<lambda>v. hnext (getl F v)) (h1 x)"
    "\<forall>x. key_at F h' x = key_at F h1 x" "link_upd F A h1 h'"
    by (elim exE conjE) (rule that)
  have "HT_Expand_chain F h ht b = Some (h', ht')"
    using n p(1) r(1) k by (subst HT_Expand_chain.simps) simp
  moreover have "link_upd F A h h'"
    by (rule link_upd_trans[OF r(10) link_upd_mono[OF p(8)]]) (use Cons.prems(5) in auto)
  ultimately show ?case
    using r p(3-7) by (intro exI[of _ h'] exI[of _ ht'] exI[of _ cs']) auto
qed

lemma expand_loop:
  assumes "ht_chains F h ht cs" "list_all2 (chain F h) bs css" "set (concat css) \<inter> set (concat cs) = {}"
    "distinct (concat css)" "set (concat css) \<union> set (concat cs) \<subseteq> A"
  shows "\<exists>h' ht' cs'. HT_Expand_loop F h ht bs = Some (h', ht') \<and> ht_chains F h' ht' cs' \<and>
    set (concat cs') = set (concat cs) \<union> set (concat css) \<and> length (concat cs') = length (concat cs) + length (concat css) \<and>
    hpower ht' = hpower ht \<and> seed ht' = seed ht \<and> hcount ht' = hcount ht \<and>
    (\<forall>x. key_at F h' x = key_at F h x) \<and> link_upd F A h h'"
  using assms
proof (induction bs arbitrary: h ht cs css)
  case Nil
  then show ?case by (auto intro!: exI[of _ h] exI[of _ ht] exI[of _ cs] link_upd_refl)
next
  case (Cons b bs)
  from Cons.prems(2) obtain xs css' where css: "css = xs # css'" "chain F h b xs" "list_all2 (chain F h) bs css'"
    by (auto simp: list_all2_Cons1)
  have "set xs \<inter> set (concat cs) = {}" "distinct xs" "set xs \<union> set (concat cs) \<subseteq> A"
    using Cons.prems(3-5) css(1) by auto
  from expand_chain[OF Cons.prems(1) css(2) this] obtain h1 ht1 cs1 where
    e: "HT_Expand_chain F h ht b = Some (h1, ht1)" "ht_chains F h1 ht1 cs1"
    "set (concat cs1) = set (concat cs) \<union> set xs" "length (concat cs1) = length (concat cs) + length xs"
    "hpower ht1 = hpower ht" "seed ht1 = seed ht" "hcount ht1 = hcount ht"
    "\<forall>x. x \<notin> set xs \<longrightarrow> map_option (\<lambda>v. hnext (getl F v)) (h1 x) = map_option (\<lambda>v. hnext (getl F v)) (h x)"
    "\<forall>x. key_at F h1 x = key_at F h x" "link_upd F A h h1" by blast
  have A: "list_all2 (chain F h1) bs css'"
  proof (rule list.rel_mono_strong[OF css(3)])
    fix b ys assume "ys \<in> set css'" "chain F h b ys"
    moreover have "set ys \<inter> set xs = {}" using Cons.prems(4) css(1) \<open>ys \<in> set css'\<close> by auto
    ultimately show "chain F h1 b ys" using chain_cong[of ys F h1 h b] e(8) by blast
  qed
  have B: "set (concat css') \<inter> set (concat cs1) = {}" "distinct (concat css')" "set (concat css') \<union> set (concat cs1) \<subseteq> A"
    unfolding e(3) using Cons.prems(3-5) css(1) by auto
  from Cons.IH[OF e(2) A B] obtain h' ht' cs' where r: "HT_Expand_loop F h1 ht1 bs = Some (h', ht')" "ht_chains F h' ht' cs'"
    "set (concat cs') = set (concat cs1) \<union> set (concat css')" "length (concat cs') = length (concat cs1) + length (concat css')"
    "hpower ht' = hpower ht1" "seed ht' = seed ht1" "hcount ht' = hcount ht1" "\<forall>x. key_at F h' x = key_at F h1 x"
    "link_upd F A h1 h'"
    by (elim exE conjE) (rule that)
  then show ?case
    using e css(1) link_upd_trans[OF r(9) e(10)] by (intro exI[of _ h'] exI[of _ ht'] exI[of _ cs']) auto
qed

lemma expand_rep:
  assumes cs: "ht_chains F h ht cs" and p: "hpower ht < 30"
  obtains h' ht' cs' where "HT_Expand F True h ht = Some (h', ht')" "ht_chains F h' ht' cs'"
    "set (concat cs') = set (concat cs)" "length (concat cs') = length (concat cs)"
    "hpower ht' = hpower ht + 1" "seed ht' = seed ht" "hcount ht' = hcount ht" "\<And>x. key_at F h' x = key_at F h x"
    "link_upd F (set (concat cs)) h h'"
proof -
  let ?p = "hpower ht + 1"
  let ?ht = "ht\<lparr>hpower := ?p, buckets := replicate (2 ^ ?p) 0\<rparr>" and ?cs = "replicate (2 ^ ?p) ([] :: addr list)"
  have e: "concat ?cs = []" by simp
  have "ht_chains F h ?ht ?cs" using p by (simp add: ht_chains_def del: replicate_add power_add power_Suc)
  note A = this
  have B: "list_all2 (chain F h) (buckets ht) cs" using cs by (auto simp: ht_chains_def list_all2_conv_all_nth)
  have C: "set (concat cs) \<inter> set (concat ?cs) = {}" "set (concat cs) \<union> set (concat ?cs) \<subseteq> set (concat cs)"
    unfolding e by simp_all
  have D: "distinct (concat cs)" using cs by (simp add: ht_chains_def)
  from expand_loop[OF A B C(1) D C(2)] obtain h' ht' cs' where "HT_Expand_loop F h ?ht (buckets ht) = Some (h', ht')" "ht_chains F h' ht' cs'"
    "set (concat cs') = set (concat ?cs) \<union> set (concat cs)" "length (concat cs') = length (concat ?cs) + length (concat cs)"
    "hpower ht' = hpower ?ht" "seed ht' = seed ?ht" "hcount ht' = hcount ?ht"
    "\<forall>x. key_at F h' x = key_at F h x" "link_upd F (set (concat cs)) h h'"
    by blast
  then show thesis unfolding e by (intro that[of h' ht' cs']) (simp_all add: HT_Expand_def)
qed

lemma Insert_spec:
  assumes r: "ht_rep F h ht X" and v: "v \<notin> X" "v \<noteq> 0" "h v \<noteq> None" and new: "\<And>y. y \<in> X \<Longrightarrow> key_at F h y \<noteq> key"
    and p: "hpower ht < 30"
  obtains h' ht' where "HT_Insert F True h ht v key = Some (h', ht')" "ht_rep F h' ht' (insert v X)"
    "seed ht' = seed ht" "hpower ht \<le> hpower ht'" "hpower ht' \<le> hpower ht + 1"
    "key_at F h' v = key" "\<And>x. x \<noteq> v \<Longrightarrow> key_at F h' x = key_at F h x" "link_upd F (insert v X) h h'"
proof -
  from r obtain cs where cs: "ht_chains F h ht cs" "set (concat cs) = X" "hcount ht = int (length (concat cs))"
    and inj: "inj_on (key_at F h) X" by (auto simp: ht_rep_def)
  let ?i = "HT_GetBucket ht key"
  have i: "?i < length cs" using cs(1) GetBucket_lt by (simp add: ht_chains_def)
  have rb: "read_bucket ht ?i = Some (buckets ht ! ?i)" using i cs(1) by (simp add: read_bucket_def ht_chains_def)
  have "filter (\<lambda>x. key_at F h x = key) (cs ! ?i) = []"
  proof (rule filter_False, rule ballI)
    fix x assume "x \<in> set (cs ! ?i)"
    then have "x \<in> X" unfolding cs(2)[symmetric] in_concat_nth using i by blast
    then show "key_at F h x \<noteq> key" by (rule new)
  qed
  then have dup: "HT_Get_loop F h key (buckets ht ! ?i) = Some 0"
    using HT_Get_loop_chain[of F h "buckets ht ! ?i" "cs ! ?i" key] i cs(1) by (auto simp: ht_chains_def)
  from v(3) obtain n where n: "h v = Some n" by auto
  let ?h0 = "h(v \<mapsto> updl F (hkey_update (\<lambda>_. key)) n)"
  have k0: "key_at F ?h0 x = (if x = v then key else key_at F h x)" for x by (simp add: key_at_def get_updl)
  have vcs: "v \<notin> set (concat cs)" using v(1) cs(2) by simp
  have c0: "ht_chains F ?h0 ht cs"
    unfolding ht_chains_def
  proof (intro conjI allI impI ballI)
    fix j assume j: "j < length cs"
    then have vj: "v \<notin> set (cs ! j)" using vcs by (auto simp: in_concat_nth)
    then have "chain F ?h0 b (cs ! j) = chain F h b (cs ! j)" for b by (intro chain_cong) auto
    with j cs(1) show "chain F ?h0 (buckets ht ! j) (cs ! j)" by (simp add: ht_chains_def)
    fix x assume "x \<in> set (cs ! j)"
    with j cs(1) vj show "HT_GetBucket ht (key_at F ?h0 x) = j" unfolding k0 by (auto simp: ht_chains_def)
  qed (use cs(1) in \<open>simp_all add: ht_chains_def\<close>)
  have v0: "?h0 v \<noteq> None" "?i = HT_GetBucket ht (key_at F ?h0 v)" by (simp_all add: k0)
  obtain h1 ht1 where push: "HT_push F ?h0 ht ?i v = Some (h1, ht1)" "ht_chains F h1 ht1 (cs[?i := v # cs ! ?i])"
    "hpower ht1 = hpower ht" "seed ht1 = seed ht" "hcount ht1 = hcount ht"
    "\<And>x. key_at F h1 x = key_at F ?h0 x" "link_upd F (insert v (set (concat cs))) ?h0 h1"
    by (rule push_chains[OF c0 vcs v(2) v0]) blast
  note cp = concat_push[OF i, of v]
  let ?ht1 = "ht1\<lparr>hcount := hcount ht1 + 1\<rparr>"
  have c1: "ht_chains F h1 ?ht1 (cs[?i := v # cs ! ?i])"
    using push(2) by (simp add: ht_chains_def HT_GetBucket_def)
  have l1: "link_upd F (insert v X) h h1"
  proof (rule link_upd_trans)
    show "link_upd F (insert v X) ?h0 h1" using push(7) cs(2) by simp
    show "link_upd F (insert v X) h ?h0" by (rule link_upd_step[OF link_upd_refl]) (use n in auto)
  qed
  have run: "HT_Insert F True h ht v key = (if 3 * 2 ^ hpower ?ht1 < 4 * hcount ?ht1 then HT_Expand F True h1 ?ht1 else Some (h1, ?ht1))"
    using rb dup n push(1) by (simp add: HT_Insert_def Let_def)
  have fin: "ht_rep F h' ht' (insert v X)"
    if "ht_chains F h' ht' cs'" "set (concat cs') = insert v X" "length (concat cs') = Suc (length (concat cs))"
      "hcount ht' = hcount ht + 1" "\<And>x. key_at F h' x = key_at F ?h0 x" for h' ht' cs'
  proof -
    have "inj_on (key_at F h') (insert v X)"
      unfolding inj_on_insert
    proof
      have eq: "key_at F h' x = key_at F h x" if "x \<in> X" for x using that v(1) \<open>\<And>x. key_at F h' x = key_at F ?h0 x\<close>[of x] k0[of x] by auto
      show "inj_on (key_at F h') X" using inj inj_on_cong[of X "key_at F h'" "key_at F h"] eq by blast
      have "key_at F h' v = key" using that(5)[of v] k0[of v] by simp
      then show "key_at F h' v \<notin> key_at F h' ` (X - {v})" using eq new by fastforce
    qed
    then show ?thesis using that cs(3) unfolding ht_rep_def by (intro conjI exI[of _ cs']) simp_all
  qed
  show thesis
  proof (cases "3 * 2 ^ hpower ?ht1 < 4 * hcount ?ht1")
    case False
    have "ht_rep F h1 ?ht1 (insert v X)"
      by (rule fin[OF c1]) (use cp cs push in simp_all)
    with False run push l1 k0 show thesis by (intro that[of h1 ?ht1]) simp_all
  next
    case True
    have "hpower ?ht1 < 30" using p push by simp
    note pw = this
    obtain h' ht' cs' where e: "HT_Expand F True h1 ?ht1 = Some (h', ht')" "ht_chains F h' ht' cs'"
      "set (concat cs') = insert v X" "length (concat cs') = Suc (length (concat cs))"
      "hpower ht' = hpower ?ht1 + 1" "seed ht' = seed ?ht1" "hcount ht' = hcount ?ht1" "\<And>x. key_at F h' x = key_at F h1 x"
      "link_upd F (insert v X) h1 h'"
      by (rule expand_rep[OF c1 pw, unfolded cp cs(2)]) blast
    have "ht_rep F h' ht' (insert v X)"
      by (rule fin[OF e(2)]) (use e push in simp_all)
    with True run e push l1 k0 link_upd_trans[OF e(9) l1] show thesis by (intro that[of h' ht']) simp_all
  qed
qed

end

section \<open>Properties\<close>

lemma HT_Get_unique:
  assumes "ht_rep F h ht X" "x \<in> X" "key_at F h x = key"
  shows "HT_Get F h ht key = Some x"
proof -
  from HT_Get_spec[OF assms(1), of key] obtain y where y: "HT_Get F h ht key = Some y"
    "if y = 0 then \<forall>z \<in> X. key_at F h z \<noteq> key else y \<in> X \<and> key_at F h y = key" by blast
  with assms(2,3) have "y \<in> X" "key_at F h y = key" by (auto split: if_splits)
  moreover have "inj_on (key_at F h) X" using assms(1) by (simp add: ht_rep_def)
  ultimately show ?thesis using assms(2,3) y(1) by (auto dest: inj_onD)
qed

lemma HT_Get_absent:
  assumes "ht_rep F h ht X" "\<And>x. x \<in> X \<Longrightarrow> key_at F h x \<noteq> key"
  shows "HT_Get F h ht key = Some 0"
  using HT_Get_spec[OF assms(1), of key] assms(2) by (auto split: if_splits)

lemma ht_rep_frame:
  assumes r: "ht_rep F h ht X" and e: "\<And>x. x \<in> X \<Longrightarrow> map_option (getl F) (h' x) = map_option (getl F) (h x)"
  shows "ht_rep F h' ht X" "\<And>x. x \<in> X \<Longrightarrow> key_at F h' x = key_at F h x"
proof -
  from r obtain cs where cs: "ht_chains F h ht cs" "set (concat cs) = X" "hcount ht = int (length (concat cs))"
    and inj: "inj_on (key_at F h) X" by (auto simp: ht_rep_def)
  have dom: "h x \<noteq> None" if x: "x \<in> X" for x
  proof -
    from x obtain j where j: "j < length cs" "x \<in> set (cs ! j)" unfolding cs(2)[symmetric] in_concat_nth by blast
    with cs(1) have "chain F h (buckets ht ! j) (cs ! j)" by (auto simp: ht_chains_def)
    from chain_dom[OF this j(2)] show ?thesis by simp
  qed
  show k: "key_at F h' x = key_at F h x" if "x \<in> X" for x
    using e[OF that] dom[OF that] by (cases "h' x") (auto simp: key_at_def)
  have "ht_chains F h' ht cs"
    unfolding ht_chains_def
  proof (intro conjI allI impI ballI)
    fix j assume j: "j < length cs"
    have sub: "x \<in> X" if "x \<in> set (cs ! j)" for x unfolding cs(2)[symmetric] in_concat_nth using j that by blast
    have "map_option (\<lambda>v. hnext (getl F v)) (h' x) = map_option (\<lambda>v. hnext (getl F v)) (h x)" if "x \<in> set (cs ! j)" for x
      using e[OF sub[OF that]] by (cases "h' x"; cases "h x") auto
    then have "chain F h' (buckets ht ! j) (cs ! j) = chain F h (buckets ht ! j) (cs ! j)" by (rule chain_cong)
    with j cs(1) show "chain F h' (buckets ht ! j) (cs ! j)" by (simp add: ht_chains_def)
    fix x assume x: "x \<in> set (cs ! j)"
    with j cs(1) k[OF sub[OF x]] show "HT_GetBucket ht (key_at F h' x) = j" by (simp add: ht_chains_def)
  qed (use cs(1) in \<open>simp_all add: ht_chains_def\<close>)
  moreover have "inj_on (key_at F h') X" using inj inj_on_cong[of X "key_at F h'" "key_at F h"] k by blast
  ultimately show "ht_rep F h' ht X" using cs unfolding ht_rep_def by blast
qed

lemma HT_Init_rep: "HT_Init s True = Some ht \<Longrightarrow> ht_rep F h ht {}"
  unfolding ht_rep_def ht_chains_def HT_Init_def INITIAL_POWER_def
  by (intro conjI exI[of _ "replicate (2 ^ 10) []"]) auto

text \<open>C16: After \<open>HT_Insert\<close> of a value with a new key \<open>HT_Get\<close> finds the value under this key and finds
  every other key as before, also when the insertion expanded the table. The rest of the
  values is not changed.\<close>

theorem HT_Insert_Get:
  assumes F: "ht_field F" and r: "ht_rep F h ht X" and v: "v \<notin> X" "v \<noteq> 0" "h v \<noteq> None"
    and new: "HT_Get F h ht key = Some 0" and p: "hpower ht < 30"
  shows "\<exists>h' ht'. HT_Insert F True h ht v key = Some (h', ht') \<and> ht_rep F h' ht' (insert v X) \<and>
    HT_Get F h' ht' key = Some v \<and> (\<forall>k. k \<noteq> key \<longrightarrow> HT_Get F h' ht' k = HT_Get F h ht k) \<and>
    link_upd F (insert v X) h h'"
proof -
  have n: "key_at F h y \<noteq> key" if "y \<in> X" for y
  proof
    assume "key_at F h y = key"
    from HT_Get_unique[OF r that this] new have "y = 0" by simp
    from r have "0 \<notin> X"
      by (auto simp: ht_rep_def ht_chains_def in_concat_nth dest!: chain_dom simp del: set_concat)
    with that \<open>y = 0\<close> show False by simp
  qed
  obtain h' ht' where i: "HT_Insert F True h ht v key = Some (h', ht')" "ht_rep F h' ht' (insert v X)"
    "key_at F h' v = key" "\<And>x. x \<noteq> v \<Longrightarrow> key_at F h' x = key_at F h x" "link_upd F (insert v X) h h'"
    by (rule ht_field.Insert_spec[OF F r v n p]) (assumption, rule that)
  have "HT_Get F h' ht' k = HT_Get F h ht k" if k: "k \<noteq> key" for k
  proof (cases "\<exists>x \<in> X. key_at F h x = k")
    case True
    then obtain x where x: "x \<in> X" "key_at F h x = k" by blast
    then have "x \<noteq> v" using v(1) by blast
    then show ?thesis using HT_Get_unique[OF r x] HT_Get_unique[OF i(2), of x k] i(4)[of x] x by simp
  next
    case False
    moreover have "key_at F h' x \<noteq> k" if "x \<in> insert v X" for x
      using that False i(3) i(4)[of x] k by (cases "x = v") auto
    ultimately show ?thesis using HT_Get_absent[OF r, of k] HT_Get_absent[OF i(2), of k] by auto
  qed
  with i HT_Get_unique[OF i(2), of v key] show ?thesis by blast
qed

text \<open>C17: \<open>HT_Iter\<close> on a table without values reads past the end of the bucket array: the loop reads the
  bucket before it compares with the end.\<close>

theorem HT_Iter_empty_overread:
  assumes "buckets ht = replicate (2 ^ hpower ht) 0"
  shows "HT_Iter ht = None"
proof -
  have "HT_Iter_loop ht i = None" if "i \<le> 2 ^ hpower ht" for i
    using that
  proof (induction "2 ^ hpower ht - i" arbitrary: i)
    case 0
    then show ?case by (subst HT_Iter_loop.simps) (simp add: read_bucket_def assms)
  next
    case (Suc n)
    then have "i < 2 ^ hpower ht" by simp
    moreover have "HT_Iter_loop ht (i + 1) = None" using Suc(1)[of "i + 1"] Suc(2) \<open>i < 2 ^ hpower ht\<close> by simp
    ultimately show ?case by (subst HT_Iter_loop.simps) (simp add: read_bucket_def assms)
  qed
  then show ?thesis by (simp add: HT_Iter_def)
qed

section \<open>Concrete tables\<close>

text \<open>Values that consist of their link only, as in a table of one bucket.\<close>

definition bare_link :: "HT_Link_t HT_FIELD" where
  "bare_link = \<lparr>getl = (\<lambda>v. v), updl = (\<lambda>f v. f v)\<rparr>"

interpretation bare: ht_field bare_link
  by unfold_locales (simp add: bare_link_def)

definition one_bucket :: HT_t where
  "one_bucket = \<lparr>hpower = 0, hcount = 0, buckets = [0], seed = 0\<rparr>"

definition one_value :: "HT_Link_t heap" where
  "one_value = [2 \<mapsto> \<lparr>hnext = 0, pprev = Bucket 0, hkey = []\<rparr>]"

lemma one_bucket_rep: "ht_rep bare_link one_value one_bucket {}" "HT_Get bare_link one_value one_bucket key = Some 0"
proof -
  show r: "ht_rep bare_link one_value one_bucket {}"
    unfolding ht_rep_def ht_chains_def one_bucket_def by (intro conjI exI[of _ "[[]]"]) auto
  show "HT_Get bare_link one_value one_bucket key = Some 0" by (rule HT_Get_absent[OF r]) simp
qed

theorem HT_Insert_Get_witness:
  "\<exists>h' ht'. HT_Insert bare_link True one_value one_bucket 2 [7] = Some (h', ht') \<and> HT_Get bare_link h' ht' [7] = Some 2"
  using HT_Insert_Get[OF bare.ht_field_axioms one_bucket_rep(1) _ _ _ one_bucket_rep(2), of 2 "[7]"]
  by (auto simp: one_value_def one_bucket_def)

theorem HT_Iter_empty_overread_witness: "HT_Iter one_bucket = None"
  using HT_Iter_empty_overread[of one_bucket] by (simp add: one_bucket_def)

text \<open>Two neighbours \<open>2 \<rightarrow> 3\<close> of a chain: after both are unlinked the bucket still holds one, because
  \<open>HT_Unlink\<close> does not update the \<open>pprev\<close> of the next value.\<close>

definition two_bucket :: HT_t where
  "two_bucket = \<lparr>hpower = 0, hcount = 2, buckets = [2], seed = 0\<rparr>"

definition two_values :: "HT_Link_t heap" where
  "two_values = [2 \<mapsto> \<lparr>hnext = 3, pprev = Bucket 0, hkey = [1]\<rparr>, 3 \<mapsto> \<lparr>hnext = 0, pprev = NextOf 2, hkey = [2]\<rparr>]"

lemma HT_Unlink_twice:
  "do { (h, ht) \<leftarrow> HT_Unlink bare_link two_values two_bucket 2;
        (h, ht) \<leftarrow> HT_Unlink bare_link h ht 3;
        Some (hcount ht, buckets ht) } = Some (0, [3])"
  by (simp add: HT_Unlink_def two_values_def two_bucket_def bare_link_def)

end
