(* ===== verification/StoreVSet.thy ===== *)
theory StoreVSet
  imports Interval RBMap HashTable "HOL-Library.Char_ord" "HOL-Library.List_Lexorder" "HOL-Library.Product_Lexorder"
begin

text \<open>
  Cache entries and version sets: \<open>src/src/server/storevset.h\<close>, \<open>src/src/server/storevset.c\<close>, and the
  comparison functions of the trees of the store in \<open>src/src/server/store.c\<close>.

  All the entries of a store live in one heap of tree nodes; the address of an entry is the
  address of its node. A version set is the tree of the entries of one key, ordered by the
  lower end of their intervals.
\<close>

section \<open>C strings\<close>

fun strcmp :: "string \<Rightarrow> string \<Rightarrow> int" where
  "strcmp [] [] = 0"
| "strcmp [] (d # ds) = - 1"
| "strcmp (c # cs) [] = 1"
| "strcmp (c # cs) (d # ds) =
     (if (of_char c :: nat) < of_char d then - 1 else if (of_char d :: nat) < of_char c then 1 else strcmp cs ds)"

definition strncmp :: "string \<Rightarrow> string \<Rightarrow> nat \<Rightarrow> int" where
  "strncmp s t n = strcmp (take n s) (take n t)"

lemma strcmp_eq [simp]: "strcmp s t = 0 \<longleftrightarrow> s = t"
  by (induction s t rule: strcmp.induct) (auto simp: less_le)

lemma strcmp_less: "strcmp s t < 0 \<longleftrightarrow> s < t"
  by (induction s t rule: strcmp.induct) (auto simp: less_char_def)

lemma strncmp_prefix: "strncmp s t (length t) = 0 \<longleftrightarrow> take (length t) s = t"
  by (simp add: strncmp_def)

section \<open>Entries and version sets\<close>

type_synonym time_t = int

record entry_t =
  interval :: interval_t
  edata :: "byte list option"
  dataLen :: size_t
  evset :: addr
  nInvalTags :: nat
  invalTags :: "string list"
  invalTagsLen :: size_t
  elru :: LIST_Link_t
  hitCount :: int
  timeInvalidated :: time_t
  einvTimeOrder :: LIST_Link_t

type_synonym entry_heap = "entry_t RB_node_t heap"

record StoreVSet_t =
  versions :: RB_t
  linesLink :: HT_Link_t

definition EntryLRU :: "entry_t RB_node_t FIELD" where
  "EntryLRU = \<lparr>getf = (\<lambda>n. elru (rdata n)), updf = (\<lambda>f. rdata_update (elru_update f))\<rparr>"

definition EntryInvTimeOrder :: "entry_t RB_node_t FIELD" where
  "EntryInvTimeOrder = \<lparr>getf = (\<lambda>n. einvTimeOrder (rdata n)), updf = (\<lambda>f. rdata_update (einvTimeOrder_update f))\<rparr>"

definition StoreHT :: "StoreVSet_t HT_FIELD" where
  "StoreHT = \<lparr>getl = linesLink, updl = linesLink_update\<rparr>"

interpretation lru_field: container_field EntryLRU
  by unfold_locales (simp add: EntryLRU_def)

interpretation invTime_field: container_field EntryInvTimeOrder
  by unfold_locales (simp add: EntryInvTimeOrder_def)

interpretation lines_field: ht_field StoreHT
  by unfold_locales (simp add: StoreHT_def)

text \<open>The entry that \<open>memset\<close> leaves.\<close>

definition zero_entry :: entry_t where
  "zero_entry = \<lparr>interval = \<lparr>lower = 0, upper = 0, stillValid = False\<rparr>, edata = None, dataLen = 0, evset = 0,
     nInvalTags = 0, invalTags = [], invalTagsLen = 0, elru = \<lparr>lprev = 0, lnext = 0, llist = 0\<rparr>, hitCount = 0,
     timeInvalidated = 0, einvTimeOrder = \<lparr>lprev = 0, lnext = 0, llist = 0\<rparr>\<rparr>"

definition StoreVSet_InitValue :: "pin_t \<Rightarrow> entry_t" where
  "StoreVSet_InitValue l = zero_entry
     \<lparr>interval := interval zero_entry\<lparr>lower := l\<rparr>, edata := None, evset := 0, nInvalTags := 0, invalTags := [],
      invalTagsLen := 0\<rparr>"

text \<open>What it checks; it only frees otherwise.\<close>

definition StoreVSet_ReleaseValue :: "entry_t \<Rightarrow> unit option" where
  "StoreVSet_ReleaseValue e = Assert (llist (elru e) = 0)"

definition StoreVSet_CompareValue :: "entry_t \<Rightarrow> pin_t \<Rightarrow> int" where
  "StoreVSet_CompareValue e l = (if lower (interval e) < l then - 1 else if lower (interval e) = l then 0 else 1)"

definition StoreVSetTree :: "(pin_t, entry_t) RBTreeImpl" where
  "StoreVSetTree = \<lparr>INIT_VALUE_func = (\<lambda>l. Some (StoreVSet_InitValue l)),
     COMPARE_VALUE_func = StoreVSet_CompareValue, ZERO_VALUE = zero_entry\<rparr>"

interpretation vset_tree: rb_order StoreVSetTree "\<lambda>e. lower (interval e)" "\<lambda>l. l"
  by unfold_locales (auto simp: StoreVSetTree_def StoreVSet_CompareValue_def StoreVSet_InitValue_def)

section \<open>The invalidation map and the invalidation buffer\<close>

record StoreInvalMapEntry_t =
  mtag :: string
  mentry :: addr

text \<open>The tag of a query may be null.\<close>

record StoreInvalBufferEntry_t =
  bpin :: pin_t
  btime :: time_t
  btag :: "string option"
  bdescendants :: bool

definition StoreInvalTree_InitValue :: "StoreInvalMapEntry_t \<Rightarrow> StoreInvalMapEntry_t" where
  "StoreInvalTree_InitValue key = key"

definition StoreInvalTree_CompareValue :: "StoreInvalMapEntry_t \<Rightarrow> StoreInvalMapEntry_t \<Rightarrow> int" where
  "StoreInvalTree_CompareValue val key =
     (let i = strcmp (mtag val) (mtag key) in
      if i \<noteq> 0 then i
      else if mentry val < mentry key then - 1
      else if mentry val = mentry key then 0 else 1)"

definition StoreInvalTree :: "(StoreInvalMapEntry_t, StoreInvalMapEntry_t) RBTreeImpl" where
  "StoreInvalTree = \<lparr>INIT_VALUE_func = (\<lambda>key. Some (StoreInvalTree_InitValue key)),
     COMPARE_VALUE_func = StoreInvalTree_CompareValue, ZERO_VALUE = \<lparr>mtag = [], mentry = 0\<rparr>\<rparr>"

abbreviation map_key :: "StoreInvalMapEntry_t \<Rightarrow> string \<times> addr" where
  "map_key m \<equiv> (mtag m, mentry m)"

interpretation inval_tree: rb_order StoreInvalTree map_key map_key
proof
  fix v k :: StoreInvalMapEntry_t
  show "(COMPARE_VALUE_func StoreInvalTree v k < 0) = (map_key v < map_key k)"
    by (auto simp: StoreInvalTree_def StoreInvalTree_CompareValue_def Let_def strcmp_less less_prod_def)
  show "(COMPARE_VALUE_func StoreInvalTree v k = 0) = (map_key v = map_key k)"
    by (auto simp: StoreInvalTree_def StoreInvalTree_CompareValue_def Let_def)
  show "map_key v = map_key k" if "INIT_VALUE_func StoreInvalTree k = Some v"
    using that by (simp add: StoreInvalTree_def StoreInvalTree_InitValue_def)
qed

definition StoreInvalBuffer_InitValue :: "StoreInvalBufferEntry_t \<Rightarrow> StoreInvalBufferEntry_t" where
  "StoreInvalBuffer_InitValue key = key"

text \<open>A query without a tag compares as if its tag came after every other tag.\<close>

definition StoreInvalBuffer_CompareValue :: "StoreInvalBufferEntry_t \<Rightarrow> StoreInvalBufferEntry_t \<Rightarrow> int" where
  "StoreInvalBuffer_CompareValue val key =
     (if bpin val < bpin key then - 1
      else if bpin val > bpin key then 1
      else case btag key of None \<Rightarrow> - 1
           | Some t \<Rightarrow> (case btag val of None \<Rightarrow> 1 | Some s \<Rightarrow> strcmp s t))"

text \<open>Every value of the buffer has a tag. With a null tag in the tree every later comparison would read
  through a null pointer; the model already stops at the insertion of such a value.\<close>

definition StoreInvalBuffer :: "(StoreInvalBufferEntry_t, StoreInvalBufferEntry_t) RBTreeImpl" where
  "StoreInvalBuffer = \<lparr>INIT_VALUE_func = (\<lambda>key. if btag key = None then None else Some (StoreInvalBuffer_InitValue key)),
     COMPARE_VALUE_func = StoreInvalBuffer_CompareValue,
     ZERO_VALUE = \<lparr>bpin = 0, btime = 0, btag = None, bdescendants = False\<rparr>\<rparr>"

definition buf_key :: "StoreInvalBufferEntry_t \<Rightarrow> pin_t \<times> nat \<times> string" where
  "buf_key v = (bpin v, case btag v of None \<Rightarrow> (1, []) | Some s \<Rightarrow> (0, s))"

definition buf_query :: "StoreInvalBufferEntry_t \<Rightarrow> pin_t \<times> nat \<times> string" where
  "buf_query v = (bpin v, case btag v of None \<Rightarrow> (2, []) | Some s \<Rightarrow> (0, s))"

interpretation inval_buffer: rb_order StoreInvalBuffer buf_key buf_query
proof
  fix v k :: StoreInvalBufferEntry_t
  show "(COMPARE_VALUE_func StoreInvalBuffer v k < 0) = (buf_key v < buf_query k)"
    by (auto simp: StoreInvalBuffer_def StoreInvalBuffer_CompareValue_def buf_key_def buf_query_def less_prod_def strcmp_less
        split: option.split)
  show "(COMPARE_VALUE_func StoreInvalBuffer v k = 0) = (buf_key v = buf_query k)"
    by (auto simp: StoreInvalBuffer_def StoreInvalBuffer_CompareValue_def buf_key_def buf_query_def split: option.split)
  show "buf_key v = buf_query k" if "INIT_VALUE_func StoreInvalBuffer k = Some v"
    using that by (auto simp: StoreInvalBuffer_def StoreInvalBuffer_InitValue_def buf_key_def buf_query_def split: if_splits)
qed

end
