(* ===== verification/StorePolicy.thy ===== *)
theory StorePolicy
  imports StoreVSet
begin

text \<open>
  The state of the cache store (\<open>src/src/server/store.h\<close>), its lookup policies
  (\<open>src/src/server/lookuppolicy.c\<close>) and its eviction policy (\<open>src/src/server/evictionpolicy.c\<close>).

  The state holds the C structure \<open>Store_t\<close> and the heaps of the objects that it points to: the
  entries of all the version sets, the version sets, the nodes of the invalidation map and of
  the invalidation buffer, and the statistics by class. The results of \<open>malloc\<close> and of
  \<open>time(NULL)\<close> are sequences in the state; \<open>malloc\<close> returns \<open>0\<close> when it fails. An operation returns
  \<open>None\<close> when it panics, fails an assertion or accesses memory that it must not. Counters of
  type \<open>long\<close> are unbounded; debugging output and the text of the statistics are left out.
\<close>

section \<open>The state\<close>

record StoreClassStats_t =
  lookups :: int
  hits :: int
  keyMisses :: int
  stalenessMisses :: int
  capacityMisses :: int
  consistencyMisses :: int
  extensions :: int
  potentialExtensions :: int
  entries :: int
  clink :: HT_Link_t

text \<open>The identifiers of lookup policies come from the network as numbers.\<close>

type_synonym StoreLookupPolicyId_t = "32 word"

definition LOOKUP_POLICY_LATEST :: StoreLookupPolicyId_t where "LOOKUP_POLICY_LATEST = 0"
definition LOOKUP_POLICY_OLDEST :: StoreLookupPolicyId_t where "LOOKUP_POLICY_OLDEST = 1"
definition LOOKUP_POLICY_SCREW_CONSISTENCY :: StoreLookupPolicyId_t where "LOOKUP_POLICY_SCREW_CONSISTENCY = 2"
definition NUM_LOOKUP_POLICIES :: nat where "NUM_LOOKUP_POLICIES = 3"

datatype LookupOutcome_t = LOOKUP_HIT | LOOKUP_STALENESS_MISS | LOOKUP_CAPACITY_MISS | LOOKUP_CONSISTENCY_MISS

datatype StoreLookupPolicy_t = LookupPolicy_Latest | LookupPolicy_ScrewConsistency

datatype StoreEvictionPolicy_t = EvictionPolicy_LRU

text \<open>The state of the LRU policy, the cookie of the store.\<close>

record LRUEviction_State_t =
  lru :: LIST_t
  iterPos :: addr

record Store_t =
  lines :: HT_t
  keyBytes :: size_t
  entryBytes :: size_t
  maxBytes :: size_t
  lastInvalTime :: pin_t
  invalMap :: RB_t
  invalBuffer :: RB_t
  bufferValidFrom :: pin_t
  lookupPolicyTable :: "StoreLookupPolicy_t option list"
  evictionPolicy :: StoreEvictionPolicy_t
  evictionPolicyState :: LRUEviction_State_t
  hasEvicted :: bool
  uselessBound :: time_t
  invTimeOrder :: LIST_t
  totalStats :: StoreClassStats_t
  classStats :: HT_t
  collectStats :: bool
  eheap :: entry_heap
  vheap :: "StoreVSet_t heap"
  mheap :: "StoreInvalMapEntry_t RB_node_t heap"
  bheap :: "StoreInvalBufferEntry_t RB_node_t heap"
  cheap :: "StoreClassStats_t heap"
  mallocs :: "nat \<Rightarrow> addr"
  nmalloc :: nat
  clock :: "nat \<Rightarrow> time_t"
  nclock :: nat

text \<open>The addresses of the two lists of entries.\<close>

definition LRU_LIST :: addr where "LRU_LIST = 2"
definition INV_TIME_LIST :: addr where "INV_TIME_LIST = 3"

definition malloc :: "Store_t \<Rightarrow> addr \<times> Store_t" where
  "malloc s = (mallocs s (nmalloc s), s\<lparr>nmalloc := nmalloc s + 1\<rparr>)"

definition time_NULL :: "Store_t \<Rightarrow> time_t \<times> Store_t" where
  "time_NULL s = (clock s (nclock s), s\<lparr>nclock := nclock s + 1\<rparr>)"

definition zero_stats :: StoreClassStats_t where
  "zero_stats = \<lparr>lookups = 0, hits = 0, keyMisses = 0, stalenessMisses = 0, capacityMisses = 0, consistencyMisses = 0,
     extensions = 0, potentialExtensions = 0, entries = 0, clink = \<lparr>hnext = 0, pprev = Bucket 0, hkey = []\<rparr>\<rparr>"

definition StoreClassStatsHash :: "StoreClassStats_t HT_FIELD" where
  "StoreClassStatsHash = \<lparr>getl = clink, updl = clink_update\<rparr>"

interpretation stats_field: ht_field StoreClassStatsHash
  by unfold_locales (simp add: StoreClassStatsHash_def)

text \<open>The entry at an address, and writes to an entry.\<close>

definition entry_at :: "Store_t \<Rightarrow> addr \<Rightarrow> entry_t option" where
  "entry_at s e = map_option rdata (eheap s e)"

definition upd_entry :: "Store_t \<Rightarrow> addr \<Rightarrow> (entry_t \<Rightarrow> entry_t) \<Rightarrow> Store_t option" where
  "upd_entry s e f = do { h \<leftarrow> upd (eheap s) e (rdata_update f); Some (s\<lparr>eheap := h\<rparr>) }"

section \<open>The trees of the store\<close>

definition StoreVSetTree_Find :: "Store_t \<Rightarrow> addr \<Rightarrow> pin_t \<Rightarrow> RB_Relation \<Rightarrow> addr option" where
  "StoreVSetTree_Find s v key rel = do {
     vs \<leftarrow> vheap s v;
     RB_Find StoreVSetTree (eheap s) (versions vs) key rel
   }"

definition StoreVSetTree_Insert :: "Store_t \<Rightarrow> addr \<Rightarrow> pin_t \<Rightarrow> (Store_t \<times> addr) option" where
  "StoreVSetTree_Insert s v key = do {
     vs \<leftarrow> vheap s v;
     let (a, s) = malloc s;
     (h, tree, r) \<leftarrow> RB_Insert StoreVSetTree (eheap s) (versions vs) key a;
     Some (s\<lparr>eheap := h, vheap := (vheap s)(v \<mapsto> vs\<lparr>versions := tree\<rparr>)\<rparr>, r)
   }"

text \<open>The removed value is released, which checks that it is in no LRU list any more.\<close>

definition StoreVSetTree_Remove :: "Store_t \<Rightarrow> addr \<Rightarrow> pin_t \<Rightarrow> (Store_t \<times> bool) option" where
  "StoreVSetTree_Remove s v key = do {
     vs \<leftarrow> vheap s v;
     f \<leftarrow> RB_Find StoreVSetTree (eheap s) (versions vs) key RB_EQ;
     (if f \<noteq> 0 then do { e \<leftarrow> entry_at s f; StoreVSet_ReleaseValue e } else Some ());
     (h, tree, r) \<leftarrow> RB_Remove StoreVSetTree (eheap s) (versions vs) key;
     Some (s\<lparr>eheap := h, vheap := (vheap s)(v \<mapsto> vs\<lparr>versions := tree\<rparr>)\<rparr>, r)
   }"

definition StoreInvalTree_Insert :: "Store_t \<Rightarrow> StoreInvalMapEntry_t \<Rightarrow> (Store_t \<times> addr) option" where
  "StoreInvalTree_Insert s key = do {
     let (a, s) = malloc s;
     (h, tree, r) \<leftarrow> RB_Insert StoreInvalTree (mheap s) (invalMap s) key a;
     Some (s\<lparr>mheap := h, invalMap := tree\<rparr>, r)
   }"

definition StoreInvalTree_Remove :: "Store_t \<Rightarrow> StoreInvalMapEntry_t \<Rightarrow> (Store_t \<times> bool) option" where
  "StoreInvalTree_Remove s key = do {
     (h, tree, r) \<leftarrow> RB_Remove StoreInvalTree (mheap s) (invalMap s) key;
     Some (s\<lparr>mheap := h, invalMap := tree\<rparr>, r)
   }"

definition StoreInvalBuffer_Insert :: "Store_t \<Rightarrow> StoreInvalBufferEntry_t \<Rightarrow> (Store_t \<times> addr) option" where
  "StoreInvalBuffer_Insert s key = do {
     let (a, s) = malloc s;
     (h, tree, r) \<leftarrow> RB_Insert StoreInvalBuffer (bheap s) (invalBuffer s) key a;
     Some (s\<lparr>bheap := h, invalBuffer := tree\<rparr>, r)
   }"

definition StoreInvalBuffer_Remove :: "Store_t \<Rightarrow> StoreInvalBufferEntry_t \<Rightarrow> (Store_t \<times> bool) option" where
  "StoreInvalBuffer_Remove s key = do {
     (h, tree, r) \<leftarrow> RB_Remove StoreInvalBuffer (bheap s) (invalBuffer s) key;
     Some (s\<lparr>bheap := h, invalBuffer := tree\<rparr>, r)
   }"

section \<open>Lookup policies\<close>

text \<open>The outcome and the entry.\<close>

definition LatestAcceptable_Lookup ::
  "Store_t \<Rightarrow> addr \<Rightarrow> interval_t \<Rightarrow> pin_t \<Rightarrow> (LookupOutcome_t \<times> addr) option" where
  "LatestAcceptable_Lookup s v i earliestPin = do {
     e \<leftarrow> StoreVSetTree_Find s v (upper i) RB_LT;
     if e = 0 then Some (LOOKUP_STALENESS_MISS, 0)
     else do {
       en \<leftarrow> entry_at s e;
       ov \<leftarrow> Interval_Overlaps (interval en) i (lastInvalTime s);
       if ov then Some (LOOKUP_HIT, e)
       else if upper (interval en) \<ge> earliestPin then Some (LOOKUP_CONSISTENCY_MISS, 0)
       else Some (LOOKUP_STALENESS_MISS, 0)
     }
   }"

definition ScrewConsistency_Lookup ::
  "Store_t \<Rightarrow> addr \<Rightarrow> interval_t \<Rightarrow> pin_t \<Rightarrow> (LookupOutcome_t \<times> addr) option" where
  "ScrewConsistency_Lookup s v i earliestPin = do {
     e \<leftarrow> StoreVSetTree_Find s v (upper i) RB_LT;
     if e = 0 then Some (LOOKUP_STALENESS_MISS, 0)
     else do {
       en \<leftarrow> entry_at s e;
       if stillValid (interval en) \<or> upper (interval en) \<ge> earliestPin then Some (LOOKUP_HIT, e)
       else Some (LOOKUP_STALENESS_MISS, 0)
     }
   }"

definition policy_lookup ::
  "StoreLookupPolicy_t \<Rightarrow> Store_t \<Rightarrow> addr \<Rightarrow> interval_t \<Rightarrow> pin_t \<Rightarrow> (LookupOutcome_t \<times> addr) option" where
  "policy_lookup p = (case p of LookupPolicy_Latest \<Rightarrow> LatestAcceptable_Lookup
     | LookupPolicy_ScrewConsistency \<Rightarrow> ScrewConsistency_Lookup)"

definition eviction_policy_name :: "StoreEvictionPolicy_t \<Rightarrow> string" where
  "eviction_policy_name p = (case p of EvictionPolicy_LRU \<Rightarrow> ''LRU'')"

definition policy_id :: "StoreLookupPolicy_t \<Rightarrow> StoreLookupPolicyId_t" where
  "policy_id p = (case p of LookupPolicy_Latest \<Rightarrow> LOOKUP_POLICY_LATEST
     | LookupPolicy_ScrewConsistency \<Rightarrow> LOOKUP_POLICY_SCREW_CONSISTENCY)"

section \<open>LRU eviction\<close>

text \<open>The allocated state is not cleared: \<open>iterPos\<close> keeps what the memory held before.\<close>

definition LRUEviction_Init :: "Store_t \<Rightarrow> Store_t option" where
  "LRUEviction_Init s = do {
     let (a, s) = malloc s;
     Assert (a \<noteq> 0);
     Some (s\<lparr>evictionPolicyState := evictionPolicyState s\<lparr>lru := LIST_Init\<rparr>\<rparr>)
   }"

definition set_lru :: "Store_t \<Rightarrow> entry_heap \<Rightarrow> LIST_t \<Rightarrow> Store_t" where
  "set_lru s h l = s\<lparr>eheap := h, evictionPolicyState := evictionPolicyState s\<lparr>lru := l\<rparr>\<rparr>"

definition LRUEviction_Hit :: "Store_t \<Rightarrow> addr \<Rightarrow> Store_t option" where
  "LRUEviction_Hit s e =
     (if e = 0 then Some s
      else do {
        (h, l) \<leftarrow> LIST_Unlink EntryLRU LRU_LIST (eheap s) (lru (evictionPolicyState s)) e;
        (h, l) \<leftarrow> LIST_PushFront EntryLRU LRU_LIST h l e;
        Some (set_lru s h l)
      })"

definition LRUEviction_Put :: "Store_t \<Rightarrow> addr \<Rightarrow> bool \<Rightarrow> Store_t option" where
  "LRUEviction_Put s e extension = do {
     (h, l) \<leftarrow> (if extension then LIST_Unlink EntryLRU LRU_LIST (eheap s) (lru (evictionPolicyState s)) e
                else Some (eheap s, lru (evictionPolicyState s)));
     (h, l) \<leftarrow> LIST_PushFront EntryLRU LRU_LIST h l e;
     Some (set_lru s h l)
   }"

definition LRUEviction_Invalidate :: "Store_t \<Rightarrow> addr \<Rightarrow> Store_t option" where
  "LRUEviction_Invalidate s e = Some s"

definition LRUEviction_Remove :: "Store_t \<Rightarrow> addr \<Rightarrow> Store_t option" where
  "LRUEviction_Remove s e = do {
     (h, l) \<leftarrow> LIST_Unlink EntryLRU LRU_LIST (eheap s) (lru (evictionPolicyState s)) e;
     Some (set_lru s h l)
   }"

definition LRUEviction_Evict :: "Store_t \<Rightarrow> size_t \<Rightarrow> addr" where
  "LRUEviction_Evict s bytes = tail (lru (evictionPolicyState s))"

definition LRUEviction_IterReset :: "Store_t \<Rightarrow> Store_t" where
  "LRUEviction_IterReset s =
     s\<lparr>evictionPolicyState := evictionPolicyState s\<lparr>iterPos := tail (lru (evictionPolicyState s))\<rparr>\<rparr>"

definition LRUEviction_IterNext :: "Store_t \<Rightarrow> (Store_t \<times> addr) option" where
  "LRUEviction_IterNext s = (let r = iterPos (evictionPolicyState s) in
     if r \<noteq> 0
     then do {
       n \<leftarrow> entry_at s r;
       Some (s\<lparr>evictionPolicyState := evictionPolicyState s\<lparr>iterPos := lprev (elru n)\<rparr>\<rparr>, r)
     }
     else Some (s, r))"

end
