(* ===== verification/Store.thy ===== *)
theory Store
  imports StorePolicy
begin

text \<open>
  The cache store: \<open>src/src/server/store.c\<close>. Every operation of the file that changes the store is a
  function on the state of theory \<open>StorePolicy\<close>; the calls of the eviction policy go to the LRU
  policy, the only one there is.

  A loop over a linked structure is a \<open>partial_function\<close>: that it ends is part of a theorem that
  gives it a result. A key, a datum and an array of tags are lists; the terminating null of a C
  string is not part of the list.
\<close>

section \<open>Invalidation tags\<close>

definition INVAL_BUFFER_TIME :: time_t where
  "INVAL_BUFFER_TIME = 30"

text \<open>The copy and its length; a null pointer is the empty list. A pointer has 8 bytes.\<close>

definition Store_CopyInvalTags :: "Store_t \<Rightarrow> string list \<Rightarrow> Store_t \<times> string list \<times> size_t" where
  "Store_CopyInvalTags s tags =
     (if tags = [] then (s, [], 0)
      else let totalSize = of_nat (length tags) * 8 + sum_list (map (\<lambda>t. of_nat (length t) + 1) tags);
               (out, s) = malloc s
           in if out = 0 then (s, [], totalSize) else (s, tags, totalSize))"

text \<open>The tags that the loops over \<open>entry->invalTags\<close> visit; reading through the null pointer fails.\<close>

definition entry_tags :: "entry_t \<Rightarrow> string list option" where
  "entry_tags e = (if nInvalTags e \<le> length (invalTags e) then Some (take (nInvalTags e) (invalTags e)) else None)"

fun Store_RegisterInvalTags_loop :: "Store_t \<Rightarrow> addr \<Rightarrow> string list \<Rightarrow> (Store_t \<times> bool) option" where
  "Store_RegisterInvalTags_loop s e [] = Some (s, True)"
| "Store_RegisterInvalTags_loop s e (t # ts) = do {
     (s, r) \<leftarrow> StoreInvalTree_Insert s \<lparr>mtag = t, mentry = e\<rparr>;
     if r = 0 then Some (s, False) else Store_RegisterInvalTags_loop s e ts
   }"

definition Store_RegisterInvalTags :: "Store_t \<Rightarrow> addr \<Rightarrow> (Store_t \<times> bool) option" where
  "Store_RegisterInvalTags s e = do {
     en \<leftarrow> entry_at s e;
     ts \<leftarrow> entry_tags en;
     Store_RegisterInvalTags_loop s e ts
   }"

fun Store_UnregisterInvalTags_loop :: "Store_t \<Rightarrow> addr \<Rightarrow> string list \<Rightarrow> (Store_t \<times> bool) option" where
  "Store_UnregisterInvalTags_loop s e [] = Some (s, True)"
| "Store_UnregisterInvalTags_loop s e (t # ts) = do {
     (s, r) \<leftarrow> StoreInvalTree_Remove s \<lparr>mtag = t, mentry = e\<rparr>;
     if \<not> r then Some (s, False) else Store_UnregisterInvalTags_loop s e ts
   }"

definition Store_UnregisterInvalTags :: "Store_t \<Rightarrow> addr \<Rightarrow> (Store_t \<times> bool) option" where
  "Store_UnregisterInvalTags s e = do {
     en \<leftarrow> entry_at s e;
     ts \<leftarrow> entry_tags en;
     Store_UnregisterInvalTags_loop s e ts
   }"

definition invTimeOrder_PushFront :: "Store_t \<Rightarrow> addr \<Rightarrow> Store_t option" where
  "invTimeOrder_PushFront s e = do {
     (h, l) \<leftarrow> LIST_PushFront EntryInvTimeOrder INV_TIME_LIST (eheap s) (invTimeOrder s) e;
     Some (s\<lparr>eheap := h, invTimeOrder := l\<rparr>)
   }"

definition invTimeOrder_Unlink :: "Store_t \<Rightarrow> addr \<Rightarrow> Store_t option" where
  "invTimeOrder_Unlink s e = do {
     (h, l) \<leftarrow> LIST_Unlink EntryInvTimeOrder INV_TIME_LIST (eheap s) (invTimeOrder s) e;
     Some (s\<lparr>eheap := h, invTimeOrder := l\<rparr>)
   }"

definition Store_TruncateUnboundedInterval :: "Store_t \<Rightarrow> addr \<Rightarrow> pin_t \<Rightarrow> Store_t option" where
  "Store_TruncateUnboundedInterval s e now = do {
     Assert (e \<noteq> 0);
     en \<leftarrow> entry_at s e;
     Assert (stillValid (interval en));
     s \<leftarrow> upd_entry s e (interval_update (stillValid_update (\<lambda>_. False)));
     s \<leftarrow> (if now > upper (interval en) then upd_entry s e (interval_update (upper_update (\<lambda>_. now))) else Some s);
     let (t, s) = time_NULL s;
     s \<leftarrow> upd_entry s e (timeInvalidated_update (\<lambda>_. t));
     s \<leftarrow> invTimeOrder_PushFront s e;
     s \<leftarrow> LRUEviction_Invalidate s e;
     (s, _) \<leftarrow> Store_UnregisterInvalTags s e;
     Some s
   }"

section \<open>Policies and initialisation\<close>

text \<open>The lists of registered policies, most recent first. The model also stops where the code would
  make the list cyclic: at the second registration of the policy at the end of the list.\<close>

definition Store_RegisterLookupPolicy :: "StoreLookupPolicy_t list \<Rightarrow> StoreLookupPolicy_t \<Rightarrow> StoreLookupPolicy_t list option" where
  "Store_RegisterLookupPolicy lookupPolicyHead policy =
     (if policy \<in> set lookupPolicyHead then None else Some (policy # lookupPolicyHead))"

definition Store_RegisterEvictionPolicy ::
  "StoreEvictionPolicy_t list \<Rightarrow> StoreEvictionPolicy_t \<Rightarrow> StoreEvictionPolicy_t list option" where
  "Store_RegisterEvictionPolicy evictionPolicyHead policy =
     (if policy \<in> set evictionPolicyHead then None else Some (policy # evictionPolicyHead))"

definition tolower :: "char \<Rightarrow> char" where
  "tolower c = (let n = of_char c :: nat in if 65 \<le> n \<and> n \<le> 90 then char_of (n + 32) else c)"

definition strcasecmp :: "string \<Rightarrow> string \<Rightarrow> int" where
  "strcasecmp s t = strcmp (map tolower s) (map tolower t)"

fun Store_GetEvictionPolicy :: "StoreEvictionPolicy_t list \<Rightarrow> string \<Rightarrow> StoreEvictionPolicy_t option" where
  "Store_GetEvictionPolicy [] name = None"
| "Store_GetEvictionPolicy (p # ps) name =
     (if strcasecmp name (eviction_policy_name p) = 0 then Some p else Store_GetEvictionPolicy ps name)"

text \<open>The loop over the registered lookup policies; a second policy with the same identifier is a
  panic.\<close>

fun Store_policyTable :: "StoreLookupPolicy_t list \<Rightarrow> StoreLookupPolicy_t option list \<Rightarrow> StoreLookupPolicy_t option list option" where
  "Store_policyTable [] table = Some table"
| "Store_policyTable (p # ps) table =
     (let i = unat (policy_id p)
      in if i < length table \<and> table ! i = None then Store_policyTable ps (table[i := Some p]) else None)"

definition Store_Init ::
  "StoreLookupPolicy_t list \<Rightarrow> StoreEvictionPolicy_t list \<Rightarrow> Store_t \<Rightarrow> size_t \<Rightarrow> time_t \<Rightarrow> (Store_t \<times> bool) option" where
  "Store_Init lookupPolicyHead evictionPolicyHead s maxb useless = (
     let (b, s) = malloc s in
     case HT_Init (seed (lines s)) (b \<noteq> 0) of None \<Rightarrow> Some (s, False)
     | Some ht \<Rightarrow> do {
         let s = s\<lparr>lines := ht, keyBytes := 0, entryBytes := 0, maxBytes := maxb, lastInvalTime := PIN_NEG_INF,
                   collectStats := True, bufferValidFrom := PIN_NEG_INF\<rparr>;
         p \<leftarrow> Store_GetEvictionPolicy evictionPolicyHead ''lru'';
         s \<leftarrow> LRUEviction_Init (s\<lparr>evictionPolicy := p\<rparr>);
         let s = s\<lparr>hasEvicted := False, uselessBound := useless, invTimeOrder := LIST_Init, totalStats := zero_stats\<rparr>;
         let (b, s) = malloc s;
         (case HT_Init (seed (classStats s)) (b \<noteq> 0) of
            None \<Rightarrow> do { ht \<leftarrow> HT_Release (lines s); Some (s\<lparr>lines := ht\<rparr>, False) }
          | Some cs \<Rightarrow> do {
              let s = s\<lparr>classStats := cs, invalMap := RB_Init (invalMap s), invalBuffer := RB_Init (invalBuffer s)\<rparr>;
              table \<leftarrow> Store_policyTable lookupPolicyHead (replicate NUM_LOOKUP_POLICIES None);
              Assert (table ! unat LOOKUP_POLICY_LATEST \<noteq> None);
              Some (s\<lparr>lookupPolicyTable := table\<rparr>, True)
            })
       })"

section \<open>Footprints\<close>

text \<open>\<open>sizeof(StoreVSet_t)\<close> and \<open>StoreVSetTree_ElemSize()\<close> with 8-byte pointers and \<open>PARANOID\<close>.\<close>

definition SIZEOF_StoreVSet :: size_t where "SIZEOF_StoreVSet = 64"
definition StoreVSetTree_ElemSize :: size_t where "StoreVSetTree_ElemSize = 168"

definition Store_Footprint :: "Store_t \<Rightarrow> size_t" where
  "Store_Footprint s = snd (HT_Size SIZEOF_StoreVSet (lines s)) + keyBytes s + entryBytes s"

definition Store_EntryFootprint :: "size_t \<Rightarrow> size_t \<Rightarrow> size_t" where
  "Store_EntryFootprint dlen tlen = MALLOC_SIZE StoreVSetTree_ElemSize + MALLOC_SIZE dlen + MALLOC_SIZE tlen"

text \<open>The loops of \<open>Store_AssertSize\<close>: over the entries of a version set, and over the version sets.\<close>

partial_function (option) Store_AssertSize_entries :: "entry_heap \<Rightarrow> addr \<Rightarrow> size_t \<Rightarrow> size_t option" where
  "Store_AssertSize_entries h it bytes = do {
     e \<leftarrow> RB_Iterator_Value h it;
     let bytes = bytes + Store_EntryFootprint (dataLen e) (invalTagsLen e);
     (it, more) \<leftarrow> RB_Iterator_Next h it;
     if more then Store_AssertSize_entries h it bytes else Some bytes
   }"

partial_function (option) Store_AssertSize_vsets ::
  "Store_t \<Rightarrow> HT_Iter_t \<Rightarrow> size_t \<Rightarrow> size_t \<Rightarrow> (size_t \<times> size_t) option" where
  "Store_AssertSize_vsets s it kbytes ebytes = do {
     (v, it) \<leftarrow> HT_IterNext StoreHT (vheap s) (lines s) it;
     if v = 0 then Some (kbytes, ebytes)
     else do {
       vs \<leftarrow> vheap s v;
       let kbytes = kbytes + MALLOC_SIZE (of_nat (length (hkey (linesLink vs))));
       ebytes \<leftarrow> (if RB_Size (versions vs) > 0 then Store_AssertSize_entries (eheap s) (RB_First (versions vs)) ebytes
                  else Some ebytes);
       Store_AssertSize_vsets s it kbytes ebytes
     }
   }"

definition Store_AssertSize :: "Store_t \<Rightarrow> unit option" where
  "Store_AssertSize s = do {
     it \<leftarrow> HT_Iter (lines s);
     (kbytes, ebytes) \<leftarrow> Store_AssertSize_vsets s it 0 0;
     Assert (kbytes = keyBytes s);
     Assert (ebytes = entryBytes s)
   }"

section \<open>Statistics\<close>

text \<open>\<open>*(int*)key\<close> on a little-endian machine, when the key has four bytes.\<close>

definition key_int :: "byte list \<Rightarrow> u32 option" where
  "key_int key =
     (if length key \<ge> 4
      then Some (ucast (key ! 0) + push_bit 8 (ucast (key ! 1)) + push_bit 16 (ucast (key ! 2)) + push_bit 24 (ucast (key ! 3)))
      else None)"

text \<open>The class is the prefix of the key with the length in its first four bytes; it must lie in the key.\<close>

definition key_class :: "byte list \<Rightarrow> byte list option" where
  "key_class key = do {
     n \<leftarrow> key_int key;
     Assert (unat n \<le> length key - 4);
     Some (take (unat n) (drop 4 key))
   }"

definition Store_GetClassStats :: "Store_t \<Rightarrow> byte list \<Rightarrow> (Store_t \<times> addr) option" where
  "Store_GetClassStats s key = do {
     cls \<leftarrow> key_class key;
     cs \<leftarrow> HT_Get StoreClassStatsHash (cheap s) (classStats s) cls;
     if cs \<noteq> 0 then Some (s, cs)
     else do {
       let (cs, s) = malloc s;
       Assert (cs \<noteq> 0);
       let s = s\<lparr>cheap := (cheap s)(cs \<mapsto> zero_stats)\<rparr>;
       let (copy, s) = malloc s;
       Assert (copy \<noteq> 0);
       let (b, s) = malloc s;
       (h, ht) \<leftarrow> HT_Insert StoreClassStatsHash (b \<noteq> 0) (cheap s) (classStats s) cs cls;
       Some (s\<lparr>cheap := h, classStats := ht\<rparr>, cs)
     }
   }"

definition MODSTAT :: "Store_t \<Rightarrow> byte list \<Rightarrow> (StoreClassStats_t \<Rightarrow> StoreClassStats_t) \<Rightarrow> Store_t option" where
  "MODSTAT s key f =
     (if collectStats s
      then do {
        let s = s\<lparr>totalStats := f (totalStats s)\<rparr>;
        (s, cs) \<leftarrow> Store_GetClassStats s key;
        h \<leftarrow> upd (cheap s) cs f;
        Some (s\<lparr>cheap := h\<rparr>)
      }
      else Some s)"

section \<open>Lookup\<close>

text \<open>The state and the entry found, or null. \<open>lookupPolicyTable\<close> is indexed by a number that the client
  chose.\<close>

definition Store_Lookup ::
  "Store_t \<Rightarrow> byte list \<Rightarrow> interval_t \<Rightarrow> pin_t \<Rightarrow> StoreLookupPolicyId_t \<Rightarrow> (Store_t \<times> addr) option" where
  "Store_Lookup s key i earliestPin lookupPolicyId = do {
     s \<leftarrow> MODSTAT s key (lookups_update (\<lambda>n. n + 1));
     v \<leftarrow> HT_Get StoreHT (vheap s) (lines s) key;
     if v = 0 then do {
       s \<leftarrow> MODSTAT s key (keyMisses_update (\<lambda>n. n + 1));
       Some (s, 0)
     }
     else do {
       Assert (unat lookupPolicyId < length (lookupPolicyTable s));
       case lookupPolicyTable s ! unat lookupPolicyId of
         None \<Rightarrow> Some (s, 0)
       | Some policy \<Rightarrow> do {
           (outcome, e) \<leftarrow> policy_lookup policy s v i earliestPin;
           case outcome of
             LOOKUP_HIT \<Rightarrow> do {
               s \<leftarrow> LRUEviction_Hit s e;
               s \<leftarrow> MODSTAT s key (hits_update (\<lambda>n. n + 1));
               s \<leftarrow> upd_entry s e (hitCount_update (\<lambda>n. n + 1));
               Some (s, e)
             }
           | LOOKUP_STALENESS_MISS \<Rightarrow> do { s \<leftarrow> MODSTAT s key (stalenessMisses_update (\<lambda>n. n + 1)); Some (s, 0) }
           | LOOKUP_CAPACITY_MISS \<Rightarrow> do { s \<leftarrow> MODSTAT s key (capacityMisses_update (\<lambda>n. n + 1)); Some (s, 0) }
           | LOOKUP_CONSISTENCY_MISS \<Rightarrow> do { s \<leftarrow> MODSTAT s key (consistencyMisses_update (\<lambda>n. n + 1)); Some (s, 0) }
         }
     }
   }"

section \<open>Removal and eviction\<close>

definition Store_RemoveEntry :: "Store_t \<Rightarrow> addr \<Rightarrow> (Store_t \<times> size_t) option" where
  "Store_RemoveEntry s e = do {
     en \<leftarrow> entry_at s e;
     let entryFootprint = Store_EntryFootprint (dataLen en) (invalTagsLen en);
     Assert (entryBytes s \<ge> entryFootprint);
     let s = s\<lparr>entryBytes := entryBytes s - entryFootprint\<rparr>;
     s \<leftarrow> (if collectStats s
           then do { vs \<leftarrow> vheap s (evset en); MODSTAT s (hkey (linesLink vs)) (entries_update (\<lambda>n. n - 1)) }
           else Some s);
     (s, ok) \<leftarrow> Store_UnregisterInvalTags s e;
     if \<not> ok then Some (s, 0)
     else do {
       s \<leftarrow> (if \<not> stillValid (interval en) then invTimeOrder_Unlink s e
             else do { Assert (llist (einvTimeOrder en) = 0); Some s });
       s \<leftarrow> LRUEviction_Remove s e;
       (s, ok) \<leftarrow> StoreVSetTree_Remove s (evset en) (lower (interval en));
       if \<not> ok then Some (s, 0) else Some (s, entryFootprint)
     }
   }"

partial_function (option) Store_Evict_loop :: "Store_t \<Rightarrow> size_t \<Rightarrow> size_t \<Rightarrow> (Store_t \<times> bool) option" where
  "Store_Evict_loop s toFree freed =
     (if toFree > freed
      then let oldest = LRUEviction_Evict s (toFree - freed)
        in if oldest = 0 then Some (s, False)
           else do {
             (s, entryFootprint) \<leftarrow> Store_RemoveEntry s oldest;
             Assert (entryFootprint \<noteq> 0);
             Store_Evict_loop s toFree (freed + entryFootprint)
           }
      else do { Store_AssertSize s; Some (s, True) })"

definition Store_Evict :: "Store_t \<Rightarrow> size_t \<Rightarrow> (Store_t \<times> bool) option" where
  "Store_Evict s toFree = Store_Evict_loop (s\<lparr>hasEvicted := True\<rparr>) toFree 0"

definition Store_Flush :: "Store_t \<Rightarrow> Store_t option" where
  "Store_Flush s = do { (s, _) \<leftarrow> Store_Evict s (entryBytes s); Some s }"

section \<open>Invalidation\<close>

text \<open>Move the iterator to the next map entry of another cache entry.\<close>

partial_function (option) Store_InvalidateTag_skip ::
  "StoreInvalMapEntry_t RB_node_t heap \<Rightarrow> addr \<Rightarrow> addr \<Rightarrow> (addr \<times> bool) option" where
  "Store_InvalidateTag_skip h e it = do {
     (it, hadNext) \<leftarrow> RB_Iterator_Next h it;
     if hadNext
     then do {
       m \<leftarrow> RB_Iterator_Value h it;
       if mentry m = e then Store_InvalidateTag_skip h e it else Some (it, True)
     }
     else Some (it, False)
   }"

partial_function (option) Store_InvalidateTag_loop :: "Store_t \<Rightarrow> string \<Rightarrow> bool \<Rightarrow> addr \<Rightarrow> Store_t option" where
  "Store_InvalidateTag_loop s tag descendants it = do {
     m \<leftarrow> RB_Iterator_Value (mheap s) it;
     (it, hadNext) \<leftarrow> Store_InvalidateTag_skip (mheap s) (mentry m) it;
     if \<not> descendants \<and> strcmp (mtag m) tag \<noteq> 0 \<or> descendants \<and> strncmp (mtag m) tag (length tag) \<noteq> 0
     then Some s
     else do {
       s \<leftarrow> Store_TruncateUnboundedInterval s (mentry m) (lastInvalTime s);
       if hadNext then Store_InvalidateTag_loop s tag descendants it else Some s
     }
   }"

text \<open>The tag is added to the buffer only when the search found an entry of the map. A failed
  allocation of the copy of the tag is written through.\<close>

definition Store_InvalidateTag :: "Store_t \<Rightarrow> string \<Rightarrow> bool \<Rightarrow> Store_t option" where
  "Store_InvalidateTag s tag descendants = do {
     it \<leftarrow> RB_FindIter StoreInvalTree (mheap s) (invalMap s) \<lparr>mtag = tag, mentry = 0\<rparr> RB_GE;
     case it of None \<Rightarrow> Some s
     | Some it \<Rightarrow> do {
         s \<leftarrow> Store_InvalidateTag_loop s tag descendants it;
         let (t, s) = time_NULL s;
         let (copy, s) = malloc s;
         Assert (copy \<noteq> 0);
         (s, _) \<leftarrow> StoreInvalBuffer_Insert s \<lparr>bpin = lastInvalTime s, btime = t, btag = Some tag, bdescendants = descendants\<rparr>;
         Some s
       }
   }"

text \<open>\<open>pre\<close> is the part of the tag before \<open>ptr\<close>, the list the part from \<open>ptr\<close> on. Without a colon at the end
  of the tag, \<open>ptr\<close> runs past the end of the buffer.\<close>

fun Store_InvalidateTagAndAncestors_loop :: "Store_t \<Rightarrow> string \<Rightarrow> string \<Rightarrow> Store_t option" where
  "Store_InvalidateTagAndAncestors_loop s pre [] = None"
| "Store_InvalidateTagAndAncestors_loop s pre (c # cs) =
     (if c = CHR '':''
      then if cs = [] then Store_InvalidateTag s (pre @ [c]) True
           else do {
             s \<leftarrow> Store_InvalidateTag s (pre @ [c]) False;
             Store_InvalidateTagAndAncestors_loop s (pre @ [c]) cs
           }
      else Store_InvalidateTagAndAncestors_loop s (pre @ [c]) cs)"

definition Store_InvalidateTagAndAncestorsDescendants :: "Store_t \<Rightarrow> string \<Rightarrow> Store_t option" where
  "Store_InvalidateTagAndAncestorsDescendants s tag = Store_InvalidateTagAndAncestors_loop s [] tag"

text \<open>Whether a buffered invalidation matches one of the tags.\<close>

definition buffered_match :: "StoreInvalBufferEntry_t \<Rightarrow> string \<Rightarrow> string \<Rightarrow> bool" where
  "buffered_match ent btg tag \<longleftrightarrow>
     \<not> bdescendants ent \<and> strcmp btg tag = 0 \<or> bdescendants ent \<and> strncmp btg tag (length btg) = 0"

partial_function (option) Store_TruncateIfAlreadyInvalidated_loop ::
  "StoreInvalBufferEntry_t RB_node_t heap \<Rightarrow> addr \<Rightarrow> interval_t \<Rightarrow> string list \<Rightarrow> interval_t option" where
  "Store_TruncateIfAlreadyInvalidated_loop h it i tags = do {
     ent \<leftarrow> RB_Iterator_Value h it;
     btg \<leftarrow> (if tags = [] then Some [] else btag ent);
     if \<exists>tag \<in> set tags. buffered_match ent btg tag
     then Some (i\<lparr>stillValid := False, upper := bpin ent\<rparr>)
     else do {
       (it, more) \<leftarrow> RB_Iterator_Next h it;
       if more then Store_TruncateIfAlreadyInvalidated_loop h it i tags else Some i
     }
   }"

definition Store_TruncateIfAlreadyInvalidated :: "Store_t \<Rightarrow> interval_t \<Rightarrow> string list \<Rightarrow> interval_t option" where
  "Store_TruncateIfAlreadyInvalidated s i tags = do {
     Assert (stillValid i);
     if upper i > lastInvalTime s then Some i
     else if upper i \<le> bufferValidFrom s then Some (i\<lparr>stillValid := False\<rparr>)
     else do {
       it \<leftarrow> RB_FindIter StoreInvalBuffer (bheap s) (invalBuffer s)
              \<lparr>bpin = upper i, btime = 0, btag = None, bdescendants = False\<rparr> RB_GE;
       case it of None \<Rightarrow> Some i
       | Some it \<Rightarrow> Store_TruncateIfAlreadyInvalidated_loop (bheap s) it i tags
     }
   }"

section \<open>Insertion\<close>

text \<open>\<open>dataLen == e->dataLen && memcmp(data, e->data, dataLen) == 0\<close>.\<close>

definition same_data :: "byte list \<Rightarrow> entry_t \<Rightarrow> bool option" where
  "same_data data e =
     (if of_nat (length data) = dataLen e
      then case edata e of None \<Rightarrow> if data = [] then Some True else None
           | Some d \<Rightarrow> if length data \<le> length d then Some (take (length data) d = data) else None
      else Some False)"

definition Store_TryExtendInterval ::
  "Store_t \<Rightarrow> addr \<Rightarrow> interval_t \<Rightarrow> byte list \<Rightarrow> byte list \<Rightarrow> (Store_t \<times> bool) option" where
  "Store_TryExtendInterval s existing i key data =
     (if existing = 0 then Some (s, False)
      else do {
        en \<leftarrow> entry_at s existing;
        ov \<leftarrow> Interval_Overlaps (interval en) i (lastInvalTime s);
        if \<not> ov then Some (s, False)
        else do {
          same \<leftarrow> same_data data en;
          let warning = (\<not> same \<or> lower (interval en) > lower i);
          if warning then Some (s, False)
          else if upper (interval en) > upper i then Some (s, True)
          else if upper (interval en) = upper i then Some (s, True)
          else do {
            s \<leftarrow> upd_entry s existing (interval_update (upper_update (\<lambda>_. upper i)));
            s \<leftarrow> MODSTAT s key (extensions_update (\<lambda>n. n + 1));
            s \<leftarrow> LRUEviction_Put s existing True;
            Some (s, True)
          }
        }
      })"

definition Store_Add ::
  "Store_t \<Rightarrow> addr \<Rightarrow> byte list \<Rightarrow> interval_t \<Rightarrow> byte list \<Rightarrow> string list \<Rightarrow> (Store_t \<times> bool) option" where
  "Store_Add s v key i data tags = do {
     let (s, copy, tagsLen) = Store_CopyInvalTags s tags;
     let curFootprint = Store_Footprint s;
     let entryFootprint = Store_EntryFootprint (of_nat (length data)) tagsLen;
     (s, ok) \<leftarrow> (if curFootprint + entryFootprint > maxBytes s
                 then Store_Evict s (entryFootprint - (maxBytes s - curFootprint))
                 else Some (s, True));
     if \<not> ok then Some (s, False)
     else do {
       (s, e) \<leftarrow> StoreVSetTree_Insert s v (lower i);
       if e = 0 then Some (s, False)
       else do {
         en \<leftarrow> entry_at s e;
         Assert (edata en = None);
         s \<leftarrow> upd_entry s e (interval_update (\<lambda>_. i));
         let (d, s) = malloc s;
         if d = 0
         then do {
           (s, r) \<leftarrow> StoreVSetTree_Remove s v (lower i);
           Assert r;
           Some (s, False)
         }
         else do {
           s \<leftarrow> upd_entry s e (edata_update (\<lambda>_. Some data));
           s \<leftarrow> upd_entry s e (dataLen_update (\<lambda>_. of_nat (length data)));
           s \<leftarrow> upd_entry s e (evset_update (\<lambda>_. v));
           s \<leftarrow> upd_entry s e (nInvalTags_update (\<lambda>_. length tags));
           s \<leftarrow> upd_entry s e (invalTags_update (\<lambda>_. copy));
           s \<leftarrow> upd_entry s e (invalTagsLen_update (\<lambda>_. tagsLen));
           (s, _) \<leftarrow> Store_RegisterInvalTags s e;
           s \<leftarrow> (if \<not> stillValid i
                 then let (t, s) = time_NULL s
                      in do { s \<leftarrow> upd_entry s e (timeInvalidated_update (\<lambda>_. t)); invTimeOrder_PushFront s e }
                 else upd_entry s e (timeInvalidated_update (\<lambda>_. - 1)));
           let s = s\<lparr>entryBytes := entryBytes s + entryFootprint\<rparr>;
           s \<leftarrow> MODSTAT s key (entries_update (\<lambda>n. n + 1));
           s \<leftarrow> upd_entry s e (hitCount_update (\<lambda>_. 0));
           s \<leftarrow> LRUEviction_Put s e False;
           Store_AssertSize s;
           Some (s, True)
         }
       }
     }
   }"

partial_function (option) Store_RemoveUseless_loop :: "Store_t \<Rightarrow> time_t \<Rightarrow> Store_t option" where
  "Store_RemoveUseless_loop s removeOlderThan =
     (if tail (invTimeOrder s) \<noteq> 0
      then do {
        en \<leftarrow> entry_at s (tail (invTimeOrder s));
        if timeInvalidated en < removeOlderThan
        then do {
          (s, _) \<leftarrow> Store_RemoveEntry s (tail (invTimeOrder s));
          Store_RemoveUseless_loop s removeOlderThan
        }
        else Some s
      }
      else Some s)"

definition Store_RemoveUseless :: "Store_t \<Rightarrow> Store_t option" where
  "Store_RemoveUseless s = (let (t, s) = time_NULL s in Store_RemoveUseless_loop s (t - uselessBound s))"

text \<open>The version set of a new key, before \<open>StoreHT_Insert\<close>. \<open>StoreVSetTree_Init\<close> leaves the ends of the chain
  unset in C; no operation reads them from an empty tree.\<close>

definition new_vset :: StoreVSet_t where
  "new_vset = \<lparr>versions = RB_Init \<lparr>root = 0, rsize = 0, rfirst = 0, rlast = 0\<rparr>,
     linesLink = \<lparr>hnext = 0, pprev = Bucket 0, hkey = []\<rparr>\<rparr>"

text \<open>Find or make the version set of a key; null when an allocation fails.\<close>

definition Store_Put_vset :: "Store_t \<Rightarrow> byte list \<Rightarrow> (Store_t \<times> addr) option" where
  "Store_Put_vset s key = do {
     v \<leftarrow> HT_Get StoreHT (vheap s) (lines s) key;
     if v \<noteq> 0 then Some (s, v)
     else let (v, s) = malloc s in
       if v = 0 then Some (s, 0)
       else let (keyCopy, s) = malloc s in
         if keyCopy = 0 then Some (s, 0)
         else let (b, s) = malloc s in do {
           (h, ht) \<leftarrow> HT_Insert StoreHT (b \<noteq> 0) ((vheap s)(v \<mapsto> new_vset)) (lines s) v key;
           Some (s\<lparr>vheap := h, lines := ht, keyBytes := keyBytes s + MALLOC_SIZE (of_nat (length key))\<rparr>, v)
         }
   }"

definition Store_Put ::
  "Store_t \<Rightarrow> byte list \<Rightarrow> interval_t \<Rightarrow> byte list \<Rightarrow> string list \<Rightarrow> bool \<Rightarrow> (Store_t \<times> bool) option" where
  "Store_Put s key i data tags force =
     (if stillValid i \<and> tags = [] then Some (s, False)
      else do {
        i \<leftarrow> (if stillValid i then Store_TruncateIfAlreadyInvalidated s i tags else Some i);
        let tags = (if \<not> stillValid i then [] else tags);
        s \<leftarrow> Store_RemoveUseless s;
        (s, v) \<leftarrow> Store_Put_vset s key;
        if v = 0 then Some (s, False)
        else do {
          e \<leftarrow> StoreVSetTree_Find s v (upper i) RB_LT;
          (s, e) \<leftarrow> (if e \<noteq> 0 \<and> force then do { (s, _) \<leftarrow> Store_RemoveEntry s e; Some (s, 0) } else Some (s, e));
          s \<leftarrow> (if e \<noteq> 0
                then do {
                  en \<leftarrow> entry_at s e;
                  if stillValid (interval en) \<and> lower i \<ge> lastInvalTime s
                  then Store_TruncateUnboundedInterval s e (lastInvalTime s) else Some s
                }
                else Some s);
          (s, extended) \<leftarrow> Store_TryExtendInterval s e i key data;
          if extended then Some (s, True)
          else do {
            (i, nonempty) \<leftarrow> (if e \<noteq> 0
                  then do {
                    en \<leftarrow> entry_at s e;
                    Some (if upper (interval en) > lower i
                          then (i\<lparr>lower := upper (interval en)\<rparr>, upper (interval en) < upper i) else (i, True))
                  }
                  else Some (i, True));
            if \<not> nonempty then Some (s, False)
            else do {
              s \<leftarrow> (if e \<noteq> 0
                    then do {
                      en \<leftarrow> entry_at s e;
                      same \<leftarrow> same_data data en;
                      if same then MODSTAT s key (potentialExtensions_update (\<lambda>n. n + 1)) else Some s
                    }
                    else Some s);
              Store_Add s v key i data tags
            }
          }
        }
      })"

section \<open>The remaining operations\<close>

partial_function (option) Store_ClearStats_loop :: "Store_t \<Rightarrow> HT_Iter_t \<Rightarrow> Store_t option" where
  "Store_ClearStats_loop s it = do {
     (stats, it) \<leftarrow> HT_IterNext StoreClassStatsHash (cheap s) (classStats s) it;
     if stats = 0 then Some s
     else do {
       (h, ht) \<leftarrow> HT_Unlink StoreClassStatsHash (cheap s) (classStats s) stats;
       Store_ClearStats_loop (s\<lparr>cheap := h, classStats := ht\<rparr>) it
     }
   }"

definition Store_ClearStats :: "Store_t \<Rightarrow> Store_t option" where
  "Store_ClearStats s = do {
     it \<leftarrow> HT_Iter (classStats s);
     s \<leftarrow> Store_ClearStats_loop s it;
     Some (s\<lparr>totalStats := zero_stats\<rparr>)
   }"

partial_function (option) Store_ExpireBuffer_loop :: "Store_t \<Rightarrow> time_t \<Rightarrow> Store_t option" where
  "Store_ExpireBuffer_loop s curTime =
     (if RB_Size (invalBuffer s) > 0
      then do {
        ent \<leftarrow> RB_Iterator_Value (bheap s) (RB_First (invalBuffer s));
        if btime ent + INVAL_BUFFER_TIME > curTime then Some s
        else do {
          let s = s\<lparr>bufferValidFrom := bpin ent\<rparr>;
          (s, _) \<leftarrow> StoreInvalBuffer_Remove s ent;
          Store_ExpireBuffer_loop s curTime
        }
      }
      else Some s)"

definition Store_ExpireBuffer :: "Store_t \<Rightarrow> Store_t option" where
  "Store_ExpireBuffer s = (let (t, s) = time_NULL s in Store_ExpireBuffer_loop s t)"

fun Store_Invalidate_loop :: "Store_t \<Rightarrow> string list \<Rightarrow> Store_t option" where
  "Store_Invalidate_loop s [] = Some s"
| "Store_Invalidate_loop s (t # ts) = do {
     s \<leftarrow> Store_InvalidateTagAndAncestorsDescendants s t;
     Store_Invalidate_loop s ts
   }"

definition Store_Invalidate :: "Store_t \<Rightarrow> pin_t \<Rightarrow> string list \<Rightarrow> Store_t option" where
  "Store_Invalidate s ts tags = do {
     Assert (\<not> PIN_SPECIAL ts);
     Assert (ts > lastInvalTime s);
     s \<leftarrow> Store_Invalidate_loop (s\<lparr>lastInvalTime := ts\<rparr>) tags;
     Store_ExpireBuffer s
   }"

definition Store_EvictionOrderIterReset :: "Store_t \<Rightarrow> Store_t" where
  "Store_EvictionOrderIterReset s = LRUEviction_IterReset s"

definition Store_EvictionOrderIterNext :: "Store_t \<Rightarrow> (Store_t \<times> addr) option" where
  "Store_EvictionOrderIterNext s = LRUEviction_IterNext s"

end
