(* ===== verification/StoreExample.thy ===== *)
theory StoreExample
  imports Store
begin

text \<open>
  A store with one entry, for the witnesses: the key \<open>[1]\<close> has one version at address 5, valid from 10 on,
  with one tag. Addresses from 100 on are free.
\<close>

definition node1 :: "'v \<Rightarrow> 'v RB_node_t" where
  "node1 v = \<lparr>rdata = v, red = False, link = (\<lambda>_. 0), rnext = 0, rprev = 0\<rparr>"

definition entry1 :: entry_t where
  "entry1 = \<lparr>interval = \<lparr>lower = 10, upper = 20, stillValid = True\<rparr>, edata = Some [7, 8], dataLen = 2, evset = 4,
     nInvalTags = 1, invalTags = [''t:''], invalTagsLen = 11, elru = \<lparr>lprev = 0, lnext = 0, llist = LRU_LIST\<rparr>,
     hitCount = 0, timeInvalidated = - 1, einvTimeOrder = \<lparr>lprev = 0, lnext = 0, llist = 0\<rparr>\<rparr>"

definition vset1 :: StoreVSet_t where
  "vset1 = \<lparr>versions = \<lparr>root = 5, rsize = 1, rfirst = 5, rlast = 5\<rparr>, linesLink = \<lparr>hnext = 0, pprev = Bucket 0, hkey = [1]\<rparr>\<rparr>"

definition store1 :: Store_t where
  "store1 = \<lparr>lines = \<lparr>hpower = 0, hcount = 1, buckets = [4], seed = 1\<rparr>, keyBytes = MALLOC_SIZE 1,
     entryBytes = Store_EntryFootprint 2 11, maxBytes = 100000, lastInvalTime = 30,
     invalMap = \<lparr>root = 6, rsize = 1, rfirst = 6, rlast = 6\<rparr>, invalBuffer = \<lparr>root = 0, rsize = 0, rfirst = 0, rlast = 0\<rparr>,
     bufferValidFrom = 1, lookupPolicyTable = [Some LookupPolicy_Latest, None, Some LookupPolicy_ScrewConsistency],
     evictionPolicy = EvictionPolicy_LRU, evictionPolicyState = \<lparr>lru = \<lparr>head = 5, tail = 5\<rparr>, iterPos = 0\<rparr>, hasEvicted = False,
     uselessBound = 60, invTimeOrder = \<lparr>head = 0, tail = 0\<rparr>, totalStats = zero_stats,
     classStats = \<lparr>hpower = 0, hcount = 0, buckets = [0], seed = 1\<rparr>, collectStats = False,
     eheap = [5 \<mapsto> node1 entry1], vheap = [4 \<mapsto> vset1], mheap = [6 \<mapsto> node1 \<lparr>mtag = ''t:'', mentry = 5\<rparr>], bheap = Map.empty,
     cheap = Map.empty, mallocs = (\<lambda>n. n + 100), nmalloc = 0, clock = (\<lambda>n. 1000), nclock = 0\<rparr>"

lemma store1_Get: "HT_Get StoreHT (vheap store1) (lines store1) [1] = Some 4"
  using GetBucket_lt[of "lines store1" "[1]"]
  by (simp add: HT_Get_def read_bucket_def HT_Get_loop.simps store1_def vset1_def StoreHT_def HT_KeyCmp_def)

lemma store1_versions: "rb_map (\<lambda>e. lower (interval e)) (eheap store1) (versions vset1) [5]"
  by (auto simp: rb_map_def rb_tree_def chained_def store1_def vset1_def node1_def nxt_def prv_def HEAD_def
      intro!: exI[of _ "Nd Lf 5 False Lf"])

lemma store1_Find: "10 < k \<Longrightarrow> StoreVSetTree_Find store1 4 k RB_LT = Some 5"
  using vset_tree.Find_LT[OF store1_versions, of k]
  by (simp add: StoreVSetTree_Find_def store1_def data_at_def node1_def entry1_def)

definition store1_hit :: Store_t where
  "store1_hit = store1\<lparr>eheap := [5 \<mapsto> node1 (entry1\<lparr>hitCount := 1\<rparr>)]\<rparr>"

lemma store1_fields [simp]:
  "collectStats store1 = False" "lookupPolicyTable store1 = [Some LookupPolicy_Latest, None, Some LookupPolicy_ScrewConsistency]"
  "lastInvalTime store1 = 30" "entry_at store1 5 = Some entry1" "evictionPolicyState store1 = \<lparr>lru = \<lparr>head = 5, tail = 5\<rparr>, iterPos = 0\<rparr>"
  "eheap store1 = [5 \<mapsto> node1 entry1]"
  by (simp_all add: store1_def entry_at_def node1_def)

lemma store1_LRUHit: "LRUEviction_Hit store1 5 = Some store1"
  by (simp add: LRUEviction_Hit_def LIST_Unlink_def LIST_PushFront_def EntryLRU_def upd_def set_lru_def node1_def entry1_def LRU_LIST_def)

lemma store1_Lookup: "Store_Lookup store1 [1] \<lparr>lower = 15, upper = 25, stillValid = False\<rparr> 1 0 = Some (store1_hit, 5)"
proof -
  have "Interval_Overlaps (interval entry1) \<lparr>lower = 15, upper = 25, stillValid = False\<rparr> 30 = Some True"
    by (simp add: entry1_def Interval_Overlaps_def Interval_AssertValid_def pin_consts MAX_pin_def)
  moreover have "upd_entry store1 5 (hitCount_update (\<lambda>n. n + 1)) = Some store1_hit"
    by (simp add: upd_entry_def store1_hit_def upd_def node1_def) (simp add: entry1_def)
  ultimately show ?thesis
    by (simp add: Store_Lookup_def MODSTAT_def store1_Get policy_lookup_def LatestAcceptable_Lookup_def store1_Find store1_LRUHit)
qed

end
