(* ===== verification/IOBuf.thy ===== *)
theory IOBuf
  imports StoreVSet "HOL-Library.Sublist"
begin

text \<open>
  Serialisation buffers: \<open>src/src/lib/iobuf.h\<close>, \<open>src/src/lib/iobuf.c\<close>, \<open>src/src/lib/iobuf-getput.h\<close>.

  The pointers \<open>pos\<close>, \<open>limit\<close> and \<open>capacity\<close> are offsets from \<open>buf\<close>; \<open>limit\<close> is the length of the valid
  bytes \<open>dat\<close>. A null \<open>capacity\<close>, the mark of a view, is \<open>0\<close>. The address \<open>buf\<close> matters where the code
  adds a count to a pointer: a sum that leaves the address space is undefined and modelled as a
  failure. \<open>reallocs\<close> gives the result of \<open>realloc\<close> for a new size. Bytes that the C code writes through
  a reserved pointer before it moves the limit are an argument of \<open>IOBuf_MoveLimit\<close>, and a pointer into the
  buffer that a getter returns is the list of the bytes there.
\<close>

section \<open>Integers as bytes\<close>

text \<open>The bytes of a word on a little-endian machine, and back.\<close>

definition to_bytes :: "nat \<Rightarrow> 'a::len word \<Rightarrow> byte list" where
  "to_bytes n x = map (\<lambda>i. ucast (drop_bit (8 * i) x)) [0..<n]"

fun of_bytes :: "byte list \<Rightarrow> 'a::len word" where
  "of_bytes [] = 0"
| "of_bytes (b # bs) = or (ucast b) (push_bit 8 (of_bytes bs))"

section \<open>The buffer\<close>

definition NESTED_OFFSET_NONE :: u32 where "NESTED_OFFSET_NONE = - 1"
definition EINVAL :: int where "EINVAL = 22"
definition ENOMEM :: int where "ENOMEM = 12"

record IOBuf_t =
  buf :: nat
  pos :: nat
  dat :: "byte list"
  capacity :: nat
  error :: int
  nestedOffset :: u32
  nestedBound :: u32
  fileBacked :: bool
  reallocs :: "size_t \<Rightarrow> nat"

definition IOBUF_NULL :: "(size_t \<Rightarrow> nat) \<Rightarrow> IOBuf_t" where
  "IOBUF_NULL r = \<lparr>buf = 0, pos = 0, dat = [], capacity = 0, error = EINVAL, nestedOffset = NESTED_OFFSET_NONE,
     nestedBound = NESTED_OFFSET_NONE, fileBacked = False, reallocs = r\<rparr>"

definition DEFAULT_SIZE :: nat where "DEFAULT_SIZE = 256"

text \<open>\<open>a\<close> is the result of \<open>malloc\<close>.\<close>

definition IOBuf_Init :: "(size_t \<Rightarrow> nat) \<Rightarrow> nat \<Rightarrow> IOBuf_t \<times> bool" where
  "IOBuf_Init r a =
     (if a = 0 then (IOBUF_NULL r, False)
      else ((IOBUF_NULL r)\<lparr>buf := a, pos := 0, dat := [], capacity := DEFAULT_SIZE, error := 0, fileBacked := False\<rparr>, True))"

definition IOBuf_InitView :: "(size_t \<Rightarrow> nat) \<Rightarrow> nat \<Rightarrow> byte list \<Rightarrow> IOBuf_t" where
  "IOBuf_InitView r a data = (IOBUF_NULL r)\<lparr>buf := a, pos := 0, dat := data, capacity := 0, error := 0\<rparr>"

text \<open>\<open>file\<close> is the mapped file and its address; \<open>None\<close> when \<open>lseek\<close> or \<open>mmap\<close> fails.\<close>

definition IOBuf_InitFile :: "(size_t \<Rightarrow> nat) \<Rightarrow> (nat \<times> byte list) option \<Rightarrow> IOBuf_t option" where
  "IOBuf_InitFile r file = do {
     (a, content) \<leftarrow> file;
     Some ((IOBuf_InitView r a content)\<lparr>fileBacked := True\<rparr>)
   }"

text \<open>\<open>unmapped\<close> says whether \<open>munmap\<close> succeeds.\<close>

definition IOBuf_Release :: "bool \<Rightarrow> IOBuf_t \<Rightarrow> IOBuf_t option" where
  "IOBuf_Release unmapped b = (if fileBacked b \<and> \<not> unmapped then None else Some (IOBUF_NULL (reallocs b)))"

partial_function (option) IOBuf_Reserve_loop :: "size_t \<Rightarrow> size_t \<Rightarrow> size_t option" where
  "IOBuf_Reserve_loop newSize goal = (if newSize < goal then IOBuf_Reserve_loop (newSize * 2) goal else Some newSize)"

text \<open>The buffer and whether the returned pointer is not null.\<close>

definition IOBuf_Reserve :: "IOBuf_t \<Rightarrow> size_t \<Rightarrow> (IOBuf_t \<times> bool) option" where
  "IOBuf_Reserve b count =
     (if capacity b = 0 then None
      else if error b \<noteq> 0 then Some (b, False)
      else do {
        Assert (buf b + length (dat b) + unat count < 2 ^ 64);
        if length (dat b) + unat count > capacity b
        then do {
          let curSize = of_nat (capacity b);
          let goal = of_nat (length (dat b)) + count;
          newSize \<leftarrow> IOBuf_Reserve_loop (curSize * 2) goal;
          if reallocs b newSize = 0 then Some (b\<lparr>error := ENOMEM, buf := 0\<rparr>, False)
          else Some (b\<lparr>buf := reallocs b newSize, capacity := unat newSize\<rparr>, True)
        }
        else Some (b, True)
      })"

text \<open>\<open>bytes\<close> is what the caller has written at the limit.\<close>

definition IOBuf_MoveLimit :: "IOBuf_t \<Rightarrow> byte list \<Rightarrow> IOBuf_t option" where
  "IOBuf_MoveLimit b bytes =
     (if capacity b = 0 then None
      else if error b \<noteq> 0 then Some b
      else if length (dat b) + length bytes > capacity b then None
      else Some (b\<lparr>dat := dat b @ bytes\<rparr>))"

text \<open>After a failed \<open>realloc\<close> the pointers dangle.\<close>

definition IOBuf_Shift :: "IOBuf_t \<Rightarrow> IOBuf_t option" where
  "IOBuf_Shift b = do {
     (b, _) \<leftarrow> IOBuf_Reserve b 0;
     if nestedOffset b \<noteq> NESTED_OFFSET_NONE then None
     else do {
       Assert (error b = 0);
       Some (b\<lparr>dat := drop (pos b) (dat b), pos := 0\<rparr>)
     }
   }"

definition IOBuf_PutBytes :: "IOBuf_t \<Rightarrow> byte list \<Rightarrow> IOBuf_t option" where
  "IOBuf_PutBytes b bytes = do {
     Assert (length bytes < 2 ^ 64);
     (b, dest) \<leftarrow> IOBuf_Reserve b (of_nat (length bytes));
     if dest then IOBuf_MoveLimit b bytes else Some b
   }"

definition IOBuf_TryGetBytes :: "IOBuf_t \<Rightarrow> size_t \<Rightarrow> (IOBuf_t \<times> byte list option) option" where
  "IOBuf_TryGetBytes b count =
     (if error b \<noteq> 0 then None
      else if nestedBound b \<noteq> NESTED_OFFSET_NONE \<and> pos b + unat count > unat (nestedBound b) then None
      else do {
        Assert (buf b + pos b + unat count < 2 ^ 64);
        if pos b + unat count > length (dat b) then Some (b, None)
        else Some (b\<lparr>pos := pos b + unat count\<rparr>, Some (take (unat count) (drop (pos b) (dat b))))
      })"

definition IOBuf_Error :: "IOBuf_t \<Rightarrow> int" where
  "IOBuf_Error b = error b"

definition IOBuf_GetPos :: "IOBuf_t \<Rightarrow> u32" where
  "IOBuf_GetPos b = (if error b \<noteq> 0 then 0 else of_nat (pos b))"

definition IOBuf_GetLimit :: "IOBuf_t \<Rightarrow> u32" where
  "IOBuf_GetLimit b = (if error b \<noteq> 0 then 0 else of_nat (length (dat b)))"

text \<open>After a failed \<open>realloc\<close> the position is compared with a dangling limit, far above it.\<close>

definition IOBuf_SetPos :: "IOBuf_t \<Rightarrow> u32 \<Rightarrow> IOBuf_t option" where
  "IOBuf_SetPos b p =
     (if error b = ENOMEM then Some (b\<lparr>pos := unat p\<rparr>)
      else if unat p > length (dat b) then None
      else Some (b\<lparr>pos := unat p\<rparr>))"

definition IOBuf_Skip :: "IOBuf_t \<Rightarrow> u32 \<Rightarrow> IOBuf_t option" where
  "IOBuf_Skip b count = IOBuf_SetPos b (IOBuf_GetPos b + count)"

text \<open>The bytes between the position and the limit.\<close>

definition IOBuf_PeekRest :: "IOBuf_t \<Rightarrow> (IOBuf_t \<times> byte list) option" where
  "IOBuf_PeekRest b = do {
     (b, r) \<leftarrow> IOBuf_TryGetBytes b 0;
     case r of None \<Rightarrow> Some (b, []) | Some _ \<Rightarrow> Some (b, drop (pos b) (dat b))
   }"

section \<open>Typed getters and putters\<close>

definition IOBuf_PutInt8 :: "IOBuf_t \<Rightarrow> byte \<Rightarrow> IOBuf_t option" where
  "IOBuf_PutInt8 b x = IOBuf_PutBytes b (to_bytes 1 x)"

definition IOBuf_PutInt32 :: "IOBuf_t \<Rightarrow> 32 word \<Rightarrow> IOBuf_t option" where
  "IOBuf_PutInt32 b x = IOBuf_PutBytes b (to_bytes 4 x)"

definition IOBuf_PutInt64 :: "IOBuf_t \<Rightarrow> 64 word \<Rightarrow> IOBuf_t option" where
  "IOBuf_PutInt64 b x = IOBuf_PutBytes b (to_bytes 8 x)"

text \<open>\<open>TRY_GET\<close> for a type of \<open>n\<close> bytes, and \<open>GET\<close>, which panics when there are too few bytes.\<close>

definition TRY_GET :: "nat \<Rightarrow> IOBuf_t \<Rightarrow> (IOBuf_t \<times> 'a::len word option) option" where
  "TRY_GET n b = do {
     (b, r) \<leftarrow> IOBuf_TryGetBytes b (of_nat n);
     Some (b, map_option of_bytes r)
   }"

definition GET :: "(IOBuf_t \<Rightarrow> (IOBuf_t \<times> 'a option) option) \<Rightarrow> IOBuf_t \<Rightarrow> (IOBuf_t \<times> 'a) option" where
  "GET tryget b = do { (b, r) \<leftarrow> tryget b; x \<leftarrow> r; Some (b, x) }"

definition IOBuf_TryGetInt8 :: "IOBuf_t \<Rightarrow> (IOBuf_t \<times> byte option) option" where
  "IOBuf_TryGetInt8 = TRY_GET 1"

definition IOBuf_GetInt8 :: "IOBuf_t \<Rightarrow> (IOBuf_t \<times> byte) option" where
  "IOBuf_GetInt8 = GET IOBuf_TryGetInt8"

definition IOBuf_TryGetInt32 :: "IOBuf_t \<Rightarrow> (IOBuf_t \<times> 32 word option) option" where
  "IOBuf_TryGetInt32 = TRY_GET 4"

definition IOBuf_GetInt32 :: "IOBuf_t \<Rightarrow> (IOBuf_t \<times> 32 word) option" where
  "IOBuf_GetInt32 = GET IOBuf_TryGetInt32"

definition IOBuf_TryGetInt64 :: "IOBuf_t \<Rightarrow> (IOBuf_t \<times> 64 word option) option" where
  "IOBuf_TryGetInt64 = TRY_GET 8"

definition IOBuf_GetInt64 :: "IOBuf_t \<Rightarrow> (IOBuf_t \<times> 64 word) option" where
  "IOBuf_GetInt64 = GET IOBuf_TryGetInt64"

text \<open>A \<open>double\<close> is the word of its 64 bits.\<close>

type_synonym double = "64 word"

definition IOBuf_PutDouble :: "IOBuf_t \<Rightarrow> double \<Rightarrow> IOBuf_t option" where
  "IOBuf_PutDouble b x = IOBuf_PutBytes b (to_bytes 8 x)"

definition IOBuf_TryGetDouble :: "IOBuf_t \<Rightarrow> (IOBuf_t \<times> double option) option" where
  "IOBuf_TryGetDouble = TRY_GET 8"

definition IOBuf_GetDouble :: "IOBuf_t \<Rightarrow> (IOBuf_t \<times> double) option" where
  "IOBuf_GetDouble = GET IOBuf_TryGetDouble"

definition IOBuf_PokeInt32 :: "IOBuf_t \<Rightarrow> nat \<Rightarrow> 32 word \<Rightarrow> IOBuf_t option" where
  "IOBuf_PokeInt32 b offset x = do {
     Assert (capacity b \<noteq> 0);
     Assert (offset + 4 \<le> length (dat b));
     Some (b\<lparr>dat := take offset (dat b) @ to_bytes 4 x @ drop (offset + 4) (dat b)\<rparr>)
   }"

definition IOBuf_PutBuf :: "IOBuf_t \<Rightarrow> byte list \<Rightarrow> IOBuf_t option" where
  "IOBuf_PutBuf b data = do {
     b \<leftarrow> IOBuf_PutInt32 b (of_nat (length data));
     IOBuf_PutBytes b data
   }"

text \<open>The count is a signed integer that is converted to \<open>size_t\<close>.\<close>

definition IOBuf_TryGetBuf :: "IOBuf_t \<Rightarrow> (IOBuf_t \<times> byte list option) option" where
  "IOBuf_TryGetBuf b = do {
     let p = IOBuf_GetPos b;
     (b, x) \<leftarrow> IOBuf_TryGetInt32 b;
     case x of None \<Rightarrow> do { b \<leftarrow> IOBuf_SetPos b p; Some (b, None) }
     | Some xcount \<Rightarrow> do {
         (b, r) \<leftarrow> IOBuf_TryGetBytes b (scast xcount);
         case r of None \<Rightarrow> do { b \<leftarrow> IOBuf_SetPos b p; Some (b, None) }
         | Some bytes \<Rightarrow> Some (b, Some bytes)
       }
   }"

definition IOBuf_GetBuf :: "IOBuf_t \<Rightarrow> (IOBuf_t \<times> byte list) option" where
  "IOBuf_GetBuf = GET IOBuf_TryGetBuf"

text \<open>Characters as bytes. A C string starts at a byte and ends before the next null byte; without one
  in the buffer it is read past the limit.\<close>

definition str_bytes :: "string \<Rightarrow> byte list" where
  "str_bytes s = map (\<lambda>c. of_nat (of_char c)) s"

definition bytes_str :: "byte list \<Rightarrow> string" where
  "bytes_str bs = map (\<lambda>b. char_of (unat b)) bs"

definition c_string :: "byte list \<Rightarrow> string option" where
  "c_string bs = (if 0 \<in> set bs then Some (bytes_str (takeWhile (\<lambda>b. b \<noteq> 0) bs)) else None)"

definition IOBuf_PutString :: "IOBuf_t \<Rightarrow> string \<Rightarrow> IOBuf_t option" where
  "IOBuf_PutString b str = IOBuf_PutBuf b (str_bytes str @ [0])"

text \<open>For a count of \<open>0\<close> the byte before the string is checked, the last byte of the count. The string
  is read to its terminator, wherever that is.\<close>

definition IOBuf_TryGetString :: "IOBuf_t \<Rightarrow> (IOBuf_t \<times> string option) option" where
  "IOBuf_TryGetString b = do {
     (b, r) \<leftarrow> IOBuf_TryGetBuf b;
     case r of None \<Rightarrow> Some (b, None)
     | Some res \<Rightarrow> do {
         let start = pos b - length res;
         Assert (dat b ! (start + length res - 1) = 0);
         str \<leftarrow> c_string (drop start (dat b));
         Some (b, Some str)
       }
   }"

definition IOBuf_GetString :: "IOBuf_t \<Rightarrow> (IOBuf_t \<times> string) option" where
  "IOBuf_GetString = GET IOBuf_TryGetString"

definition IOBuf_GetEOB :: "IOBuf_t \<Rightarrow> unit option" where
  "IOBuf_GetEOB b = Assert (IOBuf_GetLimit b - IOBuf_GetPos b = 0)"

section \<open>Nested buffers and files\<close>

definition IOBuf_InNested :: "IOBuf_t \<Rightarrow> bool" where
  "IOBuf_InNested b \<longleftrightarrow> nestedOffset b \<noteq> NESTED_OFFSET_NONE"

definition IOBuf_BeginNested :: "IOBuf_t \<Rightarrow> IOBuf_t option" where
  "IOBuf_BeginNested b = do {
     let startOffset = IOBuf_GetLimit b;
     b \<leftarrow> IOBuf_PutInt32 b (nestedOffset b);
     Some (b\<lparr>nestedOffset := startOffset\<rparr>)
   }"

definition IOBuf_EndNested :: "IOBuf_t \<Rightarrow> IOBuf_t option" where
  "IOBuf_EndNested b = do {
     Assert (IOBuf_InNested b);
     let p = IOBuf_GetPos b;
     let startOffset = nestedOffset b;
     let endOffset = IOBuf_GetLimit b;
     b \<leftarrow> IOBuf_SetPos b startOffset;
     (b, parent) \<leftarrow> IOBuf_GetInt32 b;
     let b = b\<lparr>nestedOffset := parent\<rparr>;
     b \<leftarrow> IOBuf_PokeInt32 b (unat startOffset) (endOffset - startOffset - 4);
     IOBuf_SetPos b p
   }"

definition IOBuf_TryGetNested :: "IOBuf_t \<Rightarrow> (IOBuf_t \<times> IOBuf_t option) option" where
  "IOBuf_TryGetNested b = do {
     (b, r) \<leftarrow> IOBuf_TryGetBuf b;
     case r of None \<Rightarrow> Some (b, None)
     | Some data \<Rightarrow> Some (b, Some (IOBuf_InitView (reallocs b) (buf b + pos b - length data) data))
   }"

text \<open>\<open>ws\<close> are the results of the calls of \<open>write\<close>; the loop returns the bytes written and the results that
  are left.\<close>

fun IOBuf_WriteFile_loop :: "int list \<Rightarrow> byte list \<Rightarrow> (byte list \<times> int list) option" where
  "IOBuf_WriteFile_loop ws [] = Some ([], ws)"
| "IOBuf_WriteFile_loop [] (x # xs) = None"
| "IOBuf_WriteFile_loop (w # ws) (x # xs) =
     (if w < 0 then None
      else do {
        (out, ws) \<leftarrow> IOBuf_WriteFile_loop ws (drop (nat w) (x # xs));
        Some (take (nat w) (x # xs) @ out, ws)
      })"

definition IOBuf_WriteFile :: "int list \<Rightarrow> IOBuf_t \<Rightarrow> (IOBuf_t \<times> byte list \<times> int list) option" where
  "IOBuf_WriteFile ws b = do {
     (b, data) \<leftarrow> IOBuf_PeekRest b;
     b \<leftarrow> IOBuf_Skip b (of_nat (length data));
     (out, ws) \<leftarrow> IOBuf_WriteFile_loop ws data;
     b \<leftarrow> IOBuf_Shift b;
     Some (b, out, ws)
   }"

section \<open>Words and bytes\<close>

lemma length_to_bytes [simp]: "length (to_bytes n x) = n"
  by (simp add: to_bytes_def)

lemma bit_of_bytes:
  "bit (of_bytes bs :: 'a::len word) k \<longleftrightarrow> k < LENGTH('a) \<and> k div 8 < length bs \<and> bit (bs ! (k div 8)) (k mod 8)"
proof (induction bs arbitrary: k)
  case (Cons b bs)
  show ?case
  proof (cases "k < 8")
    case True
    then show ?thesis by (auto simp: bit_or_iff bit_push_bit_iff bit_ucast_iff)
  next
    case False
    then obtain j where k: "k = 8 + j" by (metis le_add_diff_inverse not_less)
    have "\<not> bit b k" using bit_imp_le_length[of b k] k by auto
    moreover have "k div 8 = Suc (j div 8)" "k mod 8 = j mod 8" by (simp_all add: k)
    ultimately show ?thesis using Cons.IH[of j] by (auto simp: k bit_or_iff bit_push_bit_iff bit_ucast_iff)
  qed
qed simp

lemma of_bytes_to_bytes: "LENGTH('a) = 8 * n \<Longrightarrow> of_bytes (to_bytes n x) = (x :: 'a::len word)"
proof (rule bit_word_eqI)
  fix k assume "LENGTH('a) = 8 * n" "k < LENGTH('a)"
  then show "bit (of_bytes (to_bytes n x) :: 'a word) k \<longleftrightarrow> bit x k"
    by (simp add: bit_of_bytes to_bytes_def bit_ucast_iff bit_drop_bit_eq less_mult_imp_div_less mult.commute)
qed

lemma bytes_str_bytes [simp]: "bytes_str (str_bytes s) = s"
  by (induction s) (simp_all add: bytes_str_def str_bytes_def unat_of_nat)

lemma length_str_bytes [simp]: "length (str_bytes s) = length s"
  by (simp add: str_bytes_def)

lemma zero_in_str_bytes [simp]: "0 \<in> set (str_bytes s) \<longleftrightarrow> CHR 0x00 \<in> set s"
proof -
  have "(of_nat (of_char c) :: byte) = 0 \<longleftrightarrow> c = CHR 0x00" for c
  proof -
    have "(of_nat (of_char c) :: byte) = 0 \<longleftrightarrow> (of_char c :: nat) = 0"
      using nat_of_char_less_256[of c] by (auto simp: word_of_nat_eq_0_iff dvd_eq_mod_eq_0)
    also have "\<dots> \<longleftrightarrow> of_char c = (of_char (CHR 0x00) :: nat)" by (simp only: of_char_Char) simp
    finally show ?thesis by (simp only: of_char_eq_iff)
  qed
  then show ?thesis by (force simp: str_bytes_def)
qed

section \<open>The contract of a buffer\<close>

text \<open>The unread bytes; a buffer that can be read; enough memory; a buffer that can be written.\<close>

definition rest :: "IOBuf_t \<Rightarrow> byte list" where
  "rest b = drop (pos b) (dat b)"

definition readable :: "IOBuf_t \<Rightarrow> bool" where
  "readable b \<longleftrightarrow> error b = 0 \<and> nestedBound b = NESTED_OFFSET_NONE \<and> pos b \<le> length (dat b) \<and> length (dat b) \<le> 2 ^ 31 \<and>
     buf b + length (dat b) < 2 ^ 62"

definition ample :: "(size_t \<Rightarrow> nat) \<Rightarrow> bool" where
  "ample r \<longleftrightarrow> (\<forall>n. 0 < r n \<and> r n < 2 ^ 61)"

definition writable :: "IOBuf_t \<Rightarrow> bool" where
  "writable b \<longleftrightarrow> error b = 0 \<and> nestedBound b = NESTED_OFFSET_NONE \<and> pos b \<le> length (dat b) \<and> length (dat b) \<le> capacity b \<and>
     0 < capacity b \<and> capacity b < 2 ^ 32 \<and> buf b < 2 ^ 61 \<and> ample (reallocs b)"

text \<open>\<open>appended b bs b'\<close>: nothing but the bytes \<open>bs\<close> is new in \<open>b'\<close>.\<close>

definition appended :: "IOBuf_t \<Rightarrow> byte list \<Rightarrow> IOBuf_t \<Rightarrow> bool" where
  "appended b bs b' \<longleftrightarrow> writable b' \<and> dat b' = dat b @ bs \<and> pos b' = pos b \<and> nestedOffset b' = nestedOffset b \<and>
     reallocs b' = reallocs b \<and> fileBacked b' = fileBacked b"

abbreviation adv :: "IOBuf_t \<Rightarrow> nat \<Rightarrow> IOBuf_t" where
  "adv b n \<equiv> b\<lparr>pos := pos b + n\<rparr>"

lemma appended_trans: "appended b xs b1 \<Longrightarrow> appended b1 ys b2 \<Longrightarrow> appended b (xs @ ys) b2"
  by (simp add: appended_def)

lemma appended_refl: "writable b \<Longrightarrow> appended b [] b"
  by (simp add: appended_def)

lemma appended_writable: "appended b xs b1 \<Longrightarrow> writable b1"
  by (simp add: appended_def)

lemma appended_rest: "appended b xs b1 \<Longrightarrow> writable b \<Longrightarrow> rest b1 = rest b @ xs"
  by (simp add: appended_def rest_def writable_def)

lemma writable_readable: "writable b \<Longrightarrow> length (dat b) \<le> 2 ^ 31 \<Longrightarrow> readable b"
  by (simp add: writable_def readable_def)

text \<open>The loop that doubles the size ends with a size that is large enough.\<close>

lemma Reserve_loop:
  "0 < n \<Longrightarrow> goal \<le> 2 ^ 63 \<Longrightarrow>
   \<exists>m. IOBuf_Reserve_loop n goal = Some m \<and> goal \<le> m \<and> (m = n \<or> unat m < 2 * unat goal)"
proof (induction "unat goal - unat n" arbitrary: n rule: less_induct)
  case less
  show ?case
  proof (cases "n < goal")
    case True
    have g: "unat goal \<le> 2 ^ 63" using less.prems(2) by (simp add: word_le_nat_alt)
    have u: "unat n < unat goal" "0 < unat n"
      using True less.prems(1) by (simp_all add: word_less_nat_alt)
    then have d: "unat (n * 2) = 2 * unat n" using g by (simp add: unat_word_ariths)
    have "\<exists>m. IOBuf_Reserve_loop (n * 2) goal = Some m \<and> goal \<le> m \<and> (m = n * 2 \<or> unat m < 2 * unat goal)"
      by (rule less.hyps) (use u d less.prems in \<open>auto simp: word_less_nat_alt\<close>)
    then show ?thesis using True u d by (subst IOBuf_Reserve_loop.simps) auto
  next
    case False
    then show ?thesis by (subst IOBuf_Reserve_loop.simps) auto
  qed
qed

lemma Reserve_writable:
  assumes w: "writable b" and n: "length (dat b) + unat count < 2 ^ 31"
  obtains b' where "IOBuf_Reserve b count = Some (b', True)" "appended b [] b'" "length (dat b) + unat count \<le> capacity b'"
proof (cases "length (dat b) + unat count > capacity b")
  case False
  then show ?thesis using that[of b] w n
    by (simp add: IOBuf_Reserve_def writable_def appended_def)
next
  case True
  let ?c = "of_nat (capacity b) :: size_t" and ?g = "of_nat (length (dat b)) + count :: size_t"
  have c: "unat ?c = capacity b" using w by (simp add: writable_def unat_of_nat)
  have g: "unat ?g = length (dat b) + unat count"
    using n by (simp add: unat_word_ariths unat_of_nat)
  have "0 < capacity b" "capacity b < 2 ^ 31" using w True n by (auto simp: writable_def)
  then have c2: "unat (?c * 2) = 2 * capacity b" using c by (simp add: unat_word_ariths)
  have "0 < ?c * 2" using c2 \<open>0 < capacity b\<close> by (simp add: word_less_nat_alt)
  moreover have "?g \<le> 2 ^ 63" using g n by (simp add: word_le_nat_alt)
  ultimately obtain m where m: "IOBuf_Reserve_loop (?c * 2) ?g = Some m" "?g \<le> m" "m = ?c * 2 \<or> unat m < 2 * unat ?g"
    using Reserve_loop by blast
  have m2: "length (dat b) + unat count \<le> unat m" "unat m < 2 ^ 32" "0 < unat m"
    using m(2,3) g c2 n True \<open>0 < capacity b\<close> by (auto simp: word_le_nat_alt)
  have "IOBuf_Reserve b count = Some (b\<lparr>buf := reallocs b m, capacity := unat m\<rparr>, True)"
    using w n True m(1) by (simp add: IOBuf_Reserve_def writable_def ample_def Let_def)
  then show ?thesis
    by (rule that) (use w m2 in \<open>auto simp: appended_def writable_def ample_def\<close>)
qed

lemma PutBytes_writable:
  assumes w: "writable b" and n: "length (dat b) + length bs < 2 ^ 31"
  shows "\<exists>b'. IOBuf_PutBytes b bs = Some b' \<and> appended b bs b'"
proof -
  have u: "unat (of_nat (length bs) :: size_t) = length bs" using n by (simp add: unat_of_nat)
  obtain b' where b': "IOBuf_Reserve b (of_nat (length bs)) = Some (b', True)" "appended b [] b'"
      "length (dat b) + length bs \<le> capacity b'"
    using Reserve_writable[OF w, of "of_nat (length bs)"] n u by auto
  then show ?thesis using n w
    by (auto simp: IOBuf_PutBytes_def IOBuf_MoveLimit_def appended_def writable_def)
qed

lemma TryGetBytes_readable:
  assumes "readable b" "unat count < 2 ^ 63"
  shows "IOBuf_TryGetBytes b count =
    Some (if unat count \<le> length (rest b) then (adv b (unat count), Some (take (unat count) (rest b))) else (b, None))"
  using assms by (auto simp: IOBuf_TryGetBytes_def readable_def rest_def)

lemma readable_adv: "readable b \<Longrightarrow> n \<le> length (rest b) \<Longrightarrow> readable (adv b n)"
  by (auto simp: readable_def rest_def)

lemma rest_adv [simp]: "rest (adv b n) = drop n (rest b)"
  by (simp add: rest_def add.commute)

lemma GetPos_SetPos: "readable b \<Longrightarrow> n \<le> length (rest b) \<Longrightarrow> IOBuf_SetPos (adv b n) (IOBuf_GetPos b) = Some b"
  by (simp add: readable_def rest_def IOBuf_SetPos_def IOBuf_GetPos_def unat_of_nat ENOMEM_def)

section \<open>Codecs\<close>

text \<open>The loops that put or get several values.\<close>

fun put_all :: "(IOBuf_t \<Rightarrow> 'a \<Rightarrow> IOBuf_t option) \<Rightarrow> IOBuf_t \<Rightarrow> 'a list \<Rightarrow> IOBuf_t option" where
  "put_all put b [] = Some b"
| "put_all put b (x # xs) = do { b \<leftarrow> put b x; put_all put b xs }"

fun get_n :: "nat \<Rightarrow> (IOBuf_t \<Rightarrow> (IOBuf_t \<times> 'a) option) \<Rightarrow> IOBuf_t \<Rightarrow> (IOBuf_t \<times> 'a list) option" where
  "get_n 0 get b = Some (b, [])"
| "get_n (Suc n) get b = do { (b, x) \<leftarrow> get b; (b, xs) \<leftarrow> get_n n get b; Some (b, x # xs) }"

text \<open>
  A type that can be put into a buffer and taken out again: \<open>enc\<close> are the bytes of a value, \<open>ok\<close> holds
  for the values that the format can express. A getter takes exactly the bytes of the value, and
  leaves the buffer alone when they are not all there yet.
\<close>

locale encoder =
  fixes put :: "IOBuf_t \<Rightarrow> 'a \<Rightarrow> IOBuf_t option"
    and enc :: "'a \<Rightarrow> byte list"
    and ok :: "'a \<Rightarrow> bool"
  assumes put_enc: "writable b \<Longrightarrow> ok x \<Longrightarrow> length (dat b) + length (enc x) < 2 ^ 31 \<Longrightarrow>
      \<exists>b'. put b x = Some b' \<and> appended b (enc x) b'"
begin

lemma put_all_enc:
  "writable b \<Longrightarrow> list_all ok xs \<Longrightarrow> length (dat b) + length (concat (map enc xs)) < 2 ^ 31 \<Longrightarrow>
   \<exists>b'. put_all put b xs = Some b' \<and> appended b (concat (map enc xs)) b'"
proof (induction xs arbitrary: b)
  case (Cons x xs)
  then obtain b1 where b1: "put b x = Some b1" "appended b (enc x) b1" using put_enc[of b x] by auto
  have "\<exists>b'. put_all put b1 xs = Some b' \<and> appended b1 (concat (map enc xs)) b'"
    by (rule Cons.IH) (use b1(2) Cons.prems in \<open>auto simp: appended_def\<close>)
  then show ?case using b1 by (auto dest: appended_trans[OF b1(2)])
qed (simp add: appended_refl)

end

locale codec = encoder put enc ok
  for put :: "IOBuf_t \<Rightarrow> 'a \<Rightarrow> IOBuf_t option" and enc :: "'a \<Rightarrow> byte list" and ok :: "'a \<Rightarrow> bool" +
  fixes tryget :: "IOBuf_t \<Rightarrow> (IOBuf_t \<times> 'a option) option"
  assumes try_enc: "readable b \<Longrightarrow> ok x \<Longrightarrow> rest b = enc x @ r \<Longrightarrow> tryget b = Some (adv b (length (enc x)), Some x)"
    and try_short: "readable b \<Longrightarrow> ok x \<Longrightarrow> strict_prefix (rest b) (enc x) \<Longrightarrow> tryget b = Some (b, None)"
begin

lemma get_enc: "readable b \<Longrightarrow> ok x \<Longrightarrow> rest b = enc x @ r \<Longrightarrow> GET tryget b = Some (adv b (length (enc x)), x)"
  by (simp add: GET_def try_enc)

lemma get_short: "readable b \<Longrightarrow> ok x \<Longrightarrow> strict_prefix (rest b) (enc x) \<Longrightarrow> GET tryget b = None"
  by (simp add: GET_def try_short)

lemma get_n_enc:
  "readable b \<Longrightarrow> list_all ok xs \<Longrightarrow> rest b = concat (map enc xs) @ r \<Longrightarrow>
   get_n (length xs) (GET tryget) b = Some (adv b (length (concat (map enc xs))), xs)"
proof (induction xs arbitrary: b)
  case (Cons x xs)
  have 1: "GET tryget b = Some (adv b (length (enc x)), x)"
    by (rule get_enc[where r = "concat (map enc xs) @ r"]) (use Cons.prems in auto)
  have "get_n (length xs) (GET tryget) (adv b (length (enc x))) =
      Some (adv (adv b (length (enc x))) (length (concat (map enc xs))), xs)"
    by (rule Cons.IH) (use Cons.prems in \<open>auto intro!: readable_adv\<close>)
  then show ?case by (simp add: 1 add.assoc)
qed simp

end

lemma TRY_GET_enc:
  assumes "readable b" "LENGTH('a) = 8 * n" "n < 2 ^ 31" "rest b = to_bytes n x @ r"
  shows "TRY_GET n b = Some (adv b n, Some (x :: 'a::len word))"
proof -
  have "unat (of_nat n :: size_t) = n" using assms(3) by (simp add: unat_of_nat)
  then show ?thesis using assms TryGetBytes_readable[OF assms(1), of "of_nat n"]
    by (simp add: TRY_GET_def of_bytes_to_bytes)
qed

lemma TRY_GET_short:
  assumes "readable b" "n < 2 ^ 31" "length (rest b) < n"
  shows "TRY_GET n b = Some (b, None)"
proof -
  have "unat (of_nat n :: size_t) = n" using assms(2) by (simp add: unat_of_nat)
  then show ?thesis using assms TryGetBytes_readable[OF assms(1), of "of_nat n"] by (simp add: TRY_GET_def)
qed

lemma strict_prefix_length_less: "strict_prefix xs ys \<Longrightarrow> length xs < length ys"
  by (auto simp: strict_prefix_def prefix_def)

interpretation int8: codec IOBuf_PutInt8 "to_bytes 1" "\<lambda>_. True" IOBuf_TryGetInt8
  by unfold_locales
    (auto simp: IOBuf_PutInt8_def IOBuf_TryGetInt8_def PutBytes_writable TRY_GET_enc TRY_GET_short dest!: strict_prefix_length_less)

interpretation int32: codec IOBuf_PutInt32 "to_bytes 4" "\<lambda>_. True" IOBuf_TryGetInt32
  by unfold_locales
    (auto simp: IOBuf_PutInt32_def IOBuf_TryGetInt32_def PutBytes_writable TRY_GET_enc TRY_GET_short dest!: strict_prefix_length_less)

interpretation int64: codec IOBuf_PutInt64 "to_bytes 8" "\<lambda>_. True" IOBuf_TryGetInt64
  by unfold_locales
    (auto simp: IOBuf_PutInt64_def IOBuf_TryGetInt64_def PutBytes_writable TRY_GET_enc TRY_GET_short dest!: strict_prefix_length_less)

interpretation dbl: codec IOBuf_PutDouble "to_bytes 8" "\<lambda>_. True" IOBuf_TryGetDouble
  by unfold_locales
    (auto simp: IOBuf_PutDouble_def IOBuf_TryGetDouble_def PutBytes_writable TRY_GET_enc TRY_GET_short dest!: strict_prefix_length_less)

definition enc_buf :: "byte list \<Rightarrow> byte list" where
  "enc_buf data = to_bytes 4 (of_nat (length data) :: u32) @ data"

definition enc_str :: "string \<Rightarrow> byte list" where
  "enc_str s = enc_buf (str_bytes s @ [0])"

definition ok_buf :: "byte list \<Rightarrow> bool" where
  "ok_buf data \<longleftrightarrow> length data < 2 ^ 31"

definition ok_str :: "string \<Rightarrow> bool" where
  "ok_str s \<longleftrightarrow> CHR 0x00 \<notin> set s \<and> length s + 1 < 2 ^ 31"

lemma scast_count: "n < 2 ^ 31 \<Longrightarrow> unat (scast (of_nat n :: u32) :: size_t) = n"
proof -
  assume n: "n < 2 ^ 31"
  then have "sint (of_nat n :: u32) = int n"
    by (simp add: sint_uint signed_take_bit_int_eq_self uint_nat unat_of_nat)
  then have "(scast (of_nat n :: u32) :: size_t) = of_nat n"
    by (metis of_int_of_nat_eq of_int_sint scast_eq)
  then show ?thesis using n by (simp add: unat_of_nat)
qed

lemma TryGetBuf_enc:
  assumes b: "readable b" and d: "ok_buf data" and r: "rest b = enc_buf data @ r"
  shows "IOBuf_TryGetBuf b = Some (adv b (length (enc_buf data)), Some data)"
proof -
  let ?n = "of_nat (length data) :: u32"
  have 1: "IOBuf_TryGetInt32 b = Some (adv b 4, Some ?n)"
    using int32.try_enc[OF b, of ?n] r by (simp add: enc_buf_def)
  have 2: "readable (adv b 4)" by (rule readable_adv[OF b]) (simp add: r enc_buf_def)
  have 3: "unat (scast ?n :: size_t) = length data" using d by (simp add: scast_count ok_buf_def)
  have 4: "IOBuf_TryGetBytes (adv b 4) (scast ?n) = Some (adv (adv b 4) (length data), Some data)"
    using TryGetBytes_readable[OF 2, of "scast ?n"] 3 d r by (simp add: enc_buf_def ok_buf_def)
  show ?thesis by (simp add: IOBuf_TryGetBuf_def 1 4) (simp add: enc_buf_def)
qed

lemma TryGetBuf_short:
  assumes b: "readable b" and d: "ok_buf data" and r: "strict_prefix (rest b) (enc_buf data)"
  shows "IOBuf_TryGetBuf b = Some (b, None)"
proof (cases "length (rest b) < 4")
  case True
  then have "IOBuf_TryGetInt32 b = Some (b, None)" using b by (simp add: IOBuf_TryGetInt32_def TRY_GET_short)
  then show ?thesis using GetPos_SetPos[OF b, of 0] by (simp add: IOBuf_TryGetBuf_def)
next
  case False
  let ?n = "of_nat (length data) :: u32"
  obtain zs where zs: "enc_buf data = rest b @ zs" "zs \<noteq> []" using r by (auto simp: strict_prefix_def prefix_def)
  have "take 4 (enc_buf data) = to_bytes 4 ?n" by (simp add: enc_buf_def)
  then have "take 4 (rest b) = to_bytes 4 ?n" using zs(1) False by simp
  then have "rest b = to_bytes 4 ?n @ drop 4 (rest b)" using append_take_drop_id[of 4 "rest b"] by simp
  then have 1: "IOBuf_TryGetInt32 b = Some (adv b 4, Some ?n)" using int32.try_enc[OF b, of ?n] by simp
  have 2: "readable (adv b 4)" by (rule readable_adv[OF b]) (use False in simp)
  have 3: "unat (scast ?n :: size_t) = length data" using d by (simp add: scast_count ok_buf_def)
  have "length (enc_buf data) = 4 + length data" by (simp add: enc_buf_def)
  then have "length (rest b) - 4 < length data" using zs False by (cases zs) auto
  then have 4: "IOBuf_TryGetBytes (adv b 4) (scast ?n) = Some (adv b 4, None)"
    using TryGetBytes_readable[OF 2, of "scast ?n"] 3 d by (simp add: ok_buf_def)
  show ?thesis using GetPos_SetPos[OF b, of 4] False by (simp add: IOBuf_TryGetBuf_def 1 4)
qed

lemma PutBuf_writable:
  assumes "writable b" "length (dat b) + length (enc_buf data) < 2 ^ 31"
  shows "\<exists>b'. IOBuf_PutBuf b data = Some b' \<and> appended b (enc_buf data) b'"
proof -
  have l: "length (enc_buf data) = 4 + length data" by (simp add: enc_buf_def)
  obtain b1 where b1: "IOBuf_PutInt32 b (of_nat (length data)) = Some b1" "appended b (to_bytes 4 (of_nat (length data) :: u32)) b1"
    using int32.put_enc[OF assms(1), of "of_nat (length data)"] assms(2) l by auto
  have "writable b1" "length (dat b1) + length data < 2 ^ 31" using b1(2) assms(2) l by (auto simp: appended_def)
  from PutBytes_writable[OF this] obtain b2 where "IOBuf_PutBytes b1 data = Some b2" "appended b1 data b2" by blast
  with b1 show ?thesis using appended_trans[OF b1(2)] by (auto simp: IOBuf_PutBuf_def enc_buf_def)
qed

interpretation bufs: codec IOBuf_PutBuf enc_buf ok_buf IOBuf_TryGetBuf
  by unfold_locales (simp_all add: PutBuf_writable TryGetBuf_enc TryGetBuf_short)

lemma takeWhile_str: "CHR 0x00 \<notin> set s \<Longrightarrow> takeWhile (\<lambda>b. b \<noteq> 0) (str_bytes s @ 0 # r) = str_bytes s"
proof -
  assume "CHR 0x00 \<notin> set s"
  then have "\<forall>x \<in> set (str_bytes s). x \<noteq> 0" using zero_in_str_bytes[of s] by blast
  then show ?thesis by (simp add: takeWhile_tail)
qed

lemma TryGetString_enc:
  assumes b: "readable b" and s: "ok_str str" and r: "rest b = enc_str str @ r"
  shows "IOBuf_TryGetString b = Some (adv b (length (enc_str str)), Some str)"
proof -
  let ?d = "str_bytes str @ [0]"
  have 1: "IOBuf_TryGetBuf b = Some (adv b (length (enc_buf ?d)), Some ?d)"
    by (rule TryGetBuf_enc[OF b, of _ r]) (use s r in \<open>simp_all add: ok_str_def ok_buf_def enc_str_def\<close>)
  have l: "length (enc_buf ?d) = 4 + (length str + 1)" by (simp add: enc_buf_def)
  have start: "drop (pos b + 4) (dat b) = ?d @ r"
    using r by (simp add: rest_def enc_str_def enc_buf_def) (metis add.commute append_eq_conv_conj drop_drop length_to_bytes)
  have n: "dat b ! (pos b + 4 + length str) = 0"
  proof -
    have "pos b + 4 \<le> length (dat b)" using start by (cases "pos b + 4 \<le> length (dat b)") auto
    then have "dat b ! (pos b + 4 + length str) = drop (pos b + 4) (dat b) ! length str" by simp
    then show ?thesis by (simp add: start nth_append)
  qed
  have "c_string (?d @ r) = Some str" using s takeWhile_str[of str r] by (simp add: c_string_def ok_str_def)
  then show ?thesis using n start
    by (simp add: IOBuf_TryGetString_def 1 l enc_str_def add.assoc Let_def) (simp add: add.commute add.left_commute)
qed

interpretation strs: codec IOBuf_PutString enc_str ok_str IOBuf_TryGetString
proof
  show "IOBuf_TryGetString b = Some (b, None)" if "readable b" "ok_str x" "strict_prefix (rest b) (enc_str x)" for b x
    using TryGetBuf_short[OF that(1), of "str_bytes x @ [0]"] that(2,3)
    by (simp add: IOBuf_TryGetString_def enc_str_def ok_buf_def ok_str_def)
qed (simp_all add: IOBuf_PutString_def enc_str_def PutBuf_writable TryGetString_enc[unfolded enc_str_def])

lemmas int8_get = int8.get_enc[OF _ TrueI, folded IOBuf_GetInt8_def]
  and int32_get = int32.get_enc[OF _ TrueI, folded IOBuf_GetInt32_def]
  and int64_get = int64.get_enc[OF _ TrueI, folded IOBuf_GetInt64_def]
  and dbl_get = dbl.get_enc[OF _ TrueI, folded IOBuf_GetDouble_def]
  and buf_get = bufs.get_enc[folded IOBuf_GetBuf_def]
  and str_get = strs.get_enc[folded IOBuf_GetString_def]
  and str_get_n = strs.get_n_enc[folded IOBuf_GetString_def]

lemmas int8_put = int8.put_enc[OF _ TrueI] and int32_put = int32.put_enc[OF _ TrueI] and int64_put = int64.put_enc[OF _ TrueI]
  and dbl_put = dbl.put_enc[OF _ TrueI]

lemma IOBuf_Init_writable:
  "0 < a \<Longrightarrow> a < 2 ^ 61 \<Longrightarrow> ample r \<Longrightarrow> IOBuf_Init r a = (b, t) \<Longrightarrow>
   t \<and> writable b \<and> dat b = [] \<and> pos b = 0 \<and> \<not> IOBuf_InNested b"
  by (auto simp: IOBuf_Init_def IOBUF_NULL_def writable_def DEFAULT_SIZE_def IOBuf_InNested_def)

lemma GetEOB_rest: "readable b \<Longrightarrow> rest b = [] \<Longrightarrow> IOBuf_GetEOB b = Some ()"
  by (simp add: IOBuf_GetEOB_def IOBuf_GetLimit_def IOBuf_GetPos_def readable_def rest_def)

section \<open>Properties\<close>

text \<open>A value of any of the formats, how it is put, and how a value of the same kind is got.\<close>

datatype item = I8 byte | I32 u32 | I64 "64 word" | Dbl double | Blob "byte list" | Str string

fun put_item :: "IOBuf_t \<Rightarrow> item \<Rightarrow> IOBuf_t option" where
  "put_item b (I8 x) = IOBuf_PutInt8 b x"
| "put_item b (I32 x) = IOBuf_PutInt32 b x"
| "put_item b (I64 x) = IOBuf_PutInt64 b x"
| "put_item b (Dbl x) = IOBuf_PutDouble b x"
| "put_item b (Blob x) = IOBuf_PutBuf b x"
| "put_item b (Str x) = IOBuf_PutString b x"

fun get_like :: "item \<Rightarrow> IOBuf_t \<Rightarrow> (IOBuf_t \<times> item) option" where
  "get_like (I8 _) b = map_option (apsnd I8) (IOBuf_GetInt8 b)"
| "get_like (I32 _) b = map_option (apsnd I32) (IOBuf_GetInt32 b)"
| "get_like (I64 _) b = map_option (apsnd I64) (IOBuf_GetInt64 b)"
| "get_like (Dbl _) b = map_option (apsnd Dbl) (IOBuf_GetDouble b)"
| "get_like (Blob _) b = map_option (apsnd Blob) (IOBuf_GetBuf b)"
| "get_like (Str _) b = map_option (apsnd Str) (IOBuf_GetString b)"

fun get_likes :: "item list \<Rightarrow> IOBuf_t \<Rightarrow> (IOBuf_t \<times> item list) option" where
  "get_likes [] b = Some (b, [])"
| "get_likes (x # xs) b = do { (b, y) \<leftarrow> get_like x b; (b, ys) \<leftarrow> get_likes xs b; Some (b, y # ys) }"

fun enc_item :: "item \<Rightarrow> byte list" where
  "enc_item (I8 x) = to_bytes 1 x"
| "enc_item (I32 x) = to_bytes 4 x"
| "enc_item (I64 x) = to_bytes 8 x"
| "enc_item (Dbl x) = to_bytes 8 x"
| "enc_item (Blob x) = enc_buf x"
| "enc_item (Str x) = enc_str x"

fun ok_item :: "item \<Rightarrow> bool" where
  "ok_item (Blob x) \<longleftrightarrow> ok_buf x"
| "ok_item (Str x) \<longleftrightarrow> ok_str x"
| "ok_item _ \<longleftrightarrow> True"

lemma put_item_enc:
  "writable b \<Longrightarrow> ok_item x \<Longrightarrow> length (dat b) + length (enc_item x) < 2 ^ 31 \<Longrightarrow>
   \<exists>b'. put_item b x = Some b' \<and> appended b (enc_item x) b'"
  using int8_put int32_put int64_put dbl_put bufs.put_enc strs.put_enc by (cases x) auto

lemma get_like_enc:
  "readable b \<Longrightarrow> ok_item x \<Longrightarrow> rest b = enc_item x @ r \<Longrightarrow> get_like x b = Some (adv b (length (enc_item x)), x)"
  using int8_get int32_get int64_get dbl_get buf_get str_get by (cases x) auto

interpretation items: encoder put_item enc_item ok_item
  by unfold_locales (rule put_item_enc)

lemma get_likes_enc:
  "readable b \<Longrightarrow> list_all ok_item xs \<Longrightarrow> rest b = concat (map enc_item xs) @ r \<Longrightarrow>
   get_likes xs b = Some (adv b (length (concat (map enc_item xs))), xs)"
proof (induction xs arbitrary: b)
  case (Cons x xs)
  have 1: "get_like x b = Some (adv b (length (enc_item x)), x)"
    by (rule get_like_enc[where r = "concat (map enc_item xs) @ r"]) (use Cons.prems in auto)
  have "get_likes xs (adv b (length (enc_item x))) =
      Some (adv (adv b (length (enc_item x))) (length (concat (map enc_item xs))), xs)"
    by (rule Cons.IH) (use Cons.prems in \<open>auto intro!: readable_adv\<close>)
  then show ?case by (simp add: 1 add.assoc)
qed simp

text \<open>C18: Any sequence of integers, doubles, byte strings and C strings that is put into a fresh buffer is read
  back unchanged by the getters of the same kinds, and then the end of the buffer is reached. The
  hypotheses are that allocation succeeds, that the strings have a length that the format can
  express and no null character inside, and that the whole fits in 2 GB.\<close>

theorem IOBuf_roundtrip:
  assumes "0 < a" "a < 2 ^ 61" "ample r" "list_all ok_item xs" "length (concat (map enc_item xs)) < 2 ^ 31"
  shows "\<exists>b1 b2. put_all put_item (fst (IOBuf_Init r a)) xs = Some b1 \<and>
    get_likes xs b1 = Some (b2, xs) \<and> IOBuf_GetEOB b2 = Some ()"
proof -
  obtain b t where b: "IOBuf_Init r a = (b, t)" by force
  have w: "writable b" "dat b = []" "pos b = 0" using IOBuf_Init_writable[OF assms(1-3) b] by auto
  obtain b1 where b1: "put_all put_item b xs = Some b1" "appended b (concat (map enc_item xs)) b1"
    using items.put_all_enc[OF w(1) assms(4)] assms(5) w(2) by auto
  have r1: "readable b1" "rest b1 = concat (map enc_item xs) @ []"
    using b1(2) w assms(5) by (auto simp: appended_def rest_def intro!: writable_readable)
  let ?b2 = "adv b1 (length (concat (map enc_item xs)))"
  have "get_likes xs b1 = Some (?b2, xs)" by (rule get_likes_enc[OF r1(1) assms(4) r1(2)])
  moreover have "IOBuf_GetEOB ?b2 = Some ()"
    by (rule GetEOB_rest) (use r1 in \<open>auto intro!: readable_adv\<close>)
  ultimately show ?thesis using b b1(1) by auto
qed

theorem IOBuf_roundtrip_witness:
  "\<exists>b1 b2. put_all put_item (fst (IOBuf_Init (\<lambda>_. 4096) 4096)) [I32 7, Str ''tag'', Blob [1, 2], I8 1] = Some b1 \<and>
    get_likes [I32 7, Str ''tag'', Blob [1, 2], I8 1] b1 = Some (b2, [I32 7, Str ''tag'', Blob [1, 2], I8 1]) \<and>
    IOBuf_GetEOB b2 = Some ()"
  by (rule IOBuf_roundtrip) (simp_all add: ample_def ok_buf_def ok_str_def enc_str_def enc_buf_def)

text \<open>C20: The loop of \<open>IOBuf_Reserve\<close> that doubles the size of the buffer ends, for every goal up to \<open>2 ^ 63\<close>
  bytes, with a size that covers the goal and, unless the first size was enough, is less than twice
  as large.\<close>

theorem IOBuf_Reserve_terminates:
  assumes "0 < newSize" "goal \<le> 2 ^ 63"
  shows "\<exists>m. IOBuf_Reserve_loop newSize goal = Some m \<and> goal \<le> m \<and> (m = newSize \<or> unat m < 2 * unat goal)"
  using assms by (rule Reserve_loop)

theorem IOBuf_Reserve_terminates_witness:
  "\<exists>m. IOBuf_Reserve_loop 512 5000 = Some m \<and> 5000 \<le> m \<and> (m = 512 \<or> unat m < 2 * unat (5000 :: size_t))"
  by (rule IOBuf_Reserve_terminates) (simp_all add: word_le_nat_alt)



end
