(* ===== verification/Rpc.thy ===== *)
theory Rpc
  imports IOBuf
begin

text \<open>
  Remote procedure calls: \<open>src/src/lib/rpc.h\<close>, \<open>src/src/lib/rpc.c\<close>, \<open>src/src/lib/rpcc.c\<close> and the table of
  handlers of \<open>src/src/lib/rpcs.c\<close>.

  A connection carries the results of its next calls of \<open>send\<close> and \<open>recv\<close>, and collects the bytes that
  were sent. \<open>hre\<close> says whether the connection has an entry in the reactor, \<open>marked\<close> whether that entry waits
  to become writable. The eager mode of the reactor, which only tests use, is off. The data
  that a service keeps for a host has the type \<open>'d\<close>; the callback \<open>onClose\<close> is an argument where it can run.
\<close>

section \<open>Connections\<close>

datatype send_result = Sent nat | SendAgain | SendError
datatype recv_result = RecvBytes "byte list" | RecvEOF | RecvError

record 'd host_t =
  hsocket :: int
  hin :: IOBuf_t
  hout :: IOBuf_t
  hre :: bool
  marked :: bool
  hdata :: "'d option"
  onClose :: bool
  hasHandlers :: bool
  sent :: "byte list"
  sends :: "send_result list"
  recvs :: "recv_result list"

definition RPC_IsValid :: "'d host_t \<Rightarrow> bool" where
  "RPC_IsValid h \<longleftrightarrow> hsocket h \<noteq> 0"

text \<open>\<open>cb\<close> is the callback, run on the state \<open>s\<close> of the service.\<close>

definition RPC_Release :: "('s \<Rightarrow> 'd host_t \<Rightarrow> ('s \<times> 'd host_t) option) \<Rightarrow> 's \<Rightarrow> 'd host_t \<Rightarrow> ('s \<times> 'd host_t) option" where
  "RPC_Release cb s h = do {
     (s, h) \<leftarrow> (if RPC_IsValid h
               then let h = h\<lparr>hre := False, marked := False, hsocket := 0\<rparr>
                    in if onClose h then cb s h else Some (s, h)
               else Some (s, h));
     b1 \<leftarrow> IOBuf_Release True (hin h);
     b2 \<leftarrow> IOBuf_Release True (hout h);
     Some (s, h\<lparr>hin := b1, hout := b2\<rparr>)
   }"

text \<open>For a host without a callback.\<close>

definition RPC_Release0 :: "'d host_t \<Rightarrow> 'd host_t option" where
  "RPC_Release0 h = map_option snd (RPC_Release (\<lambda>s h. Some (s, h)) () h)"

definition RPC_Start :: "'d host_t \<Rightarrow> byte \<Rightarrow> 'd host_t option" where
  "RPC_Start h rpc = do {
     Assert (\<not> IOBuf_InNested (hout h));
     b \<leftarrow> IOBuf_PutInt8 (hout h) rpc;
     b \<leftarrow> IOBuf_BeginNested b;
     Some (h\<lparr>hout := b\<rparr>)
   }"

text \<open>Append to the message under construction.\<close>

definition RPC_put :: "(IOBuf_t \<Rightarrow> 'a \<Rightarrow> IOBuf_t option) \<Rightarrow> 'd host_t \<Rightarrow> 'a \<Rightarrow> 'd host_t option" where
  "RPC_put put h x = do { b \<leftarrow> put (hout h) x; Some (h\<lparr>hout := b\<rparr>) }"

definition RPC_FillIn :: "'d host_t \<Rightarrow> ('d host_t \<times> int) option" where
  "RPC_FillIn h = do {
     Assert (RPC_IsValid h);
     (b, ok) \<leftarrow> IOBuf_Reserve (hin h) 1024;
     Assert ok;
     case recvs h of [] \<Rightarrow> None
     | RecvError # rs \<Rightarrow> Some (h\<lparr>hin := b, recvs := rs\<rparr>, - 1)
     | RecvEOF # rs \<Rightarrow> Some (h\<lparr>hin := b, recvs := rs\<rparr>, 0)
     | RecvBytes bs # rs \<Rightarrow> do {
         Assert (bs \<noteq> [] \<and> length bs \<le> 1024);
         b \<leftarrow> IOBuf_MoveLimit b bs;
         Some (h\<lparr>hin := b, recvs := rs\<rparr>, int (length bs))
       }
   }"

text \<open>The loop of \<open>RPC_FlushOut\<close>: the host, the bytes that remain, and whether a send failed. After \<open>EAGAIN\<close> or
  \<open>EINTR\<close>, \<open>continue\<close> goes to the condition of the loop.\<close>

fun RPC_FlushOut_loop :: "send_result list \<Rightarrow> 'd host_t \<Rightarrow> byte list \<Rightarrow> bool \<Rightarrow> ('d host_t \<times> byte list \<times> bool) option" where
  "RPC_FlushOut_loop [] h out block = None"
| "RPC_FlushOut_loop (SendError # ss) h out block = Some (h\<lparr>sends := ss\<rparr>, out, True)"
| "RPC_FlushOut_loop (SendAgain # ss) h out block =
     (if block \<and> out \<noteq> [] then RPC_FlushOut_loop ss h out block else Some (h\<lparr>sends := ss\<rparr>, out, False))"
| "RPC_FlushOut_loop (Sent n # ss) h out block = do {
     Assert (n \<le> length out);
     b \<leftarrow> IOBuf_Skip (hout h) (of_nat n);
     let h = h\<lparr>hout := b, sent := sent h @ take n out\<rparr>;
     let out = drop n out;
     if block \<and> out \<noteq> [] then RPC_FlushOut_loop ss h out block else Some (h\<lparr>sends := ss\<rparr>, out, False)
   }"

definition RPC_FlushOut :: "'d host_t \<Rightarrow> bool \<Rightarrow> ('d host_t \<times> int) option" where
  "RPC_FlushOut h block = do {
     Assert (RPC_IsValid h);
     (b, rem) \<leftarrow> IOBuf_PeekRest (hout h);
     let h = h\<lparr>hout := b\<rparr>;
     (h, rem, failed) \<leftarrow> (if rem \<noteq> []
       then do {
         (h, rem, failed) \<leftarrow> RPC_FlushOut_loop (sends h) h rem block;
         if failed then Some (h, rem, True)
         else do { b \<leftarrow> IOBuf_Shift (hout h); Some (h\<lparr>hout := b\<rparr>, rem, False) }
       }
       else Some (h, rem, False));
     if failed then Some (h, - 1)
     else Some (if rem \<noteq> [] \<and> hre h then h\<lparr>marked := True\<rparr> else h, 0)
   }"

definition RPC_Send :: "'d host_t \<Rightarrow> ('d host_t \<times> int) option" where
  "RPC_Send h = do {
     Assert (RPC_IsValid h);
     b \<leftarrow> IOBuf_EndNested (hout h);
     let h = h\<lparr>hout := b\<rparr>;
     if IOBuf_Error b \<noteq> 0 then Some (h, - 1)
     else do {
       Assert (\<not> IOBuf_InNested b);
       if hre h then RPC_FlushOut h False else RPC_FlushOut h True
     }
   }"

text \<open>The buffer, and the procedure and its arguments if the whole message is there.\<close>

definition RPC_DecodeMsg :: "IOBuf_t \<Rightarrow> (IOBuf_t \<times> (byte \<times> IOBuf_t) option) option" where
  "RPC_DecodeMsg b = do {
     let p = IOBuf_GetPos b;
     (b, x) \<leftarrow> IOBuf_TryGetInt8 b;
     case x of None \<Rightarrow> do { b \<leftarrow> IOBuf_SetPos b p; Some (b, None) }
     | Some rpc \<Rightarrow> do {
         (b, y) \<leftarrow> IOBuf_TryGetNested b;
         case y of None \<Rightarrow> do { b \<leftarrow> IOBuf_SetPos b p; Some (b, None) }
         | Some args \<Rightarrow> Some (b, Some (rpc, args))
       }
   }"

section \<open>Dispatch\<close>

type_synonym ('s, 'd) handler = "'s \<Rightarrow> 'd host_t \<Rightarrow> IOBuf_t \<Rightarrow> ('s \<times> 'd host_t) option"
type_synonym ('s, 'd) handlers = "('s, 'd) handler option list"

text \<open>\<open>handlers[(int)rpc]\<close> with a signed \<open>char\<close>: a negative index reads before the array.\<close>

definition handler_at :: "('s, 'd) handlers \<Rightarrow> byte \<Rightarrow> ('s, 'd) handler option option" where
  "handler_at hs rpc =
     (if sint rpc < 0 \<or> unat rpc \<ge> length hs then None else Some (hs ! unat rpc))"

definition RPCS_RegisterHandler :: "('s, 'd) handlers \<Rightarrow> byte \<Rightarrow> ('s, 'd) handler \<Rightarrow> ('s, 'd) handlers option" where
  "RPCS_RegisterHandler hs rpc f = do {
     old \<leftarrow> handler_at hs rpc;
     case old of Some _ \<Rightarrow> None | None \<Rightarrow> Some (hs[unat rpc := Some f])
   }"

text \<open>The table that \<open>RPCS_Init\<close> clears.\<close>

definition RPCS_Init_handlers :: "('s, 'd) handlers" where
  "RPCS_Init_handlers = replicate 256 None"

partial_function (option) RPCOnReadable_loop ::
  "('s, 'd) handlers \<Rightarrow> 's \<Rightarrow> 'd host_t \<Rightarrow> bool \<Rightarrow> ('s \<times> 'd host_t) option" where
  "RPCOnReadable_loop hs s h needsShift = do {
     (b, m) \<leftarrow> RPC_DecodeMsg (hin h);
     let h = h\<lparr>hin := b\<rparr>;
     case m of None \<Rightarrow>
       if needsShift then do { b \<leftarrow> IOBuf_Shift (hin h); Some (s, h\<lparr>hin := b\<rparr>) } else Some (s, h)
     | Some (rpc, args) \<Rightarrow> do {
         f \<leftarrow> handler_at hs rpc;
         case f of None \<Rightarrow> RPCOnReadable_loop hs s h True
         | Some f \<Rightarrow> do {
             (s, h) \<leftarrow> f s h args;
             if \<not> RPC_IsValid h then Some (s, h) else RPCOnReadable_loop hs s h True
           }
       }
   }"

definition RPCOnReadable ::
  "('s \<Rightarrow> 'd host_t \<Rightarrow> ('s \<times> 'd host_t) option) \<Rightarrow> ('s, 'd) handlers \<Rightarrow> 's \<Rightarrow> 'd host_t \<Rightarrow> ('s \<times> 'd host_t) option" where
  "RPCOnReadable cb hs s h = do {
     (h, err) \<leftarrow> RPC_FillIn h;
     if err \<le> 0 then RPC_Release cb s h
     else if hasHandlers h then RPCOnReadable_loop hs s h False
     else Some (s, h)
   }"

definition RPCOnWritable ::
  "('s \<Rightarrow> 'd host_t \<Rightarrow> ('s \<times> 'd host_t) option) \<Rightarrow> 's \<Rightarrow> 'd host_t \<Rightarrow> ('s \<times> 'd host_t) option" where
  "RPCOnWritable cb s h = do {
     (h, r) \<leftarrow> RPC_FlushOut h False;
     if r < 0 then RPC_Release cb s h else Some (s, h)
   }"

text \<open>\<open>a1\<close> and \<open>a2\<close> are the allocations of the buffers, \<open>added\<close> the success of \<open>Reactor_Add\<close>.\<close>

definition RPC_PrepareHost ::
  "(size_t \<Rightarrow> nat) \<Rightarrow> nat \<Rightarrow> nat \<Rightarrow> bool \<Rightarrow> int \<Rightarrow> bool \<Rightarrow> 'd host_t \<Rightarrow> ('d host_t \<times> bool) option" where
  "RPC_PrepareHost r a1 a2 added socket nonblocking h = do {
     let h = h\<lparr>hsocket := socket\<rparr>;
     let (b1, ok1) = IOBuf_Init r a1;
     Assert ok1;
     let (b2, ok2) = IOBuf_Init r a2;
     Assert ok2;
     let h = h\<lparr>hin := b1, hout := b2, marked := False\<rparr>;
     if nonblocking \<and> \<not> added then Some (h\<lparr>hre := False\<rparr>, False)
     else Some (h\<lparr>hre := nonblocking, hdata := None, onClose := False, hasHandlers := False\<rparr>, True)
   }"

text \<open>The connected pair of hosts over which a signal handler talks to its own server.\<close>

definition RPC_Pair ::
  "(size_t \<Rightarrow> nat) \<Rightarrow> nat list \<Rightarrow> bool \<Rightarrow> bool \<Rightarrow> int \<times> int \<Rightarrow> 'd host_t \<Rightarrow> 'd host_t \<Rightarrow> ('d host_t \<times> 'd host_t \<times> bool) option" where
  "RPC_Pair r as added1 added2 sockets h1 h2 = do {
     (h1, ok) \<leftarrow> RPC_PrepareHost r (as ! 0) (as ! 1) added1 (fst sockets) True h1;
     if \<not> ok then Some (h1, h2, False)
     else do {
       let h1 = h1\<lparr>hasHandlers := True\<rparr>;
       (h2, ok) \<leftarrow> RPC_PrepareHost r (as ! 2) (as ! 3) added2 (snd sockets) True h2;
       Some (h1, h2, ok)
     }
   }"

section \<open>The blocking client\<close>

text \<open>The host, the result and, if that is not negative, the arguments of the reply.\<close>

partial_function (option) RPCC_Recv_loop :: "'d host_t \<Rightarrow> ('d host_t \<times> int \<times> IOBuf_t option) option" where
  "RPCC_Recv_loop h = do {
     (b, m) \<leftarrow> RPC_DecodeMsg (hin h);
     let h = h\<lparr>hin := b\<rparr>;
     case m of Some (rpc, args) \<Rightarrow> Some (h, sint rpc, Some args)
     | None \<Rightarrow> do {
         (h, err) \<leftarrow> RPC_FillIn h;
         if err < 0 then Some (h, err, None)
         else if err = 0 then Some (h, - 1, None)
         else RPCC_Recv_loop h
       }
   }"

definition RPCC_Recv :: "'d host_t \<Rightarrow> ('d host_t \<times> int \<times> IOBuf_t option) option" where
  "RPCC_Recv h = do {
     Assert (RPC_IsValid h);
     b \<leftarrow> IOBuf_Shift (hin h);
     RPCC_Recv_loop (h\<lparr>hin := b\<rparr>)
   }"

text \<open>\<open>resolved\<close> and \<open>connected\<close> are the results of \<open>getaddrinfo\<close> and of \<open>connect\<close> on the socket \<open>s\<close>.\<close>

definition RPCC_Connect ::
  "bool \<Rightarrow> bool \<Rightarrow> int \<Rightarrow> (size_t \<Rightarrow> nat) \<Rightarrow> nat \<Rightarrow> nat \<Rightarrow> 'd host_t \<Rightarrow> ('d host_t \<times> bool) option" where
  "RPCC_Connect resolved connected s r a1 a2 h =
     (if \<not> resolved then Some (h, False)
      else if \<not> connected then Some (h, False)
      else RPC_PrepareHost r a1 a2 True s False h)"

section \<open>Frames\<close>

text \<open>The bytes of a message.\<close>

definition frame :: "byte \<Rightarrow> byte list \<Rightarrow> byte list" where
  "frame rpc args = rpc # enc_buf args"

lemma to_bytes_1 [simp]: "to_bytes 1 x = [x]" "to_bytes (Suc 0) x = [x]" for x :: byte
  by (simp_all add: to_bytes_def)

lemma rest_Suc [simp]: "rest (b\<lparr>pos := Suc (pos b)\<rparr>) = drop 1 (rest b)"
  by (simp add: rest_def)

lemma length_frame: "length (frame rpc args) = 5 + length args"
  by (simp add: frame_def enc_buf_def)

lemma view_readable:
  "a + length d < 2 ^ 62 \<Longrightarrow> length d \<le> 2 ^ 31 \<Longrightarrow> readable (IOBuf_InitView r a d) \<and> rest (IOBuf_InitView r a d) = d"
  by (simp add: readable_def IOBuf_InitView_def IOBUF_NULL_def rest_def)

lemma DecodeMsg_frame:
  assumes b: "readable b" and a: "ok_buf args" and r: "rest b = frame rpc args @ r"
  shows "\<exists>v. RPC_DecodeMsg b = Some (adv b (length (frame rpc args)), Some (rpc, v)) \<and> readable v \<and> rest v = args"
proof -
  have 1: "IOBuf_TryGetInt8 b = Some (adv b 1, Some rpc)"
    using int8.try_enc[OF b, of rpc] r by (simp add: frame_def)
  have 2: "readable (adv b 1)" by (rule readable_adv[OF b]) (simp add: r length_frame)
  have 3: "IOBuf_TryGetBuf (adv b 1) = Some (adv (adv b 1) (length (enc_buf args)), Some args)"
    by (rule TryGetBuf_enc[OF 2 a, of r]) (simp add: r frame_def)
  let ?v = "IOBuf_InitView (reallocs b) (buf b + (5 + pos b)) args"
  have "RPC_DecodeMsg b = Some (adv b (length (frame rpc args)), Some (rpc, ?v))"
    using 3 by (simp add: RPC_DecodeMsg_def 1 IOBuf_TryGetNested_def Let_def frame_def enc_buf_def)
  moreover have "buf b + (5 + pos b) + length args < 2 ^ 62" "length args \<le> 2 ^ 31"
    using b arg_cong[OF r, of length] by (auto simp: readable_def rest_def length_frame)
  ultimately show ?thesis using view_readable by blast
qed

lemma DecodeMsg_short:
  assumes b: "readable b" and a: "ok_buf args" and r: "strict_prefix (rest b) (frame rpc args)"
  shows "RPC_DecodeMsg b = Some (b, None)"
proof (cases "rest b")
  case Nil
  then have "IOBuf_TryGetInt8 b = Some (b, None)" using b by (simp add: IOBuf_TryGetInt8_def TRY_GET_short)
  then show ?thesis using GetPos_SetPos[OF b, of 0] by (simp add: RPC_DecodeMsg_def)
next
  case (Cons x xs)
  have x: "x = rpc" "strict_prefix xs (enc_buf args)" using r Cons by (auto simp: frame_def)
  have 1: "IOBuf_TryGetInt8 b = Some (adv b 1, Some rpc)"
    using int8.try_enc[OF b, of rpc xs] Cons x(1) by simp
  have 2: "readable (adv b 1)" by (rule readable_adv[OF b]) (simp add: Cons)
  have 3: "IOBuf_TryGetBuf (adv b 1) = Some (adv b 1, None)"
    by (rule TryGetBuf_short[OF 2 a]) (simp add: Cons x(2))
  show ?thesis using 3 GetPos_SetPos[OF b, of 1] Cons by (simp add: RPC_DecodeMsg_def 1 IOBuf_TryGetNested_def)
qed

section \<open>Sending\<close>

text \<open>The bytes of a connection, sent or still in the output buffer, and a message under construction.\<close>

definition outstream :: "'d host_t \<Rightarrow> byte list" where
  "outstream h = sent h @ rest (hout h)"

definition rpc_open :: "'d host_t \<Rightarrow> byte \<Rightarrow> byte list \<Rightarrow> 'd host_t \<Rightarrow> bool" where
  "rpc_open h0 rpc payload h \<longleftrightarrow>
     writable (hout h) \<and> dat (hout h) = dat (hout h0) @ rpc # to_bytes 4 NESTED_OFFSET_NONE @ payload \<and>
     nestedOffset (hout h) = of_nat (length (dat (hout h0)) + 1) \<and> pos (hout h) = pos (hout h0) \<and>
     fileBacked (hout h) = fileBacked (hout h0) \<and> h\<lparr>hout := hout h0\<rparr> = h0"

text \<open>A connection that is ready for a message.\<close>

definition rpc_ready :: "'d host_t \<Rightarrow> bool" where
  "rpc_ready h \<longleftrightarrow> RPC_IsValid h \<and> writable (hout h) \<and> \<not> IOBuf_InNested (hout h)"

lemma RPC_Start_open:
  assumes h: "rpc_ready h" and n: "length (dat (hout h)) + 5 < 2 ^ 31"
  shows "\<exists>h'. RPC_Start h rpc = Some h' \<and> rpc_open h rpc [] h'"
proof -
  have w: "writable (hout h)" "nestedOffset (hout h) = NESTED_OFFSET_NONE"
    using h by (auto simp: rpc_ready_def IOBuf_InNested_def)
  obtain b1 where b1: "IOBuf_PutInt8 (hout h) rpc = Some b1" "appended (hout h) [rpc] b1"
    using int8_put[OF w(1), of rpc] n by auto
  have w1: "writable b1" "nestedOffset b1 = NESTED_OFFSET_NONE" "dat b1 = dat (hout h) @ [rpc]" "pos b1 = pos (hout h)"
      "fileBacked b1 = fileBacked (hout h)"
    using b1(2) w(2) by (auto simp: appended_def)
  obtain b2 where b2: "IOBuf_PutInt32 b1 NESTED_OFFSET_NONE = Some b2" "appended b1 (to_bytes 4 NESTED_OFFSET_NONE) b2"
    using int32_put[OF w1(1), of NESTED_OFFSET_NONE] n w1(3) by auto
  have "IOBuf_GetLimit b1 = of_nat (length (dat (hout h)) + 1)"
    using w1 by (simp add: IOBuf_GetLimit_def writable_def)
  then have "RPC_Start h rpc = Some (h\<lparr>hout := b2\<lparr>nestedOffset := of_nat (length (dat (hout h)) + 1)\<rparr>\<rparr>)"
    using h w1 b1(1) b2(1) by (simp add: RPC_Start_def IOBuf_BeginNested_def rpc_ready_def)
  moreover have "rpc_open h rpc [] (h\<lparr>hout := b2\<lparr>nestedOffset := of_nat (length (dat (hout h)) + 1)\<rparr>\<rparr>)"
    using b2(2) w1 by (auto simp: rpc_open_def appended_def writable_def)
  ultimately show ?thesis by blast
qed

context encoder
begin

lemma RPC_put_open:
  assumes h: "rpc_open h0 rpc p h" and x: "ok x" and n: "length (dat (hout h0)) + 5 + length (p @ enc x) < 2 ^ 31"
  shows "\<exists>h'. RPC_put put h x = Some h' \<and> rpc_open h0 rpc (p @ enc x) h'"
proof -
  have "writable (hout h)" "length (dat (hout h)) + length (enc x) < 2 ^ 31" using h n by (auto simp: rpc_open_def)
  then obtain b where b: "put (hout h) x = Some b" "appended (hout h) (enc x) b" using put_enc[OF _ x] by blast
  have "RPC_put put h x = Some (h\<lparr>hout := b\<rparr>)" by (simp add: RPC_put_def b(1))
  moreover have "rpc_open h0 rpc (p @ enc x) (h\<lparr>hout := b\<rparr>)"
    using h b(2) by (simp add: rpc_open_def appended_def)
  ultimately show ?thesis by blast
qed

end

lemma SetPos_writable: "writable b \<Longrightarrow> unat p \<le> length (dat b) \<Longrightarrow> IOBuf_SetPos b p = Some (b\<lparr>pos := unat p\<rparr>)"
  by (simp add: IOBuf_SetPos_def writable_def ENOMEM_def)

lemma EndNested_open:
  assumes h: "rpc_open h0 rpc payload h" and h0: "writable (hout h0)"
    and n: "length (dat (hout h0)) + 5 + length payload < 2 ^ 31"
  shows "\<exists>b. IOBuf_EndNested (hout h) = Some b \<and> writable b \<and> \<not> IOBuf_InNested b \<and>
    dat b = dat (hout h0) @ frame rpc payload \<and> pos b = pos (hout h0) \<and> fileBacked b = fileBacked (hout h0)"
proof -
  let ?b = "hout h"
  define k where "k = length (dat (hout h0)) + 1"
  define start where "start = (of_nat k :: u32)"
  have o: "writable ?b" "dat ?b = dat (hout h0) @ rpc # to_bytes 4 NESTED_OFFSET_NONE @ payload" "nestedOffset ?b = start"
      "pos ?b = pos (hout h0)" "pos (hout h0) \<le> length (dat (hout h0))"
    using h h0 by (auto simp: rpc_open_def writable_def start_def k_def)
  have k: "unat start = k" unfolding start_def unat_of_nat using n by (simp add: k_def)
  have "start \<noteq> NESTED_OFFSET_NONE"
  proof
    assume "start = NESTED_OFFSET_NONE"
    then have "k = unat (- 1 :: u32)" using k by (simp only: NESTED_OFFSET_NONE_def)
    then show False using n by (simp add: k_def unsigned_minus_1_eq_mask mask_eq_exp_minus_1)
  qed
  then have nest: "IOBuf_InNested ?b" by (simp add: IOBuf_InNested_def o(3))
  let ?b1 = "?b\<lparr>pos := k\<rparr>"
  have r: "readable ?b1" "rest ?b1 = to_bytes 4 NESTED_OFFSET_NONE @ payload"
    using o n by (auto simp: readable_def writable_def rest_def k_def)
  have 1: "IOBuf_SetPos ?b start = Some ?b1" using SetPos_writable[OF o(1), of start] k o(2) by (simp add: k_def)
  have 2: "IOBuf_GetInt32 ?b1 = Some (adv ?b1 4, NESTED_OFFSET_NONE)" using int32_get[OF r] by simp
  have p: "IOBuf_GetPos ?b = of_nat (pos ?b)" "unat (of_nat (pos ?b) :: u32) = pos ?b"
    using o n by (simp_all add: IOBuf_GetPos_def writable_def unat_of_nat)
  have l: "IOBuf_GetLimit ?b - start - 4 = of_nat (length payload)"
    using o by (simp add: IOBuf_GetLimit_def writable_def start_def k_def)
  let ?b2 = "(adv ?b1 4)\<lparr>nestedOffset := NESTED_OFFSET_NONE\<rparr>"
  let ?d = "dat (hout h0) @ rpc # to_bytes 4 (of_nat (length payload) :: u32) @ payload"
  have 3: "IOBuf_PokeInt32 ?b2 k (of_nat (length payload)) = Some (?b2\<lparr>dat := ?d\<rparr>)"
    using o by (simp add: IOBuf_PokeInt32_def writable_def k_def)
  have 4: "IOBuf_SetPos (?b2\<lparr>dat := ?d\<rparr>) (of_nat (pos ?b)) = Some (?b2\<lparr>dat := ?d, pos := pos ?b\<rparr>)"
    using o p(2) by (simp add: IOBuf_SetPos_def writable_def ENOMEM_def)
  have "IOBuf_EndNested ?b = Some (?b2\<lparr>dat := ?d, pos := pos ?b\<rparr>)"
    using 3 4 by (simp add: IOBuf_EndNested_def nest o(3) 1 2 p(1) l k Let_def)
  moreover have "dat (hout h0) @ frame rpc payload = ?d" by (simp add: frame_def enc_buf_def)
  moreover have "length ?d = length (dat ?b)" by (simp add: o(2))
  ultimately show ?thesis
    using o h by (intro exI[of _ "?b2\<lparr>dat := ?d, pos := pos ?b\<rparr>"])
      (auto simp: writable_def IOBuf_InNested_def rpc_open_def)
qed

text \<open>\<open>send_ok block ss n\<close>: the results \<open>ss\<close> let the loop send \<open>n\<close> bytes, all of them if it blocks.\<close>

fun send_ok :: "bool \<Rightarrow> send_result list \<Rightarrow> nat \<Rightarrow> bool" where
  "send_ok block [] n \<longleftrightarrow> False"
| "send_ok block (SendError # ss) n \<longleftrightarrow> False"
| "send_ok block (SendAgain # ss) n \<longleftrightarrow> (block \<and> 0 < n \<longrightarrow> send_ok block ss n)"
| "send_ok block (Sent k # ss) n \<longleftrightarrow> k \<le> n \<and> (block \<and> k < n \<longrightarrow> send_ok block ss (n - k))"

lemma Skip_writable:
  "writable b \<Longrightarrow> length (dat b) < 2 ^ 31 \<Longrightarrow> n \<le> length (rest b) \<Longrightarrow> IOBuf_Skip b (of_nat n) = Some (adv b n) \<and> writable (adv b n)"
proof -
  assume a: "writable b" "length (dat b) < 2 ^ 31" "n \<le> length (rest b)"
  then have l: "pos b + n \<le> length (dat b)" by (auto simp: rest_def writable_def)
  then have "unat (of_nat (pos b) + of_nat n :: u32) = pos b + n" using a(2) by (simp add: unat_word_ariths unat_of_nat)
  then show ?thesis using a l SetPos_writable[OF a(1), of "of_nat (pos b) + of_nat n"]
    by (simp add: IOBuf_Skip_def IOBuf_GetPos_def writable_def)
qed

lemma Shift_writable:
  assumes "writable b" "\<not> IOBuf_InNested b"
  shows "\<exists>b'. IOBuf_Shift b = Some b' \<and> writable b' \<and> \<not> IOBuf_InNested b' \<and> dat b' = rest b \<and> pos b' = 0 \<and>
    rest b' = rest b \<and> fileBacked b' = fileBacked b \<and> buf b' = buf b \<and> reallocs b' = reallocs b"
proof -
  have "IOBuf_Reserve b 0 = Some (b, True)"
    using assms(1) by (simp add: IOBuf_Reserve_def writable_def)
  then have "IOBuf_Shift b = Some (b\<lparr>dat := rest b, pos := 0\<rparr>)"
    using assms by (simp add: IOBuf_Shift_def IOBuf_InNested_def writable_def rest_def)
  then show ?thesis using assms by (auto simp: writable_def IOBuf_InNested_def rest_def)
qed

text \<open>\<open>flushed h h'\<close>: some bytes went from the output buffer to the network, nothing else has changed.\<close>

definition flushed :: "'d host_t \<Rightarrow> 'd host_t \<Rightarrow> bool" where
  "flushed h h' \<longleftrightarrow> outstream h' = outstream h \<and> writable (hout h') \<and> length (dat (hout h')) \<le> length (dat (hout h)) \<and>
     nestedOffset (hout h') = nestedOffset (hout h) \<and>
     h'\<lparr>hout := hout h, sent := sent h, sends := sends h, marked := marked h\<rparr> = h"

lemma flushed_refl: "writable (hout h) \<Longrightarrow> flushed h h"
  by (simp add: flushed_def)

lemma flushed_trans:
  assumes "flushed h h1" "flushed h1 h2"
  shows "flushed h h2"
proof -
  have "h2\<lparr>hout := hout h1, sent := sent h1, sends := sends h1, marked := marked h1\<rparr> = h1"
    "h1\<lparr>hout := hout h, sent := sent h, sends := sends h, marked := marked h\<rparr> = h"
    using assms by (simp_all add: flushed_def)
  from arg_cong[OF this(1), of "\<lambda>x. x\<lparr>hout := hout h, sent := sent h, sends := sends h, marked := marked h\<rparr>"] this(2)
  have "h2\<lparr>hout := hout h, sent := sent h, sends := sends h, marked := marked h\<rparr> = h" by simp
  then show ?thesis using assms by (simp add: flushed_def)
qed

lemma flushed_valid: "flushed h h' \<Longrightarrow> hsocket h' = hsocket h \<and> hin h' = hin h \<and> hre h' = hre h \<and> hdata h' = hdata h \<and>
    recvs h' = recvs h \<and> onClose h' = onClose h \<and> hasHandlers h' = hasHandlers h"
proof -
  assume "flushed h h'"
  then have e: "h'\<lparr>hout := hout h, sent := sent h, sends := sends h, marked := marked h\<rparr> = h" by (simp add: flushed_def)
  show ?thesis
    using arg_cong[OF e, of hsocket] arg_cong[OF e, of hin] arg_cong[OF e, of hre] arg_cong[OF e, of hdata]
      arg_cong[OF e, of recvs] arg_cong[OF e, of onClose] arg_cong[OF e, of hasHandlers] by simp
qed

lemma FlushOut_loop:
  assumes "send_ok block ss (length out)" "writable (hout h)" "length (dat (hout h)) < 2 ^ 31" "rest (hout h) = out"
  shows "\<exists>h'. RPC_FlushOut_loop ss h out block = Some (h', rest (hout h'), False) \<and> flushed h h' \<and>
    (block \<longrightarrow> rest (hout h') = [])"
  using assms
proof (induction ss h out block rule: RPC_FlushOut_loop.induct)
  case (1 h out block)
  then show ?case by simp
next
  case (2 ss h out block)
  then show ?case by simp
next
  case (3 ss h out block)
  show ?case using 3 by (cases "block \<and> out \<noteq> []") (auto simp: flushed_def outstream_def)
next
  case (4 n ss h out block)
  note p4 = 4(2-5)
  let ?h = "h\<lparr>hout := adv (hout h) n, sent := sent h @ take n out\<rparr>"
  from p4 have n: "n \<le> length out" by simp
  then have sk: "IOBuf_Skip (hout h) (of_nat n) = Some (adv (hout h) n)" "writable (adv (hout h) n)"
    using p4 Skip_writable[of "hout h" n] by auto
  have st: "flushed h ?h" using p4 sk(2) by (simp add: outstream_def flushed_def)
  show ?case
  proof (cases "block \<and> drop n out \<noteq> []")
    case True
    have "\<exists>h'. RPC_FlushOut_loop ss ?h (drop n out) block = Some (h', rest (hout h'), False) \<and> flushed ?h h' \<and>
        (block \<longrightarrow> rest (hout h') = [])"
      by (rule 4(1)[OF _ _ refl refl]) (use True p4 n sk in auto)
    then show ?thesis using True n sk flushed_trans[OF st] by auto
  next
    case False
    have "flushed ?h (?h\<lparr>sends := ss\<rparr>)" using sk(2) by (simp add: flushed_def outstream_def)
    from flushed_trans[OF st this] show ?thesis using False n sk p4 by auto
  qed
qed

text \<open>A flush loses no byte, duplicates none and keeps their order; a blocking flush empties the buffer.\<close>

lemma FlushOut_stream:
  assumes h: "rpc_ready h" and n: "length (dat (hout h)) < 2 ^ 31"
    and ok: "rest (hout h) \<noteq> [] \<longrightarrow> send_ok block (sends h) (length (rest (hout h)))"
  shows "\<exists>h'. RPC_FlushOut h block = Some (h', 0) \<and> flushed h h' \<and> rpc_ready h' \<and> (block \<longrightarrow> rest (hout h') = []) \<and>
    (rest (hout h) \<noteq> [] \<longrightarrow> dat (hout h') = rest (hout h'))"
proof -
  let ?rem = "rest (hout h)"
  have w: "writable (hout h)" "RPC_IsValid h" "\<not> IOBuf_InNested (hout h)" using h by (auto simp: rpc_ready_def)
  have "readable (hout h)" using w(1) n by (auto intro: writable_readable)
  then have pk: "IOBuf_PeekRest (hout h) = Some (hout h, ?rem)"
    using TryGetBytes_readable[of "hout h" 0] by (simp add: IOBuf_PeekRest_def rest_def)
  show ?thesis
  proof (cases "?rem = []")
    case True
    then show ?thesis using h pk w flushed_refl[OF w(1)] by (auto simp: RPC_FlushOut_def)
  next
    case False
    obtain h1 where l: "RPC_FlushOut_loop (sends h) h ?rem block = Some (h1, rest (hout h1), False)" "flushed h h1"
        "block \<longrightarrow> rest (hout h1) = []"
      using FlushOut_loop[OF _ w(1) n refl] ok False by blast
    have n1: "writable (hout h1)" "\<not> IOBuf_InNested (hout h1)" using l(2) w(3) by (auto simp: flushed_def IOBuf_InNested_def)
    obtain b where b: "IOBuf_Shift (hout h1) = Some b" "writable b" "\<not> IOBuf_InNested b" "dat b = rest (hout h1)" "rest b = rest (hout h1)"
      using Shift_writable[OF n1] by blast
    let ?h2 = "h1\<lparr>hout := b, marked := (if rest (hout h1) \<noteq> [] \<and> hre h1 then True else marked h1)\<rparr>"
    have "RPC_FlushOut h block = Some (?h2, 0)" using w pk False l(1) b(1) by (simp add: RPC_FlushOut_def)
    moreover have "flushed h1 ?h2" using b n1 by (auto simp: flushed_def outstream_def IOBuf_InNested_def rest_def)
    moreover have "rpc_ready ?h2" using w(2) b flushed_valid[OF l(2)] by (simp add: rpc_ready_def RPC_IsValid_def)
    ultimately show ?thesis using l(2,3) b(4,5) flushed_trans[OF l(2)] by auto
  qed
qed

lemma RPC_Send_stream:
  assumes h0: "rpc_ready h0" and h: "rpc_open h0 rpc payload h" and n: "length (dat (hout h0)) + 5 + length payload < 2 ^ 31"
    and ok: "send_ok (\<not> hre h0) (sends h0) (length (rest (hout h0)) + 5 + length payload)"
  shows "\<exists>h'. RPC_Send h = Some (h', 0) \<and> rpc_ready h' \<and> outstream h' = outstream h0 @ frame rpc payload \<and>
    (\<not> hre h0 \<longrightarrow> rest (hout h') = []) \<and> dat (hout h') = rest (hout h') \<and>
    h'\<lparr>hout := hout h0, sent := sent h0, sends := sends h0, marked := marked h0\<rparr> = h0"
proof -
  have w: "writable (hout h0)" "RPC_IsValid h0" using h0 by (auto simp: rpc_ready_def)
  obtain b where b: "IOBuf_EndNested (hout h) = Some b" "writable b" "\<not> IOBuf_InNested b"
      "dat b = dat (hout h0) @ frame rpc payload" "pos b = pos (hout h0)"
    using EndNested_open[OF h w(1) n] by blast
  let ?h1 = "h\<lparr>hout := b\<rparr>"
  have e: "h\<lparr>hout := hout h0\<rparr> = h0" using h by (simp add: rpc_open_def)
  have v: "RPC_IsValid h" "hre h = hre h0" "sends h = sends h0" "sent h = sent h0"
    using w(2) arg_cong[OF e, of hsocket] arg_cong[OF e, of hre] arg_cong[OF e, of sends] arg_cong[OF e, of sent]
    by (simp_all add: RPC_IsValid_def)
  have r: "rest b = rest (hout h0) @ frame rpc payload" using b w by (simp add: rest_def writable_def)
  have "\<exists>h'. RPC_FlushOut ?h1 (\<not> hre h0) = Some (h', 0) \<and> flushed ?h1 h' \<and> rpc_ready h' \<and> (\<not> hre h0 \<longrightarrow> rest (hout h') = []) \<and>
      (rest (hout ?h1) \<noteq> [] \<longrightarrow> dat (hout h') = rest (hout h'))"
    by (rule FlushOut_stream)
      (use b v ok n r in \<open>auto simp: rpc_ready_def RPC_IsValid_def length_frame add.assoc\<close>)
  then obtain h' where h': "RPC_FlushOut ?h1 (\<not> hre h0) = Some (h', 0)" "flushed ?h1 h'" "rpc_ready h'"
      "\<not> hre h0 \<longrightarrow> rest (hout h') = []" "dat (hout h') = rest (hout h')"
    by (auto simp: r frame_def)
  have "RPC_Send h = Some (h', 0)"
    using h'(1) b v by (cases "hre h0") (simp_all add: RPC_Send_def IOBuf_Error_def writable_def)
  moreover have "outstream h' = outstream h0 @ frame rpc payload"
    using h'(2) r v(4) by (simp add: flushed_def outstream_def)
  moreover have "h'\<lparr>hout := hout h0, sent := sent h0, sends := sends h0, marked := marked h0\<rparr> = h0"
  proof -
    have "h'\<lparr>hout := b, sent := sent h, sends := sends h, marked := marked h\<rparr> = ?h1" using h'(2) by (simp add: flushed_def)
    from arg_cong[OF this, of "\<lambda>x. x\<lparr>hout := hout h0, sent := sent h0, sends := sends h0, marked := marked h0\<rparr>"]
    have "h'\<lparr>hout := hout h0, sent := sent h0, sends := sends h0, marked := marked h0\<rparr> =
        h\<lparr>hout := hout h0\<rparr>\<lparr>sent := sent h0, sends := sends h0, marked := marked h0\<rparr>" by simp
    then show ?thesis by (simp add: e)
  qed
  ultimately show ?thesis using h'(3-5) by blast
qed

section \<open>Receiving\<close>

definition chunk :: "byte list \<Rightarrow> bool" where
  "chunk bs \<longleftrightarrow> bs \<noteq> [] \<and> length bs \<le> 1024"

lemma FillIn_chunk:
  assumes "RPC_IsValid h" "writable (hin h)" "length (dat (hin h)) + 1024 < 2 ^ 31" "recvs h = RecvBytes bs # rs" "chunk bs"
  shows "\<exists>b. RPC_FillIn h = Some (h\<lparr>hin := b, recvs := rs\<rparr>, int (length bs)) \<and> appended (hin h) bs b"
proof -
  obtain b where b: "IOBuf_Reserve (hin h) 1024 = Some (b, True)" "appended (hin h) [] b" "length (dat (hin h)) + 1024 \<le> capacity b"
    using Reserve_writable[OF assms(2), of 1024] assms(3) by auto
  have "IOBuf_MoveLimit b bs = Some (b\<lparr>dat := dat b @ bs\<rparr>)"
    using b assms(5) by (auto simp: IOBuf_MoveLimit_def appended_def writable_def chunk_def)
  then show ?thesis using assms b
    by (intro exI[of _ "b\<lparr>dat := dat b @ bs\<rparr>"]) (auto simp: RPC_FillIn_def chunk_def appended_def writable_def)
qed

lemma append_eq_strict_prefix:
  assumes "xs @ ys = zs @ ws" "length xs < length zs"
  shows "strict_prefix xs zs"
proof -
  have "xs = take (length xs) zs" using assms by (metis append_eq_append_conv_if less_imp_le not_less)
  then show ?thesis using assms(2) by (metis take_is_prefix strict_prefix_def less_irrefl)
qed

text \<open>However the network cuts the bytes of a message, the client receives the message.\<close>

lemma Recv_loop_chunks:
  assumes "RPC_IsValid h" "writable (hin h)" "ok_buf args" "list_all chunk cs" "recvs h = map RecvBytes cs @ rs"
    "rest (hin h) @ concat cs = frame rpc args @ extra"
    "cs \<noteq> [] \<longrightarrow> length (rest (hin h) @ concat (butlast cs)) < length (frame rpc args)"
    "length (dat (hin h)) + length (concat cs) + 1024 < 2 ^ 31"
  shows "\<exists>h' v. RPCC_Recv_loop h = Some (h', sint rpc, Some v) \<and> readable v \<and> rest v = args \<and>
    h'\<lparr>hin := hin h, recvs := recvs h\<rparr> = h \<and> recvs h' = rs \<and> writable (hin h') \<and> rest (hin h') = extra \<and>
    nestedOffset (hin h') = nestedOffset (hin h) \<and> length (dat (hin h')) = length (dat (hin h)) + length (concat cs)"
  using assms
proof (induction cs arbitrary: h)
  case Nil
  have r: "readable (hin h)" using Nil.prems by (intro writable_readable) auto
  obtain v where v: "RPC_DecodeMsg (hin h) = Some (adv (hin h) (length (frame rpc args)), Some (rpc, v))" "readable v" "rest v = args"
    using DecodeMsg_frame[OF r Nil.prems(3), of rpc extra] Nil.prems(6) by auto
  have "writable (adv (hin h) (length (frame rpc args)))"
    using Nil.prems(2) arg_cong[OF Nil.prems(6), of length] by (auto simp: writable_def rest_def length_frame)
  then show ?case using v Nil.prems by (subst RPCC_Recv_loop.simps) auto
next
  case (Cons c cs)
  have r: "readable (hin h)" using Cons.prems by (intro writable_readable) auto
  have "strict_prefix (rest (hin h)) (frame rpc args)"
    using append_eq_strict_prefix[OF Cons.prems(6)] Cons.prems(7) by auto
  then have d: "RPC_DecodeMsg (hin h) = Some (hin h, None)" by (rule DecodeMsg_short[OF r Cons.prems(3)])
  obtain b where b: "RPC_FillIn h = Some (h\<lparr>hin := b, recvs := map RecvBytes cs @ rs\<rparr>, int (length c))" "appended (hin h) c b"
    using FillIn_chunk[OF Cons.prems(1,2), of c "map RecvBytes cs @ rs"] Cons.prems by auto
  let ?h = "h\<lparr>hin := b, recvs := map RecvBytes cs @ rs\<rparr>"
  have rb: "rest b = rest (hin h) @ c" by (rule appended_rest[OF b(2) Cons.prems(2)])
  have "\<exists>h' v. RPCC_Recv_loop ?h = Some (h', sint rpc, Some v) \<and> readable v \<and> rest v = args \<and>
      h'\<lparr>hin := hin ?h, recvs := recvs ?h\<rparr> = ?h \<and> recvs h' = rs \<and> writable (hin h') \<and> rest (hin h') = extra \<and>
      nestedOffset (hin h') = nestedOffset (hin ?h) \<and> length (dat (hin h')) = length (dat (hin ?h)) + length (concat cs)"
    by (rule Cons.IH) (use Cons.prems b(2) rb in \<open>auto simp: appended_def RPC_IsValid_def\<close>)
  then obtain h' v where h': "RPCC_Recv_loop ?h = Some (h', sint rpc, Some v)" "readable v" "rest v = args"
      "h'\<lparr>hin := hin ?h, recvs := recvs ?h\<rparr> = ?h" "recvs h' = rs" "writable (hin h')" "rest (hin h') = extra"
      "nestedOffset (hin h') = nestedOffset (hin ?h)" "length (dat (hin h')) = length (dat (hin ?h)) + length (concat cs)"
    by (elim exE conjE) (rule that)
  have "h'\<lparr>hin := hin h, recvs := recvs h\<rparr> = h"
    using arg_cong[OF h'(4), of "\<lambda>x. x\<lparr>hin := hin h, recvs := recvs h\<rparr>"] by simp
  moreover have "RPCC_Recv_loop h = Some (h', sint rpc, Some v)"
    using d b(1) h'(1) Cons.prems(4) by (subst RPCC_Recv_loop.simps) (simp add: chunk_def)
  ultimately show ?case using h' b(2) by (auto simp: appended_def)
qed

lemma RPCC_Recv_chunks:
  assumes "RPC_IsValid h" "writable (hin h)" "\<not> IOBuf_InNested (hin h)" "ok_buf args" "list_all chunk cs"
    "recvs h = map RecvBytes cs @ rs" "rest (hin h) @ concat cs = frame rpc args @ extra"
    "cs \<noteq> [] \<longrightarrow> length (rest (hin h) @ concat (butlast cs)) < length (frame rpc args)"
    "length (frame rpc args @ extra) + 1024 < 2 ^ 31"
  shows "\<exists>h' v. RPCC_Recv h = Some (h', sint rpc, Some v) \<and> readable v \<and> rest v = args \<and>
    h'\<lparr>hin := hin h, recvs := recvs h\<rparr> = h \<and> recvs h' = rs \<and> writable (hin h') \<and> \<not> IOBuf_InNested (hin h') \<and>
    rest (hin h') = extra \<and> length (dat (hin h')) = length (frame rpc args @ extra)"
proof -
  obtain b where b: "IOBuf_Shift (hin h) = Some b" "writable b" "\<not> IOBuf_InNested b" "dat b = rest (hin h)" "rest b = rest (hin h)"
    using Shift_writable[OF assms(2,3)] by blast
  let ?h = "h\<lparr>hin := b\<rparr>"
  have l: "length (rest (hin h)) + length (concat cs) = length (frame rpc args @ extra)"
    using arg_cong[OF assms(7), of length] by simp
  have "\<exists>h' v. RPCC_Recv_loop ?h = Some (h', sint rpc, Some v) \<and> readable v \<and> rest v = args \<and>
      h'\<lparr>hin := hin ?h, recvs := recvs ?h\<rparr> = ?h \<and> recvs h' = rs \<and> writable (hin h') \<and> rest (hin h') = extra \<and>
      nestedOffset (hin h') = nestedOffset (hin ?h) \<and> length (dat (hin h')) = length (dat (hin ?h)) + length (concat cs)"
    by (rule Recv_loop_chunks) (use assms b l in \<open>auto simp: RPC_IsValid_def\<close>)
  then obtain h' v where h': "RPCC_Recv_loop ?h = Some (h', sint rpc, Some v)" "readable v" "rest v = args"
      "h'\<lparr>hin := hin ?h, recvs := recvs ?h\<rparr> = ?h" "recvs h' = rs" "writable (hin h')" "rest (hin h') = extra"
      "nestedOffset (hin h') = nestedOffset (hin ?h)" "length (dat (hin h')) = length (dat (hin ?h)) + length (concat cs)"
    by (elim exE conjE) (rule that)
  have "h'\<lparr>hin := hin h, recvs := recvs h\<rparr> = h"
    using arg_cong[OF h'(4), of "\<lambda>x. x\<lparr>hin := hin h, recvs := recvs h\<rparr>"] by simp
  then show ?thesis using assms(1) b h' l by (auto simp: RPCC_Recv_def IOBuf_InNested_def)
qed

section \<open>Properties\<close>

interpretation item_lists: encoder "put_all put_item" "\<lambda>xs. concat (map enc_item xs)" "list_all ok_item"
  by unfold_locales (rule items.put_all_enc)

lemma flushed_sent: "rest (hout h) = [] \<Longrightarrow> sent h = outstream h"
  by (simp add: outstream_def)

text \<open>C19: A message goes through a connection unharmed. The sender builds any sequence of values with \<open>RPC_Start\<close> and
  the putters and calls the blocking \<open>RPC_Send\<close>, which may need many calls of \<open>send\<close>, interrupted or partial;
  the network cuts the bytes into any chunks of at most 1024 bytes; then \<open>RPCC_Recv\<close> of the receiver
  returns, with the same procedure and a buffer from which the getters read the same values up to
  the end.\<close>

theorem RPC_delivery:
  fixes hs hr :: "'d host_t"
  assumes "rpc_ready hs" "\<not> hre hs" "dat (hout hs) = []" "sent hs = []" "list_all ok_item xs"
    "length (concat (map enc_item xs)) + 2048 < 2 ^ 31"
    "send_ok True (sends hs) (5 + length (concat (map enc_item xs)))"
    "RPC_IsValid hr" "writable (hin hr)" "\<not> IOBuf_InNested (hin hr)" "rest (hin hr) = []"
    "recvs hr = map RecvBytes cs" "list_all chunk cs" "concat cs = frame rpc (concat (map enc_item xs))"
  shows "\<exists>h1 h2 h3 hr' v b. RPC_Start hs rpc = Some h1 \<and> RPC_put (put_all put_item) h1 xs = Some h2 \<and>
    RPC_Send h2 = Some (h3, 0) \<and> sent h3 = concat cs \<and>
    RPCC_Recv hr = Some (hr', sint rpc, Some v) \<and> get_likes xs v = Some (b, xs) \<and> IOBuf_GetEOB b = Some ()"
proof -
  let ?p = "concat (map enc_item xs)"
  have p: "ok_buf ?p" using assms(6) by (simp add: ok_buf_def)
  obtain h1 where h1: "RPC_Start hs rpc = Some h1" "rpc_open hs rpc [] h1"
    using RPC_Start_open[OF assms(1)] assms(3) by auto
  obtain h2 where h2: "RPC_put (put_all put_item) h1 xs = Some h2" "rpc_open hs rpc ?p h2"
    using item_lists.RPC_put_open[OF h1(2) assms(5)] assms(3,6) by auto
  have "rest (hout hs) = []" using assms(3) by (simp add: rest_def)
  then obtain h3 where h3: "RPC_Send h2 = Some (h3, 0)" "outstream h3 = frame rpc ?p" "rest (hout h3) = []"
    using RPC_Send_stream[OF assms(1) h2(2)] assms(2-4,6,7) by (auto simp: outstream_def)
  have "cs \<noteq> []" using assms(14) by (auto simp: frame_def)
  then have "length (concat (butlast cs)) < length (frame rpc ?p)"
    using assms(13,14) by (cases cs rule: rev_cases) (auto simp: chunk_def dest!: arg_cong[where f = length] simp flip: assms(14))
  then obtain hr' v where v: "RPCC_Recv hr = Some (hr', sint rpc, Some v)" "readable v" "rest v = ?p"
    using RPCC_Recv_chunks[OF assms(8-10) p assms(13), of "[]" rpc "[]"] assms(6,11,12,14) by (auto simp: length_frame)
  have "get_likes xs v = Some (adv v (length ?p), xs)" by (rule get_likes_enc[OF v(2) assms(5), of "[]"]) (simp add: v(3))
  moreover have "IOBuf_GetEOB (adv v (length ?p)) = Some ()"
    by (rule GetEOB_rest) (use v in \<open>auto intro!: readable_adv\<close>)
  ultimately show ?thesis using h1 h2 h3 v assms(14) flushed_sent[OF h3(3)] by auto
qed

text \<open>A connection with fresh buffers, for the witnesses.\<close>

definition host0 :: "send_result list \<Rightarrow> recv_result list \<Rightarrow> unit host_t" where
  "host0 ss rs = \<lparr>hsocket = 3, hin = fst (IOBuf_Init (\<lambda>_. 4096) 4096), hout = fst (IOBuf_Init (\<lambda>_. 4096) 8192), hre = False,
     marked = False, hdata = None, onClose = False, hasHandlers = False, sent = [], sends = ss, recvs = rs\<rparr>"

lemmas host0_simps = host0_def IOBuf_Init_def IOBUF_NULL_def DEFAULT_SIZE_def rpc_ready_def RPC_IsValid_def writable_def ample_def
  IOBuf_InNested_def rest_def

theorem RPC_delivery_witness:
  "\<exists>h1 h2 h3 hr' v b. RPC_Start (host0 [Sent 3, SendAgain, Sent 8] []) 76 = Some h1 \<and>
    RPC_put (put_all put_item) h1 [I32 7, I8 1, I8 2] = Some h2 \<and>
    RPC_Send h2 = Some (h3, 0) \<and> sent h3 = concat [[76, 6], [0, 0, 0, 7, 0, 0], [0, 1, 2]] \<and>
    RPCC_Recv (host0 [] (map RecvBytes [[76, 6], [0, 0, 0, 7, 0, 0], [0, 1, 2]])) = Some (hr', sint (76 :: byte), Some v) \<and>
    get_likes [I32 7, I8 1, I8 2] v = Some (b, [I32 7, I8 1, I8 2]) \<and> IOBuf_GetEOB b = Some ()"
  by (rule RPC_delivery)
    (simp_all add: host0_simps chunk_def frame_def enc_buf_def to_bytes_def upt_rec)

text \<open>C22: When the output buffer could not grow, \<open>RPC_Send\<close> panics: \<open>IOBuf_EndNested\<close> reads from the buffer before
  \<open>RPC_Send\<close> gets to its test of the error. The error return of \<open>RPC_Send\<close> for this case is never taken.\<close>

theorem RPC_Send_after_error: "IOBuf_Error (hout h) \<noteq> 0 \<Longrightarrow> RPC_Send h = None"
proof -
  assume e: "IOBuf_Error (hout h) \<noteq> 0"
  have g: "IOBuf_GetInt32 b = None" if "error b \<noteq> 0" for b
    using that by (simp add: IOBuf_GetInt32_def GET_def IOBuf_TryGetInt32_def TRY_GET_def IOBuf_TryGetBytes_def)
  have "IOBuf_EndNested (hout h) = None"
    using e g by (auto simp: IOBuf_EndNested_def IOBuf_Error_def IOBuf_SetPos_def Let_def Assert_def)
  then show ?thesis by (simp add: RPC_Send_def)
qed

theorem RPC_Send_after_error_witness:
  "RPC_Send ((host0 [] [])\<lparr>hout := (hout (host0 [] []))\<lparr>error := ENOMEM, nestedOffset := 0\<rparr>\<rparr>) = None"
  by (rule RPC_Send_after_error) (simp add: IOBuf_Error_def ENOMEM_def)

text \<open>C23: The procedure of a message is a signed character that is used as an index. A message whose
  first byte has the sign bit makes \<open>RPCOnReadable\<close> read a function pointer before the table of handlers.\<close>

theorem RPCOnReadable_negative:
  assumes "readable (hin h)" "ok_buf args" "rest (hin h) = frame rpc args @ r" "sint rpc < 0"
  shows "RPCOnReadable_loop hs s h needsShift = None"
proof -
  obtain v where "RPC_DecodeMsg (hin h) = Some (adv (hin h) (length (frame rpc args)), Some (rpc, v))"
    using DecodeMsg_frame[OF assms(1-3)] by blast
  then show ?thesis using assms(4) by (subst RPCOnReadable_loop.simps) (simp add: handler_at_def)
qed

theorem RPCOnReadable_negative_witness:
  "RPCOnReadable_loop RPCS_Init_handlers () ((host0 [] [])\<lparr>hin := IOBuf_InitView (\<lambda>_. 0) 4096 [200, 0, 0, 0, 0]\<rparr>) False = None"
  by (rule RPCOnReadable_negative[where rpc = 200 and args = "[]" and r = "[]"])
    (simp_all add: readable_def IOBuf_InitView_def IOBUF_NULL_def rest_def ok_buf_def frame_def enc_buf_def to_bytes_def upt_rec)

end
