(* ===== verification/RpcService.thy ===== *)
theory RpcService
  imports Rpc
begin

text \<open>
  Messages as lists of values, and a service behind the dispatch loop of \<open>src/src/lib/rpcs.c\<close>.

  The locale \<open>rpc_service\<close> is the contract between a service and the dispatch loop: each well-formed request
  has a handler, and the handler is a given step on the state of the service and on the output of the
  connection. From it follows that the loop serves the requests in the order in which they were sent, in
  whatever pieces the bytes arrive.
\<close>

section \<open>Proxies\<close>

text \<open>\<open>RPC_Send\<close> and, when it fails, \<open>RPC_Release\<close>; whether it succeeded.\<close>

definition proxy_send :: "'d host_t \<Rightarrow> ('d host_t \<times> bool) option" where
  "proxy_send h = do {
     (h, err) \<leftarrow> RPC_Send h;
     if err \<noteq> 0 then do { h \<leftarrow> RPC_Release0 h; Some (h, False) } else Some (h, True)
   }"

section \<open>Reading and writing messages\<close>

text \<open>\<open>reads b bs\<close>: the buffer can be read and holds exactly \<open>bs\<close>. Each getter is then one rewriting step.\<close>

definition reads :: "IOBuf_t \<Rightarrow> byte list \<Rightarrow> bool" where
  "reads b bs \<longleftrightarrow> readable b \<and> rest b = bs"

context codec
begin

lemma get_bind:
  assumes "reads b (enc x @ r)" "ok x" "\<And>b. reads b r \<Longrightarrow> F b x = R"
  shows "Option.bind (GET tryget b) (\<lambda>(b, x). F b x) = R"
proof -
  have b: "readable b" "rest b = enc x @ r" using assms(1) by (auto simp: reads_def)
  have "reads (adv b (length (enc x))) r" using b by (auto simp: reads_def intro!: readable_adv)
  then show ?thesis using get_enc[OF b(1) assms(2) b(2)] assms(3) by simp
qed

lemma get_n_bind:
  assumes "reads b (concat (map enc xs) @ r)" "list_all ok xs" "n = length xs" "\<And>b. reads b r \<Longrightarrow> F b xs = R"
  shows "Option.bind (get_n n (GET tryget) b) (\<lambda>(b, xs). F b xs) = R"
proof -
  have b: "readable b" "rest b = concat (map enc xs) @ r" using assms(1) by (auto simp: reads_def)
  have "reads (adv b (length (concat (map enc xs)))) r" using b by (auto simp: reads_def intro!: readable_adv)
  then show ?thesis using get_n_enc[OF b(1) assms(2) b(2)] assms(3,4) by simp
qed

end

lemma eob_bind: "reads b [] \<Longrightarrow> F () = R \<Longrightarrow> Option.bind (IOBuf_GetEOB b) F = R"
  by (simp add: reads_def GetEOB_rest)

lemmas int8_bind = int8.get_bind[OF _ TrueI, folded IOBuf_GetInt8_def]
  and int32_bind = int32.get_bind[OF _ TrueI, folded IOBuf_GetInt32_def]
  and int64_bind = int64.get_bind[OF _ TrueI, folded IOBuf_GetInt64_def]
  and buf_bind = bufs.get_bind[folded IOBuf_GetBuf_def]
  and str_bind = strs.get_bind[folded IOBuf_GetString_def]
  and str_n_bind = strs.get_n_bind[folded IOBuf_GetString_def]

text \<open>A message as a list of items.\<close>

lemma put_items [simp]:
  "RPC_put IOBuf_PutInt8 h x8 = RPC_put (put_all put_item) h [I8 x8]"
  "RPC_put IOBuf_PutInt32 h x32 = RPC_put (put_all put_item) h [I32 x32]"
  "RPC_put IOBuf_PutInt64 h x64 = RPC_put (put_all put_item) h [I64 x64]"
  "RPC_put IOBuf_PutBuf h bs = RPC_put (put_all put_item) h [Blob bs]"
  "RPC_put IOBuf_PutString h s = RPC_put (put_all put_item) h [Str s]"
  by (simp_all add: RPC_put_def)

lemma put_all_strings: "put_all IOBuf_PutString b ts = put_all put_item b (map Str ts)"
  by (induction ts arbitrary: b) simp_all

lemma put_strings [simp]: "RPC_put (put_all IOBuf_PutString) h ts = RPC_put (put_all put_item) h (map Str ts)"
  by (simp add: RPC_put_def put_all_strings)

lemma put_all_append: "put_all put b (xs @ ys) = Option.bind (put_all put b xs) (\<lambda>b. put_all put b ys)"
  by (induction xs arbitrary: b) (simp_all add: bind_assoc)

lemma put_items_append:
  "Option.bind (RPC_put (put_all put_item) h xs) (\<lambda>h. RPC_put (put_all put_item) h ys) = RPC_put (put_all put_item) h (xs @ ys)"
  by (simp add: RPC_put_def put_all_append bind_assoc)

lemma put_items_bind:
  "Option.bind (RPC_put (put_all put_item) h xs) (\<lambda>h. Option.bind (RPC_put (put_all put_item) h ys) F) =
   Option.bind (RPC_put (put_all put_item) h (xs @ ys)) F"
  by (simp flip: put_items_append add: bind_assoc)

abbreviation enc_items :: "item list \<Rightarrow> byte list" where
  "enc_items xs \<equiv> concat (map enc_item xs)"

definition send_msg :: "'d host_t \<Rightarrow> byte \<Rightarrow> item list \<Rightarrow> ('d host_t \<times> int) option" where
  "send_msg h rpc xs = do { h \<leftarrow> RPC_Start h rpc; h \<leftarrow> RPC_put (put_all put_item) h xs; RPC_Send h }"

text \<open>A connection on which a message with these items can be sent.\<close>

definition can_send :: "'d host_t \<Rightarrow> item list \<Rightarrow> bool" where
  "can_send h xs \<longleftrightarrow> rpc_ready h \<and> list_all ok_item xs \<and> length (dat (hout h)) + 5 + length (enc_items xs) < 2 ^ 31 \<and>
     send_ok (\<not> hre h) (sends h) (length (rest (hout h)) + 5 + length (enc_items xs))"

lemma send_msg_stream:
  assumes "can_send h xs"
  shows "\<exists>h'. send_msg h rpc xs = Some (h', 0) \<and> rpc_ready h' \<and> outstream h' = outstream h @ frame rpc (enc_items xs) \<and>
    (\<not> hre h \<longrightarrow> rest (hout h') = []) \<and> dat (hout h') = rest (hout h') \<and>
    h'\<lparr>hout := hout h, sent := sent h, sends := sends h, marked := marked h\<rparr> = h"
proof -
  have c: "rpc_ready h" "list_all ok_item xs" "length (dat (hout h)) + 5 + length (enc_items xs) < 2 ^ 31"
    "send_ok (\<not> hre h) (sends h) (length (rest (hout h)) + 5 + length (enc_items xs))"
    using assms by (auto simp: can_send_def)
  obtain h1 where h1: "RPC_Start h rpc = Some h1" "rpc_open h rpc [] h1" using RPC_Start_open[OF c(1)] c(3) by auto
  obtain h2 where h2: "RPC_put (put_all put_item) h1 xs = Some h2" "rpc_open h rpc (enc_items xs) h2"
    using item_lists.RPC_put_open[OF h1(2) c(2)] c(3) by auto
  show ?thesis using RPC_Send_stream[OF c(1) h2(2) c(3,4)] h1 h2 by (auto simp: send_msg_def)
qed

text \<open>A message of a proxy.\<close>

definition proxy_msg :: "'d host_t \<Rightarrow> byte \<Rightarrow> item list \<Rightarrow> ('d host_t \<times> bool) option" where
  "proxy_msg h rpc xs = do { h \<leftarrow> RPC_Start h rpc; h \<leftarrow> RPC_put (put_all put_item) h xs; proxy_send h }"

lemma proxy_msg_stream:
  assumes "can_send h xs"
  shows "\<exists>h'. proxy_msg h rpc xs = Some (h', True) \<and> rpc_ready h' \<and> outstream h' = outstream h @ frame rpc (enc_items xs) \<and>
    (\<not> hre h \<longrightarrow> rest (hout h') = []) \<and> dat (hout h') = rest (hout h') \<and>
    h'\<lparr>hout := hout h, sent := sent h, sends := sends h, marked := marked h\<rparr> = h"
proof -
  obtain h' where h': "send_msg h rpc xs = Some (h', 0)" "rpc_ready h'" "outstream h' = outstream h @ frame rpc (enc_items xs)"
      "\<not> hre h \<longrightarrow> rest (hout h') = []" "dat (hout h') = rest (hout h')" "h'\<lparr>hout := hout h, sent := sent h, sends := sends h, marked := marked h\<rparr> = h"
    using send_msg_stream[OF assms, of rpc] by blast
  then have "proxy_msg h rpc xs = Some (h', True)"
    by (auto simp: proxy_msg_def send_msg_def proxy_send_def bind_eq_Some_conv)
  with h' show ?thesis by blast
qed

text \<open>Conversely, a blocking send that reports success was possible.\<close>

lemma FlushOut_loop_ok:
  "RPC_FlushOut_loop ss h out True = Some (h', rm, False) \<Longrightarrow> out \<noteq> [] \<Longrightarrow> send_ok True ss (length out)"
proof (induction ss arbitrary: h out)
  case (Cons x ss)
  have "send_ok True ss (length out - n)"
    if a: "x = Sent n" "n < length out" for n
  proof -
    obtain h1 where "RPC_FlushOut_loop ss h1 (drop n out) True = Some (h', rm, False)"
      using Cons.prems a by (auto simp: bind_eq_Some_conv Let_def Assert_def split: if_splits)
    from Cons.IH[OF this] a(2) show ?thesis by simp
  qed
  with Cons show ?case by (cases x) (auto simp: bind_eq_Some_conv Let_def Assert_def split: if_splits)
qed simp

lemma proxy_msg_ok:
  assumes h: "rpc_ready h" "\<not> hre h" and xs: "list_all ok_item xs" "length (dat (hout h)) + 5 + length (enc_items xs) < 2 ^ 31"
    and r: "proxy_msg h rpc xs = Some (h', True)"
  shows "can_send h xs"
proof -
  obtain h1 where h1: "RPC_Start h rpc = Some h1" "rpc_open h rpc [] h1" using RPC_Start_open[OF h(1)] xs(2) by auto
  obtain h2 where h2: "RPC_put (put_all put_item) h1 xs = Some h2" "rpc_open h rpc (enc_items xs) h2"
    using item_lists.RPC_put_open[OF h1(2) xs(1)] xs(2) by auto
  have w: "writable (hout h)" "RPC_IsValid h" using h(1) by (auto simp: rpc_ready_def)
  obtain b where b: "IOBuf_EndNested (hout h2) = Some b" "writable b" "\<not> IOBuf_InNested b"
      "dat b = dat (hout h) @ frame rpc (enc_items xs)" "pos b = pos (hout h)"
    using EndNested_open[OF h2(2) w(1) xs(2)] by blast
  have e: "h2\<lparr>hout := hout h\<rparr> = h" using h2(2) by (simp add: rpc_open_def)
  have v: "RPC_IsValid h2" "\<not> hre h2" "sends h2 = sends h"
    using w(2) h(2) arg_cong[OF e, of hsocket] arg_cong[OF e, of hre] arg_cong[OF e, of sends] by (simp_all add: RPC_IsValid_def)
  have rb: "rest b = rest (hout h) @ frame rpc (enc_items xs)" using b(4,5) w(1) by (simp add: rest_def writable_def)
  have "readable b" by (rule writable_readable) (use b xs(2) in \<open>simp_all add: length_frame\<close>)
  then have pk: "IOBuf_PeekRest b = Some (b, rest b)"
    using TryGetBytes_readable[of b 0] by (simp add: IOBuf_PeekRest_def rest_def)
  have "RPC_Send h2 = Some (h', 0)"
    using r h1 h2 by (auto simp: proxy_msg_def proxy_send_def bind_eq_Some_conv split: if_splits)
  then have "RPC_FlushOut (h2\<lparr>hout := b\<rparr>) True = Some (h', 0)"
    using b v by (simp add: RPC_Send_def IOBuf_Error_def writable_def)
  then obtain h3 rm where "RPC_FlushOut_loop (sends h) (h2\<lparr>hout := b\<rparr>) (rest b) True = Some (h3, rm, False)"
    using pk v rb by (auto simp: RPC_FlushOut_def bind_eq_Some_conv frame_def split: if_splits)
  then have "send_ok True (sends h) (length (rest b))" by (rule FlushOut_loop_ok) (simp add: rb frame_def)
  then show ?thesis using h xs rb by (simp add: can_send_def length_frame add.assoc)
qed

lemma proxy_msg_failed: "proxy_msg h rpc xs = Some (h', False) \<Longrightarrow> \<not> RPC_IsValid h'"
  by (auto simp: proxy_msg_def proxy_send_def RPC_Release0_def RPC_Release_def RPC_IsValid_def bind_eq_Some_conv Let_def
      split: if_splits)

lemma concat_enc_Str: "concat (map (enc_item \<circ> Str) ts) = concat (map enc_str ts)"
  by (induction ts) simp_all

lemma sint_of_nat: "n < 2 ^ 31 \<Longrightarrow> sint (of_nat n :: u32) = int n"
  by (simp add: sint_uint signed_take_bit_int_eq_self uint_nat unat_of_nat)

lemma get_n_if: "(if 0 < int n then get_n n get b else Some (b, [])) = get_n n get b"
  by (cases n) simp_all

section \<open>A service\<close>

lemma writable_adv: "writable b \<Longrightarrow> n \<le> length (rest b) \<Longrightarrow> writable (adv b n)"
  by (auto simp: writable_def rest_def)

text \<open>What the handlers leave of a connection that stays open.\<close>

definition keeps_in :: "'d host_t \<Rightarrow> 'd host_t \<Rightarrow> bool" where
  "keeps_in h h' \<longleftrightarrow> hin h' = hin h \<and> recvs h' = recvs h \<and> hasHandlers h' = hasHandlers h"

definition with_in :: "IOBuf_t \<Rightarrow> recv_result list \<Rightarrow> 'd host_t \<Rightarrow> 'd host_t" where
  "with_in b rs h = h\<lparr>hin := b, recvs := rs\<rparr>"

lemma with_in_simps [simp]:
  "hout (with_in b rs h) = hout h" "sends (with_in b rs h) = sends h" "sent (with_in b rs h) = sent h" "hre (with_in b rs h) = hre h"
  "marked (with_in b rs h) = marked h" "hsocket (with_in b rs h) = hsocket h" "RPC_IsValid (with_in b rs h) = RPC_IsValid h"
  "hdata (with_in b rs h) = hdata h"
  "hout_update f1 (with_in b rs h) = with_in b rs (hout_update f1 h)"
  "sends_update f2 (with_in b rs h) = with_in b rs (sends_update f2 h)"
  "sent_update f3 (with_in b rs h) = with_in b rs (sent_update f3 h)"
  "marked_update f4 (with_in b rs h) = with_in b rs (marked_update f4 h)"
  "hdata_update f5 (with_in b rs h) = with_in b rs (hdata_update f5 h)"
  by (simp_all add: with_in_def RPC_IsValid_def)

lemma FlushOut_loop_keeps:
  "RPC_FlushOut_loop ss h out block = Some (h', rm, f) \<Longrightarrow>
     keeps_in h h' \<and> RPC_IsValid h' = RPC_IsValid h \<and>
     RPC_FlushOut_loop ss (with_in b rs h) out block = Some (with_in b rs h', rm, f)"
proof (induction ss arbitrary: h out)
  case (Cons x ss)
  show ?case using Cons.prems Cons.IH
    by (cases x) (fastforce simp: keeps_in_def RPC_IsValid_def bind_eq_Some_conv Let_def Assert_def split: if_splits)+
qed simp

lemma RPC_FlushOut_keeps:
  assumes "RPC_FlushOut h block = Some (h', err)"
  shows "keeps_in h h' \<and> RPC_IsValid h' \<and> RPC_FlushOut (with_in b rs h) block = Some (with_in b rs h', err)"
proof -
  obtain b0 rm0 where 1: "IOBuf_PeekRest (hout h) = Some (b0, rm0)" "RPC_IsValid h"
    using assms by (auto simp: RPC_FlushOut_def bind_eq_Some_conv)
  show ?thesis
  proof (cases "rm0 = []")
    case False
    obtain h1 rm f where 2: "RPC_FlushOut_loop (sends h) (h\<lparr>hout := b0\<rparr>) rm0 block = Some (h1, rm, f)"
      using assms 1 False by (auto simp: RPC_FlushOut_def bind_eq_Some_conv Let_def)
    then have k: "keeps_in h h1" "RPC_IsValid h1"
        "RPC_FlushOut_loop (sends h) (with_in b rs (h\<lparr>hout := b0\<rparr>)) rm0 block = Some (with_in b rs h1, rm, f)"
      using FlushOut_loop_keeps[OF 2, where b = b and rs = rs] 1(2) by (simp_all add: keeps_in_def RPC_IsValid_def)
    show ?thesis
    proof (cases f)
      case True
      then show ?thesis using assms 1 2 k False by (simp add: RPC_FlushOut_def)
    next
      case f: False
      obtain b1 where "IOBuf_Shift (hout h1) = Some b1"
        using assms 1 2 False f by (cases "IOBuf_Shift (hout h1)") (simp_all add: RPC_FlushOut_def)
      then show ?thesis using assms 1 2 k False f by (auto simp: RPC_FlushOut_def keeps_in_def RPC_IsValid_def)
    qed
  qed (use assms 1 in \<open>auto simp: RPC_FlushOut_def keeps_in_def RPC_IsValid_def\<close>)
qed

lemma RPC_Send_keeps:
  assumes "RPC_Send h = Some (h', err)"
  shows "keeps_in h h' \<and> RPC_IsValid h' \<and> RPC_Send (with_in b rs h) = Some (with_in b rs h', err)"
proof -
  obtain b0 where 1: "IOBuf_EndNested (hout h) = Some b0" "RPC_IsValid h"
    using assms by (auto simp: RPC_Send_def bind_eq_Some_conv)
  show ?thesis
  proof (cases "IOBuf_Error b0 = 0")
    case True
    then have 2: "RPC_FlushOut (h\<lparr>hout := b0\<rparr>) (\<not> hre h) = Some (h', err)" "\<not> IOBuf_InNested b0"
      using assms 1 by (auto simp: RPC_Send_def Let_def bind_eq_Some_conv Assert_def split: if_splits)
    from RPC_FlushOut_keeps[OF 2(1), where b = b and rs = rs] 1 2(2) True show ?thesis
      by (cases "hre h") (simp_all add: RPC_Send_def keeps_in_def Let_def)
  qed (use assms 1 in \<open>auto simp: RPC_Send_def keeps_in_def RPC_IsValid_def Let_def\<close>)
qed

lemma send_msg_keeps:
  assumes "send_msg h rpc xs = Some (h', err)"
  shows "keeps_in h h' \<and> RPC_IsValid h' \<and> send_msg (with_in b rs h) rpc xs = Some (with_in b rs h', err)"
proof -
  obtain b1 where 1: "\<not> IOBuf_InNested (hout h)" "Option.bind (IOBuf_PutInt8 (hout h) rpc) IOBuf_BeginNested = Some b1"
    using assms by (auto simp: send_msg_def RPC_Start_def bind_eq_Some_conv)
  then obtain b2 where 2: "put_all put_item b1 xs = Some b2" "RPC_Send (h\<lparr>hout := b2\<rparr>) = Some (h', err)"
    using assms by (auto simp: send_msg_def RPC_Start_def RPC_put_def bind_eq_Some_conv)
  from RPC_Send_keeps[OF 2(2), where b = b and rs = rs] 1 2(1) show ?thesis
    by (auto simp: send_msg_def RPC_Start_def RPC_put_def bind_eq_Some_conv keeps_in_def)
qed

text \<open>The requests, one after the other, until the connection is closed.\<close>

primrec serve ::
  "('q \<Rightarrow> 's \<Rightarrow> 'd host_t \<Rightarrow> ('s \<times> 'd host_t) option) \<Rightarrow> 'q list \<Rightarrow> 's \<Rightarrow> 'd host_t \<Rightarrow> ('s \<times> 'd host_t) option" where
  "serve step [] s h = Some (s, h)"
| "serve step (q # qs) s h = do {
     (s, h) \<leftarrow> step q s h;
     if RPC_IsValid h then serve step qs s h else Some (s, h)
   }"

text \<open>The reactor calls \<open>RPCOnReadable\<close> once for each piece of the stream that arrives.\<close>

primrec events ::
  "('s \<Rightarrow> 'd host_t \<Rightarrow> ('s \<times> 'd host_t) option) \<Rightarrow> ('s, 'd) handlers \<Rightarrow> nat \<Rightarrow> 's \<Rightarrow> 'd host_t \<Rightarrow> ('s \<times> 'd host_t) option" where
  "events cb hs 0 s h = Some (s, h)"
| "events cb hs (Suc n) s h = do { (s, h) \<leftarrow> RPCOnReadable cb hs s h; events cb hs n s h }"

text \<open>Between the callbacks, the input buffer holds only what was not yet a whole message.\<close>

definition in_ready :: "IOBuf_t \<Rightarrow> bool" where
  "in_ready b \<longleftrightarrow> writable b \<and> \<not> IOBuf_InNested b \<and> dat b = rest b"

definition incomplete :: "byte list \<Rightarrow> bool" where
  "incomplete bs \<longleftrightarrow> (\<exists>rpc a. ok_buf a \<and> strict_prefix bs (frame rpc a))"

text \<open>A call: the request is sent, and the reply arrives in any chunks.\<close>

lemma proxy_call:
  assumes c: "can_send c xs" "\<not> hre c" "in_ready (hin c)" "rest (hin c) = []"
    and n: "recvs c = map RecvBytes cs" "list_all chunk cs" "concat cs = frame ans r" "length r + 2048 < 2 ^ 31"
  obtains c1 c' v where "proxy_msg c req xs = Some (c1, True)" "RPCC_Recv c1 = Some (c', sint ans, Some v)" "reads v r"
    "outstream c' = outstream c @ frame req (enc_items xs)" "rest (hout c') = []"
proof -
  obtain c1 where c1: "proxy_msg c req xs = Some (c1, True)" "rpc_ready c1"
      "outstream c1 = outstream c @ frame req (enc_items xs)" "rest (hout c1) = []"
      "c1\<lparr>hout := hout c, sent := sent c, sends := sends c, marked := marked c\<rparr> = c"
    using proxy_msg_stream[OF c(1), of req] c(2) by auto
  have i: "hin c1 = hin c" "recvs c1 = recvs c"
    using arg_cong[OF c1(5), of hin] arg_cong[OF c1(5), of recvs] by simp_all
  have ne: "cs \<noteq> []" using n(3) by (auto simp: frame_def)
  then have "length (concat (butlast cs)) < length (frame ans r)"
    using n(2) unfolding n(3)[symmetric] by (cases cs rule: rev_cases) (auto simp: chunk_def)
  then have "\<exists>c' v. RPCC_Recv c1 = Some (c', sint ans, Some v) \<and> readable v \<and> rest v = r \<and>
      c'\<lparr>hin := hin c1, recvs := recvs c1\<rparr> = c1 \<and> recvs c' = [] \<and> writable (hin c') \<and> \<not> IOBuf_InNested (hin c') \<and>
      rest (hin c') = [] \<and> length (dat (hin c')) = length (frame ans r @ [])"
    using c1(2) c(3,4) n i
    by (intro RPCC_Recv_chunks) (auto simp: rpc_ready_def in_ready_def ok_buf_def length_frame)
  then obtain c' v where v: "RPCC_Recv c1 = Some (c', sint ans, Some v)" "reads v r" "c'\<lparr>hin := hin c1, recvs := recvs c1\<rparr> = c1"
    by (auto simp: reads_def)
  have "outstream c' = outstream c1" "hout c' = hout c1"
    using arg_cong[OF v(3), of outstream] arg_cong[OF v(3), of hout] by (simp_all add: outstream_def)
  then show thesis using that[OF c1(1) v(1,2)] c1(3,4) by simp
qed

locale rpc_service =
  fixes hs :: "('s, 'd) handlers"
    and ok :: "'q \<Rightarrow> bool"
    and proc :: "'q \<Rightarrow> byte"
    and args :: "'q \<Rightarrow> byte list"
    and step :: "'q \<Rightarrow> 's \<Rightarrow> 'd host_t \<Rightarrow> ('s \<times> 'd host_t) option"
  assumes dispatch: "ok q \<Longrightarrow> reads v (args q) \<Longrightarrow> \<exists>f. handler_at hs (proc q) = Some (Some f) \<and> f s h v = step q s h"
    and args_ok: "ok q \<Longrightarrow> ok_buf (args q)"
    and step_keeps: "step q s h = Some (s', h') \<Longrightarrow> RPC_IsValid h' \<Longrightarrow>
      keeps_in h h' \<and> step q s (h\<lparr>hin := b, recvs := rs\<rparr>) = Some (s', h'\<lparr>hin := b, recvs := rs\<rparr>)"
begin

lemma serve_keeps:
  "serve step qs s h = Some (s', h') \<Longrightarrow> RPC_IsValid h' \<Longrightarrow>
     keeps_in h h' \<and> serve step qs s (h\<lparr>hin := b, recvs := rs\<rparr>) = Some (s', h'\<lparr>hin := b, recvs := rs\<rparr>)"
proof (induction qs arbitrary: s h)
  case (Cons q qs)
  obtain s1 h1 where 1: "step q s h = Some (s1, h1)" using Cons.prems(1) by (auto simp: bind_eq_Some_conv)
  have 2: "RPC_IsValid h1" using Cons.prems 1 by (auto split: if_splits)
  note k = step_keeps[OF 1 2, where b = b and rs = rs]
  have "serve step qs s1 h1 = Some (s', h')" using Cons.prems(1) 1 2 by simp
  from Cons.IH[OF this Cons.prems(2)] k 2 show ?case by (auto simp: keeps_in_def RPC_IsValid_def)
qed (simp add: keeps_in_def)

lemma serve_append:
  "serve step (qs @ qs') s h =
     do { (s, h) \<leftarrow> serve step qs s h; if RPC_IsValid h \<or> qs = [] then serve step qs' s h else Some (s, h) }"
proof (induction qs arbitrary: s h)
  case (Cons q qs)
  have "(if RPC_IsValid h then serve step (qs @ qs') s h else Some (s, h)) =
      Option.bind (if RPC_IsValid h then serve step qs s h else Some (s, h))
        (\<lambda>(s, h). if RPC_IsValid h then serve step qs' s h else Some (s, h))" for s h
    using Cons.IH[of s h] by (cases "qs = []") auto
  then show ?case by (simp add: split_def)
qed simp

abbreviation frames :: "'q list \<Rightarrow> byte list" where
  "frames qs \<equiv> concat (map (\<lambda>q. frame (proc q) (args q)) qs)"

lemma loop_serve:
  assumes "serve step qs s h = Some (s', h')" "RPC_IsValid h'" "list_all ok qs" "incomplete part"
    "writable (hin h)" "\<not> IOBuf_InNested (hin h)" "length (dat (hin h)) \<le> 2 ^ 31" "rest (hin h) = frames qs @ part"
    "qs \<noteq> [] \<or> ns \<or> dat (hin h) = rest (hin h)"
  shows "\<exists>b. RPCOnReadable_loop hs s h ns = Some (s', h'\<lparr>hin := b\<rparr>) \<and> in_ready b \<and> rest b = part"
  using assms
proof (induction qs arbitrary: s h h' ns)
  case Nil
  have r: "readable (hin h)" using Nil.prems by (auto simp: readable_def writable_def ample_def)
  obtain rpc a where a: "ok_buf a" "strict_prefix part (frame rpc a)" using Nil.prems(4) by (auto simp: incomplete_def)
  have d: "RPC_DecodeMsg (hin h) = Some (hin h, None)" by (rule DecodeMsg_short[OF r a(1)]) (use a Nil.prems in simp)
  obtain b where b: "IOBuf_Shift (hin h) = Some b" "writable b" "\<not> IOBuf_InNested b" "dat b = rest (hin h)" "rest b = rest (hin h)"
    using Shift_writable[OF Nil.prems(5,6)] by blast
  show ?case
  proof (cases ns)
    case True
    with b d Nil.prems show ?thesis by (subst RPCOnReadable_loop.simps) (auto simp: in_ready_def)
  next
    case False
    with d Nil.prems show ?thesis
      by (subst RPCOnReadable_loop.simps) (auto simp: in_ready_def intro!: exI[of _ "hin h"])
  qed
next
  case (Cons q qs)
  obtain s1 h1 where 1: "step q s h = Some (s1, h1)" using Cons.prems(1) by (auto simp: bind_eq_Some_conv)
  have 2: "RPC_IsValid h1" using Cons.prems(1,2) 1 by (auto split: if_splits)
  have 3: "serve step qs s1 h1 = Some (s', h')" using Cons.prems(1) 1 2 by simp
  have q: "ok q" "list_all ok qs" using Cons.prems(3) by auto
  have r: "readable (hin h)" by (rule writable_readable) (use Cons.prems in auto)
  let ?n = "length (frame (proc q) (args q))"
  let ?b = "adv (hin h) ?n"
  obtain v where v: "RPC_DecodeMsg (hin h) = Some (?b, Some (proc q, v))" "reads v (args q)"
    using DecodeMsg_frame[OF r args_ok[OF q(1)], of "proc q" "frames qs @ part"] Cons.prems(8) by (auto simp: reads_def)
  obtain f where f: "handler_at hs (proc q) = Some (Some f)" "f s (h\<lparr>hin := ?b\<rparr>) v = step q s (h\<lparr>hin := ?b\<rparr>)"
    using dispatch[OF q(1) v(2), of s "h\<lparr>hin := ?b\<rparr>"] by blast
  have 4: "step q s (h\<lparr>hin := ?b\<rparr>) = Some (s1, h1\<lparr>hin := ?b\<rparr>)"
    using step_keeps[OF 1 2, where b = ?b and rs = "recvs h"] by (auto simp: keeps_in_def)
  have 5: "serve step qs s1 (h1\<lparr>hin := ?b\<rparr>) = Some (s', h'\<lparr>hin := ?b\<rparr>)"
    using serve_keeps[OF 3 Cons.prems(2), where b = ?b and rs = "recvs h1"] by (auto simp: keeps_in_def)
  have n: "?n \<le> length (rest (hin h))" using Cons.prems(8) by simp
  have "writable ?b" by (rule writable_adv[OF Cons.prems(5) n])
  moreover have "\<not> IOBuf_InNested ?b" "rest ?b = frames qs @ part"
    using Cons.prems(6,8) by (simp_all add: IOBuf_InNested_def)
  ultimately have w: "writable ?b" "\<not> IOBuf_InNested ?b" "rest ?b = frames qs @ part" by auto
  have "\<exists>b. RPCOnReadable_loop hs s1 (h1\<lparr>hin := ?b\<rparr>) True = Some (s', h'\<lparr>hin := ?b\<rparr>\<lparr>hin := b\<rparr>) \<and> in_ready b \<and> rest b = part"
    by (rule Cons.IH[OF 5]) (use Cons.prems q w in \<open>auto simp: RPC_IsValid_def\<close>)
  then show ?case
    using v f 2 4 by (subst RPCOnReadable_loop.simps) (simp add: RPC_IsValid_def)
qed

lemma RPCOnReadable_serve:
  assumes "serve step qs s h = Some (s', h')" "RPC_IsValid h'" "list_all ok qs" "incomplete part"
    "RPC_IsValid h" "hasHandlers h" "in_ready (hin h)" "length (dat (hin h)) + 2048 < 2 ^ 31"
    "recvs h = RecvBytes bs # rs" "chunk bs" "rest (hin h) @ bs = frames qs @ part"
  shows "\<exists>b. RPCOnReadable cb hs s h = Some (s', h'\<lparr>hin := b, recvs := rs\<rparr>) \<and> in_ready b \<and> rest b = part"
proof -
  have w: "writable (hin h)" "\<not> IOBuf_InNested (hin h)" "dat (hin h) = rest (hin h)" using assms(7) by (auto simp: in_ready_def)
  obtain b where b: "RPC_FillIn h = Some (h\<lparr>hin := b, recvs := rs\<rparr>, int (length bs))" "appended (hin h) bs b"
    using FillIn_chunk[OF assms(5) w(1) _ assms(9,10)] assms(8) by auto
  have "rest b = rest (hin h) @ bs" using b(2) w(1) by (simp add: appended_def rest_def writable_def)
  then have a: "writable b" "\<not> IOBuf_InNested b" "dat b = rest (hin h) @ bs" "rest b = rest (hin h) @ bs"
    using b(2) w(2) w(3)[symmetric] by (auto simp: appended_def IOBuf_InNested_def)
  have l: "length (dat b) \<le> 2 ^ 31" using a(3) w(3) assms(8,10) by (simp add: chunk_def)
  have "serve step qs s (h\<lparr>hin := b, recvs := rs\<rparr>) = Some (s', h'\<lparr>hin := b, recvs := rs\<rparr>)"
    using serve_keeps[OF assms(1,2), where b = b and rs = rs] by blast
  then have "\<exists>b'. RPCOnReadable_loop hs s (h\<lparr>hin := b, recvs := rs\<rparr>) False = Some (s', h'\<lparr>hin := b, recvs := rs\<rparr>\<lparr>hin := b'\<rparr>) \<and>
      in_ready b' \<and> rest b' = part"
    by (rule loop_serve) (use assms w a l in \<open>auto simp: RPC_IsValid_def\<close>)
  moreover have "h'\<lparr>hin := b, recvs := rs\<rparr>\<lparr>hin := b'\<rparr> = h'\<lparr>hin := b', recvs := rs\<rparr>" for b' by simp
  ultimately show ?thesis using b(1) assms(6,10) by (simp add: RPCOnReadable_def chunk_def)
qed

text \<open>Any prefix of the stream is some whole messages and a part of the next one.\<close>

lemma frames_prefix:
  "list_all ok qs \<Longrightarrow> prefix p (frames qs) \<Longrightarrow>
     \<exists>qs1 qs2 part. qs = qs1 @ qs2 \<and> p = frames qs1 @ part \<and> incomplete part \<and>
       (if qs2 = [] then part = [] else length part < 5 + length (args (hd qs2)))"
proof (induction qs arbitrary: p)
  case Nil
  have "ok_buf []" by (simp add: ok_buf_def)
  then have "incomplete []" unfolding incomplete_def by (intro exI[of _ 0] exI[of _ "[]"]) (simp add: frame_def)
  with Nil show ?case by (intro exI[of _ "[]"]) simp
next
  case (Cons q qs)
  let ?f = "frame (proc q) (args q)"
  have q: "ok q" "list_all ok qs" using Cons.prems(1) by auto
  show ?case
  proof (cases "strict_prefix p ?f")
    case True
    then have "incomplete p" "length p < 5 + length (args q)"
      using args_ok[OF q(1)] prefix_length_less[OF True] by (auto simp: incomplete_def length_frame)
    then show ?thesis by (intro exI[of _ "[]"] exI[of _ "q # qs"] exI[of _ p]) simp
  next
    case False
    then have "prefix ?f p" using Cons.prems(2) by (auto simp: prefix_append strict_prefix_def)
    then obtain p' where p': "p = ?f @ p'" "prefix p' (frames qs)" using Cons.prems(2) by (auto elim!: prefixE)
    from Cons.IH[OF q(2) p'(2)] obtain qs1 qs2 part where "qs = qs1 @ qs2" "p' = frames qs1 @ part" "incomplete part"
        "if qs2 = [] then part = [] else length part < 5 + length (args (hd qs2))"
      by blast
    then show ?thesis using p'(1) by (intro exI[of _ "q # qs1"] exI[of _ qs2] exI[of _ part]) simp
  qed
qed

lemma events_serve:
  assumes "serve step qs s h = Some (s', h')" "RPC_IsValid h'" "list_all ok qs" "list_all (\<lambda>q. length (args q) + 2053 < 2 ^ 31) qs"
    "RPC_IsValid h" "hasHandlers h" "in_ready (hin h)"
    "recvs h = map RecvBytes cs @ rs" "list_all chunk cs" "rest (hin h) @ concat cs = frames qs"
    "if qs = [] then rest (hin h) = [] else length (rest (hin h)) < 5 + length (args (hd qs))"
  shows "\<exists>b. events cb hs (length cs) s h = Some (s', h'\<lparr>hin := b, recvs := rs\<rparr>) \<and> in_ready b \<and> rest b = []"
  using assms
proof (induction cs arbitrary: qs s h h')
  case Nil
  have "qs = []" using Nil.prems(10,11) by (cases qs) (auto simp: length_frame dest!: arg_cong[where f = length])
  with Nil.prems show ?case by (auto intro!: exI[of _ "hin h'"])
next
  case (Cons c cs)
  have "prefix (rest (hin h) @ c) (frames qs)" using Cons.prems(10) by (metis append.assoc concat.simps(2) prefixI)
  from frames_prefix[OF Cons.prems(3) this] obtain qs1 qs2 part where
    qs: "qs = qs1 @ qs2" "rest (hin h) @ c = frames qs1 @ part" "incomplete part"
      "if qs2 = [] then part = [] else length part < 5 + length (args (hd qs2))" by blast
  obtain s1 h1 where 1: "serve step qs1 s h = Some (s1, h1)" "RPC_IsValid h1" "serve step qs2 s1 h1 = Some (s', h')"
    using Cons.prems(1,2,5) unfolding qs(1) serve_append by (cases "qs1 = []") (auto simp: bind_eq_Some_conv split: if_splits)
  have k: "keeps_in h h1" using serve_keeps[OF 1(1,2)] by blast
  have "length (dat (hin h)) + 2048 < 2 ^ 31"
    using Cons.prems(4,7,11) by (cases qs) (auto simp: in_ready_def)
  with Cons.prems(3,5-9) qs(1) obtain b where
    b: "RPCOnReadable cb hs s h = Some (s1, h1\<lparr>hin := b, recvs := map RecvBytes cs @ rs\<rparr>)" "in_ready b" "rest b = part"
    using RPCOnReadable_serve[OF 1(1,2) _ qs(3) _ _ _ _ _ _ qs(2), where rs = "map RecvBytes cs @ rs" and cb = cb] by auto
  let ?h = "h1\<lparr>hin := b, recvs := map RecvBytes cs @ rs\<rparr>"
  let ?h' = "h'\<lparr>hin := b, recvs := map RecvBytes cs @ rs\<rparr>"
  have s2: "serve step qs2 s1 ?h = Some (s', ?h')"
    using serve_keeps[OF 1(3) Cons.prems(2), where b = b and rs = "map RecvBytes cs @ rs"] by blast
  have "(rest (hin h) @ c) @ concat cs = frames qs1 @ frames qs2" using Cons.prems(10) qs(1) by simp
  then have f: "rest b @ concat cs = frames qs2" unfolding qs(2) b(3) by simp
  have q2: "list_all ok qs2" "list_all (\<lambda>q. length (args q) + 2053 < 2 ^ 31) qs2" using Cons.prems(3,4) qs(1) by auto
  have v: "RPC_IsValid ?h" "RPC_IsValid ?h'" "hasHandlers ?h"
    using 1(2) Cons.prems(2,6) k by (auto simp: RPC_IsValid_def keeps_in_def)
  have "\<exists>b'. events cb hs (length cs) s1 ?h = Some (s', ?h'\<lparr>hin := b', recvs := rs\<rparr>) \<and> in_ready b' \<and> rest b' = []"
    by (rule Cons.IH[OF s2 v(2) q2 v(1,3)]) (use Cons.prems(9) qs(4) b f in simp_all)
  then show ?case using b(1) by simp
qed

end

end
