(* ===== verification/Server.thy ===== *)
theory Server
  imports StoreExample RpcService
begin

text \<open>
  The cache server: \<open>src/src/server/server.c\<close>, \<open>src/src/server/proto.h\<close>, the snapshots of
  \<open>src/src/server/marshal.c\<close>, and the client side of the protocol, \<open>src/src/server/proxy.c\<close>.

  A handler takes the state of the server, the connection and the arguments of the message. The
  results of \<open>malloc\<close> in the proxies and of \<open>open\<close> and \<open>write\<close> for the snapshots are arguments. The
  text of the statistics is an argument too, a function of the store.
\<close>

section \<open>The protocol\<close>

definition SERVER_REQ_LOOKUP :: byte where "SERVER_REQ_LOOKUP = 76"
definition SERVER_REQ_PUT :: byte where "SERVER_REQ_PUT = 80"
definition SERVER_REQ_INVAL :: byte where "SERVER_REQ_INVAL = 73"
definition SERVER_REQ_STATS :: byte where "SERVER_REQ_STATS = 84"
definition SERVER_REQ_SIG :: byte where "SERVER_REQ_SIG = 83"
definition SERVER_REP_FOUND :: byte where "SERVER_REP_FOUND = 70"
definition SERVER_REP_EMPTY :: byte where "SERVER_REP_EMPTY = 69"
definition SERVER_REP_STATS :: byte where "SERVER_REP_STATS = 84"

definition bool_byte :: "bool \<Rightarrow> byte" where
  "bool_byte x = (if x then 1 else 0)"

text \<open>The data of an entry: \<open>dataLen\<close> bytes from \<open>data\<close>.\<close>

definition entry_bytes :: "entry_t \<Rightarrow> byte list option" where
  "entry_bytes e =
     (let d = (case edata e of None \<Rightarrow> [] | Some d \<Rightarrow> d)
      in if unat (dataLen e) \<le> length d then Some (take (unat (dataLen e)) d) else None)"

section \<open>Snapshots\<close>

definition Store_PutEntry :: "Store_t \<Rightarrow> addr \<Rightarrow> IOBuf_t \<Rightarrow> bool \<Rightarrow> IOBuf_t option" where
  "Store_PutEntry s e b full = do {
     en \<leftarrow> entry_at s e;
     vs \<leftarrow> vheap s (evset en);
     b \<leftarrow> IOBuf_PutBuf b (hkey (linesLink vs));
     d \<leftarrow> entry_bytes en;
     b \<leftarrow> IOBuf_PutBuf b d;
     b \<leftarrow> IOBuf_PutInt32 b (of_nat (nInvalTags en));
     ts \<leftarrow> entry_tags en;
     b \<leftarrow> put_all IOBuf_PutString b ts;
     if full
     then do {
       b \<leftarrow> IOBuf_PutInt32 b (lower (interval en));
       b \<leftarrow> IOBuf_PutInt32 b (upper (interval en));
       b \<leftarrow> IOBuf_PutInt8 b (bool_byte (stillValid (interval en)));
       b \<leftarrow> IOBuf_PutInt32 b (of_int (timeInvalidated en));
       IOBuf_PutInt32 b (of_int (hitCount en))
     }
     else Some b
   }"

partial_function (option) Store_Dump_loop ::
  "int list \<Rightarrow> Store_t \<Rightarrow> IOBuf_t \<Rightarrow> byte list \<Rightarrow> (Store_t \<times> IOBuf_t \<times> byte list \<times> int list) option" where
  "Store_Dump_loop ws s b file = do {
     (s, e) \<leftarrow> Store_EvictionOrderIterNext s;
     if e = 0 then Some (s, b, file, ws)
     else do {
       en \<leftarrow> entry_at s e;
       if \<not> stillValid (interval en) then Store_Dump_loop ws s b file
       else do {
         b \<leftarrow> IOBuf_PutInt8 b 1;
         b \<leftarrow> Store_PutEntry s e b False;
         (b, out, ws) \<leftarrow> IOBuf_WriteFile ws b;
         Store_Dump_loop ws s b (file @ out)
       }
     }
   }"

text \<open>The bytes written to the file. \<open>r\<close> and \<open>a\<close> are the allocator of the buffer.\<close>

definition Store_Dump :: "(size_t \<Rightarrow> nat) \<Rightarrow> nat \<Rightarrow> int list \<Rightarrow> Store_t \<Rightarrow> (Store_t \<times> byte list) option" where
  "Store_Dump r a ws s = do {
     let b = fst (IOBuf_Init r a);
     let s = Store_EvictionOrderIterReset s;
     (s, b, file, ws) \<leftarrow> Store_Dump_loop ws s b [];
     b \<leftarrow> IOBuf_PutInt8 b 0;
     (b, out, ws) \<leftarrow> IOBuf_WriteFile ws b;
     Some (s, file @ out)
   }"

partial_function (option) Store_DebugDump_entries :: "Store_t \<Rightarrow> addr \<Rightarrow> nat \<Rightarrow> IOBuf_t \<Rightarrow> (IOBuf_t \<times> nat) option" where
  "Store_DebugDump_entries s it i b = do {
     b \<leftarrow> Store_PutEntry s it b True;
     let i = i + 1;
     (it, more) \<leftarrow> RB_Iterator_Next (eheap s) it;
     if more then Store_DebugDump_entries s it i b else Some (b, i)
   }"

partial_function (option) Store_DebugDump_loop ::
  "int list \<Rightarrow> Store_t \<Rightarrow> HT_Iter_t \<Rightarrow> IOBuf_t \<Rightarrow> byte list \<Rightarrow> byte list option" where
  "Store_DebugDump_loop ws s it b file = do {
     (v, it) \<leftarrow> HT_IterNext StoreHT (vheap s) (lines s) it;
     if v = 0 then Some file
     else do {
       vs \<leftarrow> vheap s v;
       b \<leftarrow> IOBuf_PutInt8 b 1;
       b \<leftarrow> IOBuf_PutBuf b (hkey (linesLink vs));
       let n = unat (RB_Size (versions vs));
       b \<leftarrow> IOBuf_PutInt32 b (of_nat n);
       b \<leftarrow> (if n > 0
             then do {
               (b, i) \<leftarrow> Store_DebugDump_entries s (RB_First (versions vs)) 0 b;
               Assert (i = n);
               Some b
             }
             else Some b);
       (b, out, ws) \<leftarrow> IOBuf_WriteFile ws b;
       Store_DebugDump_loop ws s it b (file @ out)
     }
   }"

definition Store_DebugDump :: "(size_t \<Rightarrow> nat) \<Rightarrow> nat \<Rightarrow> int list \<Rightarrow> Store_t \<Rightarrow> byte list option" where
  "Store_DebugDump r a ws s = do {
     it \<leftarrow> HT_Iter (lines s);
     Store_DebugDump_loop ws s it (fst (IOBuf_Init r a)) []
   }"

definition unbounded :: interval_t where
  "unbounded = \<lparr>lower = PIN_NEG_INF, upper = PIN_MIN, stillValid = True\<rparr>"

text \<open>A number of tags with the sign bit set is modelled as a failure: the negative size of the copied
  array makes \<open>Store_Put\<close> fail, and then the assertion after it.\<close>

partial_function (option) Store_Load_loop :: "Store_t \<Rightarrow> IOBuf_t \<Rightarrow> (Store_t \<times> IOBuf_t) option" where
  "Store_Load_loop s b = do {
     (b, more) \<leftarrow> IOBuf_GetInt8 b;
     if more = 0 then Some (s, b)
     else do {
       (b, key) \<leftarrow> IOBuf_GetBuf b;
       (b, data) \<leftarrow> IOBuf_GetBuf b;
       (b, n) \<leftarrow> IOBuf_GetInt32 b;
       Assert (0 \<le> sint n);
       (b, tags) \<leftarrow> get_n (unat n) IOBuf_GetString b;
       (s, success) \<leftarrow> Store_Put s key unbounded data tags False;
       Assert success;
       Store_Load_loop s b
     }
   }"

definition Store_Load :: "(size_t \<Rightarrow> nat) \<Rightarrow> (nat \<times> byte list) option \<Rightarrow> Store_t \<Rightarrow> Store_t option" where
  "Store_Load r file s = do {
     Assert (keyBytes s = 0);
     Assert (entryBytes s = 0);
     b \<leftarrow> IOBuf_InitFile r file;
     (s, b) \<leftarrow> Store_Load_loop s b;
     b \<leftarrow> IOBuf_Release True b;
     Some s
   }"

section \<open>The handlers\<close>

text \<open>The store, the two files under \<open>/tmp\<close>, and whether the server has sent itself an interrupt.\<close>

record Server_t =
  store :: Store_t
  dumpFile :: "byte list"
  debugFile :: "byte list"
  interrupted :: bool

type_synonym server_host = "unit host_t"

definition release_host :: "Server_t \<Rightarrow> server_host \<Rightarrow> (Server_t \<times> server_host) option" where
  "release_host st h = RPC_Release (\<lambda>st h. Some (st, h)) st h"

definition HandleLookup :: "(Server_t, unit) handler" where
  "HandleLookup st h args = do {
     (args, key) \<leftarrow> IOBuf_GetBuf args;
     (args, lo) \<leftarrow> IOBuf_GetInt32 args;
     (args, up) \<leftarrow> IOBuf_GetInt32 args;
     (args, earliestPin) \<leftarrow> IOBuf_GetInt32 args;
     (args, lookupPolicy) \<leftarrow> IOBuf_GetInt32 args;
     IOBuf_GetEOB args;
     (s, e) \<leftarrow> Store_Lookup (store st) key \<lparr>lower = lo, upper = up, stillValid = False\<rparr> earliestPin lookupPolicy;
     let st = st\<lparr>store := s\<rparr>;
     h \<leftarrow> RPC_Start h (if e \<noteq> 0 then SERVER_REP_FOUND else SERVER_REP_EMPTY);
     h \<leftarrow> (if e \<noteq> 0
           then do {
             en \<leftarrow> entry_at s e;
             d \<leftarrow> entry_bytes en;
             h \<leftarrow> RPC_put IOBuf_PutBuf h d;
             h \<leftarrow> RPC_put IOBuf_PutInt32 h (lower (interval en));
             h \<leftarrow> RPC_put IOBuf_PutInt32 h
                    (if stillValid (interval en) \<and> upper (interval en) < lastInvalTime s then lastInvalTime s
                     else upper (interval en));
             h \<leftarrow> RPC_put IOBuf_PutInt8 h (bool_byte (stillValid (interval en)));
             h \<leftarrow> RPC_put IOBuf_PutInt32 h (of_nat (nInvalTags en));
             ts \<leftarrow> entry_tags en;
             RPC_put (put_all IOBuf_PutString) h ts
           }
           else Some h);
     (h, err) \<leftarrow> RPC_Send h;
     if err < 0 then release_host st h else Some (st, h)
   }"

text \<open>The array of tags has the size \<open>nTags\<close>; a negative size is undefined.\<close>

definition HandlePut :: "(Server_t, unit) handler" where
  "HandlePut st h args = do {
     (args, key) \<leftarrow> IOBuf_GetBuf args;
     (args, lo) \<leftarrow> IOBuf_GetInt32 args;
     (args, up) \<leftarrow> IOBuf_GetInt32 args;
     (args, valid) \<leftarrow> IOBuf_GetInt8 args;
     (args, data) \<leftarrow> IOBuf_GetBuf args;
     (args, nTags) \<leftarrow> IOBuf_GetInt32 args;
     Assert (0 \<le> sint nTags);
     (args, tags) \<leftarrow> get_n (unat nTags) IOBuf_GetString args;
     (args, force) \<leftarrow> IOBuf_GetInt8 args;
     IOBuf_GetEOB args;
     (s, _) \<leftarrow> Store_Put (store st) key \<lparr>lower = lo, upper = up, stillValid = (valid \<noteq> 0)\<rparr> data tags (force \<noteq> 0);
     Some (st\<lparr>store := s\<rparr>, h)
   }"

definition HandleStats :: "(Store_t \<Rightarrow> string) \<Rightarrow> (Server_t, unit) handler" where
  "HandleStats dumpStats st h args = do {
     (args, clear) \<leftarrow> IOBuf_GetInt8 args;
     IOBuf_GetEOB args;
     let stats = dumpStats (store st);
     st \<leftarrow> (if clear \<noteq> 0 then do { s \<leftarrow> Store_ClearStats (store st); Some (st\<lparr>store := s\<rparr>) } else Some st);
     h \<leftarrow> RPC_Start h SERVER_REP_STATS;
     h \<leftarrow> RPC_put IOBuf_PutString h stats;
     (h, err) \<leftarrow> RPC_Send h;
     if err < 0 then release_host st h else Some (st, h)
   }"

definition HandleInval :: "(Server_t, unit) handler" where
  "HandleInval st h args = do {
     (args, pin) \<leftarrow> IOBuf_GetInt32 args;
     (args, nTags) \<leftarrow> IOBuf_GetInt32 args;
     Assert (0 \<le> sint nTags);
     (args, tags) \<leftarrow> get_n (unat nTags) IOBuf_GetString args;
     s \<leftarrow> Store_Invalidate (store st) pin tags;
     Some (st\<lparr>store := s\<rparr>, h)
   }"

definition SIGINT :: "32 word" where "SIGINT = 2"
definition SIGQUIT :: "32 word" where "SIGQUIT = 3"
definition SIGUSR1 :: "32 word" where "SIGUSR1 = 10"
definition SIGUSR2 :: "32 word" where "SIGUSR2 = 12"
definition SIGPWR :: "32 word" where "SIGPWR = 30"

text \<open>The file is opened without truncation: what it held beyond the new bytes stays.\<close>

definition overwrite :: "byte list \<Rightarrow> byte list \<Rightarrow> byte list" where
  "overwrite file out = out @ drop (length out) file"

text \<open>\<open>opened\<close> says whether \<open>open\<close> succeeds, \<open>ws\<close> are the results of \<open>write\<close>.\<close>

definition HandleSig :: "(size_t \<Rightarrow> nat) \<Rightarrow> nat \<Rightarrow> bool \<Rightarrow> int list \<Rightarrow> (Server_t, unit) handler" where
  "HandleSig r a opened ws st h args = do {
     (args, sig) \<leftarrow> IOBuf_GetInt32 args;
     IOBuf_GetEOB args;
     if sig = SIGUSR1 then Some (st, h)
     else if sig = SIGUSR2 then do { s \<leftarrow> Store_Flush (store st); Some (st\<lparr>store := s\<rparr>, h) }
     else if sig = SIGINT then Some (st\<lparr>interrupted := True\<rparr>, h)
     else if sig = SIGQUIT then do {
       Assert opened;
       (s, out) \<leftarrow> Store_Dump r a ws (store st);
       Some (st\<lparr>store := s, dumpFile := overwrite (dumpFile st) out, interrupted := True\<rparr>, h)
     }
     else if sig = SIGPWR then do {
       Assert opened;
       out \<leftarrow> Store_DebugDump r a ws (store st);
       Some (st\<lparr>debugFile := overwrite (debugFile st) out\<rparr>, h)
     }
     else Some (st, h)
   }"

definition SendSigRPC :: "server_host \<Rightarrow> 32 word \<Rightarrow> server_host option" where
  "SendSigRPC h sig = do {
     h \<leftarrow> RPC_Start h SERVER_REQ_SIG;
     h \<leftarrow> RPC_put IOBuf_PutInt32 h sig;
     (h, _) \<leftarrow> RPC_Send h;
     Some h
   }"

text \<open>The table of handlers after \<open>Server_Setup\<close>; the signal handlers it installs call \<open>SendSigRPC\<close>.\<close>

definition Server_Setup_handlers ::
  "(Server_t, unit) handlers \<Rightarrow> (Store_t \<Rightarrow> string) \<Rightarrow> (Server_t, unit) handler \<Rightarrow> (Server_t, unit) handlers option" where
  "Server_Setup_handlers hs dumpStats sig = do {
     hs \<leftarrow> RPCS_RegisterHandler hs SERVER_REQ_LOOKUP HandleLookup;
     hs \<leftarrow> RPCS_RegisterHandler hs SERVER_REQ_PUT HandlePut;
     hs \<leftarrow> RPCS_RegisterHandler hs SERVER_REQ_STATS (HandleStats dumpStats);
     hs \<leftarrow> RPCS_RegisterHandler hs SERVER_REQ_INVAL HandleInval;
     RPCS_RegisterHandler hs SERVER_REQ_SIG sig
   }"

definition Server_Setup ::
  "StoreLookupPolicy_t list \<Rightarrow> StoreEvictionPolicy_t list \<Rightarrow> (Server_t, unit) handlers \<Rightarrow> (Store_t \<Rightarrow> string)
    \<Rightarrow> (Server_t, unit) handler \<Rightarrow> bool \<Rightarrow> Server_t \<Rightarrow> size_t \<Rightarrow> time_t \<Rightarrow> (Server_t \<times> (Server_t, unit) handlers \<times> bool) option" where
  "Server_Setup lps eps hs dumpStats sig paired st maxb staleness = do {
     (s, ok) \<leftarrow> Store_Init lps eps (store st) maxb staleness;
     let st = st\<lparr>store := s\<rparr>;
     if \<not> ok then Some (st, hs, False)
     else do {
       hs \<leftarrow> Server_Setup_handlers hs dumpStats sig;
       Assert paired;
       Some (st, hs, True)
     }
   }"

definition Server_Load :: "(size_t \<Rightarrow> nat) \<Rightarrow> (nat \<times> byte list) option \<Rightarrow> Server_t \<Rightarrow> Server_t option" where
  "Server_Load r file st = do { s \<leftarrow> Store_Load r file (store st); Some (st\<lparr>store := s\<rparr>) }"

section \<open>The proxies\<close>


definition ServerProxy_Put ::
  "'d host_t \<Rightarrow> byte list \<Rightarrow> interval_t \<Rightarrow> byte list \<Rightarrow> string list \<Rightarrow> bool \<Rightarrow> 'd host_t option" where
  "ServerProxy_Put h key i data tags force = do {
     h \<leftarrow> RPC_Start h SERVER_REQ_PUT;
     h \<leftarrow> RPC_put IOBuf_PutBuf h key;
     h \<leftarrow> RPC_put IOBuf_PutInt32 h (lower i);
     h \<leftarrow> RPC_put IOBuf_PutInt32 h (upper i);
     h \<leftarrow> RPC_put IOBuf_PutInt8 h (bool_byte (stillValid i));
     h \<leftarrow> RPC_put IOBuf_PutBuf h data;
     h \<leftarrow> RPC_put IOBuf_PutInt32 h (of_nat (length tags));
     h \<leftarrow> RPC_put (put_all IOBuf_PutString) h tags;
     h \<leftarrow> RPC_put IOBuf_PutInt8 h (bool_byte force);
     (h, _) \<leftarrow> proxy_send h;
     Some h
   }"

definition ServerProxy_Invalidate :: "'d host_t \<Rightarrow> pin_t \<Rightarrow> string list \<Rightarrow> 'd host_t option" where
  "ServerProxy_Invalidate h pin tags = do {
     Assert (\<not> PIN_SPECIAL pin);
     h \<leftarrow> RPC_Start h SERVER_REQ_INVAL;
     h \<leftarrow> RPC_put IOBuf_PutInt32 h pin;
     h \<leftarrow> RPC_put IOBuf_PutInt32 h (of_nat (length tags));
     h \<leftarrow> RPC_put (put_all IOBuf_PutString) h tags;
     (h, _) \<leftarrow> proxy_send h;
     Some h
   }"

section \<open>Requests reach the store\<close>

definition put_request :: "byte list \<Rightarrow> interval_t \<Rightarrow> byte list \<Rightarrow> string list \<Rightarrow> bool \<Rightarrow> item list" where
  "put_request key i data tags force =
     [Blob key, I32 (lower i), I32 (upper i), I8 (bool_byte (stillValid i)), Blob data, I32 (of_nat (length tags))] @
     map Str tags @ [I8 (bool_byte force)]"

lemma ServerProxy_Put_msg:
  "ServerProxy_Put h key i data tags force =
     do { (h, _) \<leftarrow> proxy_msg h SERVER_REQ_PUT (put_request key i data tags force); Some h }"
  by (simp add: ServerProxy_Put_def proxy_msg_def put_request_def put_items_bind put_items_append bind_assoc)

lemma bool_byte_neq [simp]: "bool_byte x \<noteq> 0 \<longleftrightarrow> x"
  by (simp add: bool_byte_def)

lemma interval_eta [simp]: "\<lparr>lower = lower i, upper = upper i, stillValid = stillValid i\<rparr> = i"
  by simp

lemma HandlePut_request:
  assumes "reads v (enc_items (put_request key i data tags force))" "list_all ok_item (put_request key i data tags force)"
    "length tags < 2 ^ 31"
  shows "HandlePut st h v = do { (s, _) \<leftarrow> Store_Put (store st) key i data tags force; Some (st\<lparr>store := s\<rparr>, h) }"
proof -
  let ?R = "do { (s, _) \<leftarrow> Store_Put (store st) key i data tags force; Some (st\<lparr>store := s\<rparr>, h) }"
  have n: "unat (of_nat (length tags) :: u32) = length tags" "0 \<le> sint (of_nat (length tags) :: u32)"
    using assms(3) by (simp_all add: unat_of_nat sint_of_nat)
  have ok: "ok_buf key" "ok_buf data" "list_all ok_str tags"
    using assms(2) by (auto simp: put_request_def list_all_iff)
  have v: "reads v (enc_buf key @ to_bytes 4 (lower i) @ to_bytes 4 (upper i) @ to_bytes 1 (bool_byte (stillValid i)) @
      enc_buf data @ to_bytes 4 (of_nat (length tags) :: u32) @ concat (map enc_str tags) @ to_bytes 1 (bool_byte force) @ [])"
    using assms(1) by (simp add: put_request_def concat_enc_Str)
  show ?thesis
    unfolding HandlePut_def
    apply (rule buf_bind[OF v ok(1)])
    apply (rule int32_bind, assumption)
    apply (rule int32_bind, assumption)
    apply (rule int8_bind, assumption)
    apply (rule buf_bind, assumption, rule ok(2))
    apply (rule int32_bind, assumption)
    apply (simp only: n Assert_bind)
    apply (rule str_n_bind, assumption, rule ok(3), rule refl)
    apply (rule int8_bind, assumption)
    apply (rule eob_bind, assumption)
    apply simp
    done
qed

definition inval_request :: "pin_t \<Rightarrow> string list \<Rightarrow> item list" where
  "inval_request pin tags = [I32 pin, I32 (of_nat (length tags))] @ map Str tags"

lemma ServerProxy_Invalidate_msg:
  "\<not> PIN_SPECIAL pin \<Longrightarrow> ServerProxy_Invalidate h pin tags =
     do { (h, _) \<leftarrow> proxy_msg h SERVER_REQ_INVAL (inval_request pin tags); Some h }"
  by (simp add: ServerProxy_Invalidate_def proxy_msg_def inval_request_def put_items_bind put_items_append bind_assoc)

lemma HandleInval_request:
  assumes "reads v (enc_items (inval_request pin tags))" "list_all ok_str tags" "length tags < 2 ^ 31"
  shows "HandleInval st h v = do { s \<leftarrow> Store_Invalidate (store st) pin tags; Some (st\<lparr>store := s\<rparr>, h) }"
proof -
  have n: "unat (of_nat (length tags) :: u32) = length tags" "0 \<le> sint (of_nat (length tags) :: u32)"
    using assms(3) by (simp_all add: unat_of_nat sint_of_nat)
  have v: "reads v (to_bytes 4 pin @ to_bytes 4 (of_nat (length tags) :: u32) @ concat (map enc_str tags) @ [])"
    using assms(1) by (simp add: inval_request_def concat_enc_Str)
  show ?thesis
    unfolding HandleInval_def
    apply (rule int32_bind[OF v])
    apply (rule int32_bind, assumption)
    apply (simp only: n Assert_bind)
    apply (rule str_n_bind, assumption, rule assms(2), rule refl)
    apply simp
    done
qed

definition lookup_request :: "byte list \<Rightarrow> interval_t \<Rightarrow> pin_t \<Rightarrow> StoreLookupPolicyId_t \<Rightarrow> item list" where
  "lookup_request key i earliestPin lookupPolicy = [Blob key, I32 (lower i), I32 (upper i), I32 earliestPin, I32 lookupPolicy]"

text \<open>The interval that the reply gives for an entry: an unbounded interval reaches to the last invalidation.\<close>

definition reply_interval :: "Store_t \<Rightarrow> entry_t \<Rightarrow> interval_t" where
  "reply_interval s en = (interval en)\<lparr>upper :=
     (if stillValid (interval en) \<and> upper (interval en) < lastInvalTime s then lastInvalTime s else upper (interval en))\<rparr>"

text \<open>What a lookup that returned the entry \<open>e\<close> tells the client: the data, the interval and the tags.\<close>

type_synonym lookup_result = "(byte list \<times> interval_t \<times> string list) option"

definition lookup_found :: "Store_t \<Rightarrow> addr \<Rightarrow> lookup_result option" where
  "lookup_found s e =
     (if e = 0 then Some None
      else do {
        en \<leftarrow> entry_at s e;
        d \<leftarrow> entry_bytes en;
        ts \<leftarrow> entry_tags en;
        Some (Some (d, reply_interval s en, ts))
      })"

fun lookup_reply :: "lookup_result \<Rightarrow> byte \<times> item list" where
  "lookup_reply None = (SERVER_REP_EMPTY, [])"
| "lookup_reply (Some (d, i, ts)) =
     (SERVER_REP_FOUND,
      [Blob d, I32 (lower i), I32 (upper i), I8 (bool_byte (stillValid i)), I32 (of_nat (length ts))] @ map Str ts)"

lemma entry_tags_length: "entry_tags en = Some ts \<Longrightarrow> length ts = nInvalTags en"
  by (auto simp: entry_tags_def split: if_splits)




lemma tags_length: "length ts \<le> length (concat (map enc_str ts))"
  by (induction ts) (simp_all add: enc_str_def enc_buf_def)


section \<open>The server as a service\<close>

datatype request =
  Req_Lookup "byte list" interval_t pin_t StoreLookupPolicyId_t
| Req_Put "byte list" interval_t "byte list" "string list" bool
| Req_Inval pin_t "string list"

fun req_proc :: "request \<Rightarrow> byte" where
  "req_proc (Req_Lookup key i p pol) = SERVER_REQ_LOOKUP"
| "req_proc (Req_Put key i d ts f) = SERVER_REQ_PUT"
| "req_proc (Req_Inval p ts) = SERVER_REQ_INVAL"

fun req_items :: "request \<Rightarrow> item list" where
  "req_items (Req_Lookup key i p pol) = lookup_request key i p pol"
| "req_items (Req_Put key i d ts f) = put_request key i d ts f"
| "req_items (Req_Inval p ts) = inval_request p ts"

abbreviation req_args :: "request \<Rightarrow> byte list" where
  "req_args q \<equiv> enc_items (req_items q)"

definition ok_request :: "request \<Rightarrow> bool" where
  "ok_request q \<longleftrightarrow> list_all ok_item (req_items q) \<and> ok_buf (req_args q)"

text \<open>What a request does to the store, and the reply to it.\<close>

fun store_step :: "request \<Rightarrow> Store_t \<Rightarrow> (Store_t \<times> (byte \<times> item list) option) option" where
  "store_step (Req_Lookup key i p pol) s = do {
     (s, e) \<leftarrow> Store_Lookup s key (i\<lparr>stillValid := False\<rparr>) p pol;
     r \<leftarrow> lookup_found s e;
     Some (s, Some (lookup_reply r))
   }"
| "store_step (Req_Put key i d ts f) s = do { (s, _) \<leftarrow> Store_Put s key i d ts f; Some (s, None) }"
| "store_step (Req_Inval p ts) s = do { s \<leftarrow> Store_Invalidate s p ts; Some (s, None) }"

definition server_step :: "request \<Rightarrow> Server_t \<Rightarrow> server_host \<Rightarrow> (Server_t \<times> server_host) option" where
  "server_step q st h = do {
     (s, reply) \<leftarrow> store_step q (store st);
     let st = st\<lparr>store := s\<rparr>;
     case reply of None \<Rightarrow> Some (st, h)
     | Some (rpc, xs) \<Rightarrow> do {
         (h, err) \<leftarrow> send_msg h rpc xs;
         if err < 0 then release_host st h else Some (st, h)
       }
   }"

lemma HandleLookup_step:
  assumes "reads v (enc_items (lookup_request key i p pol))" "ok_buf key"
  shows "HandleLookup st h v = server_step (Req_Lookup key i p pol) st h"
proof -
  have v': "reads v (enc_buf key @ to_bytes 4 (lower i) @ to_bytes 4 (upper i) @ to_bytes 4 p @ to_bytes 4 pol @ [])"
    using assms(1) by (simp add: lookup_request_def)
  have i: "\<lparr>lower = lower i, upper = upper i, stillValid = False\<rparr> = i\<lparr>stillValid := False\<rparr>" by (cases i) simp
  have z: "Option.bind x (\<lambda>_. None) = None" for x :: "'c option" by (cases x) simp_all
  show ?thesis
    unfolding HandleLookup_def
    apply (rule buf_bind[OF v' assms(2)])
    apply (rule int32_bind, assumption)
    apply (rule int32_bind, assumption)
    apply (rule int32_bind, assumption)
    apply (rule int32_bind, assumption)
    apply (rule eob_bind, assumption)
    apply (cases "Store_Lookup (store st) key (i\<lparr>stillValid := False\<rparr>) p pol")
    subgoal by (simp add: i server_step_def lookup_found_def)
    subgoal for _ _ _ _ _ se
      apply (cases se)
      subgoal for s e
        apply (cases "e = 0")
        subgoal by (simp add: i server_step_def lookup_found_def send_msg_def bind_assoc RPC_put_def Let_def)
        subgoal
          apply (cases "entry_at s e")
          subgoal by (simp add: i server_step_def lookup_found_def z Let_def)
          subgoal for en
            apply (cases "entry_bytes en"; cases "entry_tags en")
            using entry_tags_length[of en]
               apply (simp_all add: i server_step_def lookup_found_def z Let_def put_items_bind put_items_append bind_assoc
                send_msg_def reply_interval_def)
            done
          done
        done
      done
    done
qed

lemma ok_request_tags:
  "ok_request (Req_Put key i d ts f) \<Longrightarrow> length ts < 2 ^ 31"
  "ok_request (Req_Inval p ts) \<Longrightarrow> length ts < 2 ^ 31"
  using tags_length[of ts] by (auto simp: ok_request_def ok_buf_def put_request_def inval_request_def concat_enc_Str)

lemma server_step_keeps:
  assumes "server_step q st h = Some (st', h')" "RPC_IsValid h'"
  shows "keeps_in h h' \<and> server_step q st (with_in b rs h) = Some (st', with_in b rs h')"
proof -
  obtain s reply where 1: "store_step q (store st) = Some (s, reply)"
    using assms(1) by (auto simp: server_step_def bind_eq_Some_conv)
  show ?thesis
  proof (cases reply)
    case None
    then show ?thesis using assms 1 by (auto simp: server_step_def keeps_in_def)
  next
    case (Some r)
    obtain rpc xs where r: "r = (rpc, xs)" by fastforce
    obtain h1 err where 2: "send_msg h rpc xs = Some (h1, err)"
      using assms(1) 1 Some r by (auto simp: server_step_def bind_eq_Some_conv Let_def)
    have "\<not> err < 0"
    proof
      assume "err < 0"
      then have "release_host (st\<lparr>store := s\<rparr>) h1 = Some (st', h')" using assms(1) 1 2 Some r by (simp add: server_step_def)
      then show False using assms(2) by (auto simp: release_host_def RPC_Release_def RPC_IsValid_def bind_eq_Some_conv Let_def split: if_splits)
    qed
    then show ?thesis using send_msg_keeps[OF 2, where b = b and rs = rs] assms 1 2 Some r by (simp add: server_step_def)
  qed
qed

definition server_handlers :: "(Store_t \<Rightarrow> string) \<Rightarrow> (Server_t, unit) handler \<Rightarrow> (Server_t, unit) handlers" where
  "server_handlers dumpStats sig =
     RPCS_Init_handlers[76 := Some HandleLookup, 80 := Some HandlePut, 84 := Some (HandleStats dumpStats), 73 := Some HandleInval,
       83 := Some sig]"

lemma Server_Setup_handlers_table: "Server_Setup_handlers RPCS_Init_handlers dumpStats sig = Some (server_handlers dumpStats sig)"
  by (simp add: Server_Setup_handlers_def RPCS_RegisterHandler_def handler_at_def RPCS_Init_handlers_def server_handlers_def
      SERVER_REQ_LOOKUP_def SERVER_REQ_PUT_def SERVER_REQ_STATS_def SERVER_REQ_INVAL_def SERVER_REQ_SIG_def)

interpretation srv: rpc_service "server_handlers dumpStats sig" ok_request req_proc req_args server_step for dumpStats sig
proof
  fix q :: request and v s h
  assume q: "ok_request q" and v: "reads v (req_args q)"
  show "\<exists>f. handler_at (server_handlers dumpStats sig) (req_proc q) = Some (Some f) \<and> f s h v = server_step q s h"
  proof (cases q)
    case (Req_Lookup key i p pol)
    then have "ok_buf key" using q by (simp add: ok_request_def lookup_request_def)
    with Req_Lookup v HandleLookup_step show ?thesis
      by (simp add: server_handlers_def handler_at_def RPCS_Init_handlers_def SERVER_REQ_LOOKUP_def)
  next
    case (Req_Put key i d ts f)
    with q v HandlePut_request[of v key i d ts f s h] ok_request_tags(1)[of key i d ts f] show ?thesis
      by (simp add: server_handlers_def handler_at_def RPCS_Init_handlers_def SERVER_REQ_PUT_def ok_request_def server_step_def split_def)
  next
    case (Req_Inval p ts)
    with q have "list_all ok_str ts" by (auto simp: ok_request_def inval_request_def list_all_iff)
    with Req_Inval q v HandleInval_request[of v p ts s h] ok_request_tags(2)[of p ts] show ?thesis
      by (simp add: server_handlers_def handler_at_def RPCS_Init_handlers_def SERVER_REQ_INVAL_def server_step_def)
  qed
next
  fix q s h s' h' b rs
  assume "server_step q s h = Some (s', h')" "RPC_IsValid h'"
  from server_step_keeps[OF this, of b rs]
  show "keeps_in h h' \<and> server_step q s (h\<lparr>hin := b, recvs := rs\<rparr>) = Some (s', h'\<lparr>hin := b, recvs := rs\<rparr>)"
    by (simp add: with_in_def)
qed (simp add: ok_request_def)

text \<open>A client that only writes.\<close>

fun client_update :: "request \<Rightarrow> 'd host_t \<Rightarrow> 'd host_t option" where
  "client_update (Req_Lookup key i p pol) c = None"
| "client_update (Req_Put key i d ts f) c = ServerProxy_Put c key i d ts f"
| "client_update (Req_Inval p ts) c = ServerProxy_Invalidate c p ts"

primrec client_updates :: "request list \<Rightarrow> 'd host_t \<Rightarrow> 'd host_t option" where
  "client_updates [] c = Some c"
| "client_updates (q # qs) c = do { c \<leftarrow> client_update q c; client_updates qs c }"

primrec store_updates :: "request list \<Rightarrow> Store_t \<Rightarrow> Store_t option" where
  "store_updates [] s = Some s"
| "store_updates (q # qs) s = do { (s, _) \<leftarrow> store_step q s; store_updates qs s }"

lemma client_update_msg:
  assumes "client_update q c = Some c'"
  shows "\<exists>ok. proxy_msg c (req_proc q) (req_items q) = Some (c', ok) \<and> (\<forall>s s' r. store_step q s = Some (s', r) \<longrightarrow> r = None)"
proof (cases q)
  case (Req_Inval p ts)
  then have "\<not> PIN_SPECIAL p" using assms by (auto simp: ServerProxy_Invalidate_def Assert_def)
  with Req_Inval assms show ?thesis by (auto simp: ServerProxy_Invalidate_msg bind_eq_Some_conv)
qed (use assms in \<open>auto simp: ServerProxy_Put_msg bind_eq_Some_conv\<close>)

lemma proxy_msg_closed: "\<not> RPC_IsValid c \<Longrightarrow> proxy_msg c rpc xs = None"
  by (auto simp: proxy_msg_def proxy_send_def RPC_Send_def RPC_Start_def RPC_put_def Assert_def RPC_IsValid_def bind_eq_None_conv)

abbreviation req_frames :: "request list \<Rightarrow> byte list" where
  "req_frames qs \<equiv> concat (map (\<lambda>q. frame (req_proc q) (req_args q)) qs)"

definition sendable :: "request \<Rightarrow> bool" where
  "sendable q \<longleftrightarrow> ok_request q \<and> length (req_args q) + 2053 < 2 ^ 31"

lemma client_updates_closed: "client_updates qs c = Some c' \<Longrightarrow> \<not> RPC_IsValid c \<Longrightarrow> qs = []"
  by (cases qs) (auto simp: bind_eq_Some_conv dest!: client_update_msg simp: proxy_msg_closed)

lemma client_updates_stream:
  assumes "rpc_ready c" "\<not> hre c" "dat (hout c) = []" "list_all sendable qs" "client_updates qs c = Some c'" "RPC_IsValid c'"
  shows "outstream c' = outstream c @ req_frames qs \<and> rest (hout c') = []"
  using assms
proof (induction qs arbitrary: c)
  case (Cons q qs)
  obtain c1 where c1: "client_update q c = Some c1" "client_updates qs c1 = Some c'"
    using Cons.prems(5) by (auto simp: bind_eq_Some_conv)
  obtain ok where m: "proxy_msg c (req_proc q) (req_items q) = Some (c1, ok)" using client_update_msg[OF c1(1)] by blast
  have "RPC_IsValid c1" using client_updates_closed[OF c1(2)] c1(2) Cons.prems(6) by (cases "qs = []") auto
  with m have m: "proxy_msg c (req_proc q) (req_items q) = Some (c1, True)" using proxy_msg_failed by (cases ok) auto
  have "can_send c (req_items q)"
    by (rule proxy_msg_ok[OF Cons.prems(1,2) _ _ m]) (use Cons.prems(3,4) in \<open>auto simp: sendable_def ok_request_def\<close>)
  from proxy_msg_stream[OF this, of "req_proc q"] m Cons.prems(2) have
    s: "rpc_ready c1" "outstream c1 = outstream c @ frame (req_proc q) (req_args q)" "rest (hout c1) = []" "dat (hout c1) = rest (hout c1)"
      "c1\<lparr>hout := hout c, sent := sent c, sends := sends c, marked := marked c\<rparr> = c" by auto
  have "\<not> hre c1" using arg_cong[OF s(5), of hre] Cons.prems(2) by simp
  from Cons.IH[OF s(1) this _ _ c1(2) Cons.prems(6)] s Cons.prems(4) show ?case by simp
qed (simp add: rest_def)

lemma serve_updates:
  assumes "store_updates qs (store st) = Some s'" "client_updates qs c = Some c'" "RPC_IsValid h"
  shows "serve server_step qs st h = Some (st\<lparr>store := s'\<rparr>, h)"
  using assms
proof (induction qs arbitrary: st c)
  case (Cons q qs)
  obtain s1 r where 1: "store_step q (store st) = Some (s1, r)" "store_updates qs s1 = Some s'"
    using Cons.prems(1) by (auto simp: bind_eq_Some_conv)
  obtain c1 where 2: "client_update q c = Some c1" "client_updates qs c1 = Some c'"
    using Cons.prems(2) by (auto simp: bind_eq_Some_conv)
  have "r = None" using client_update_msg[OF 2(1)] 1(1) by blast
  with 1 Cons.prems(3) Cons.IH[of "st\<lparr>store := s1\<rparr>", OF _ 2(2) Cons.prems(3)] show ?case by (simp add: server_step_def)
qed simp

text \<open>C25: Writes through the server. A client calls \<open>ServerProxy_Put\<close> and \<open>ServerProxy_Invalidate\<close> any number of times on a
  blocking connection, and the connection is still open afterwards. Then the bytes that it sent, in whatever pieces of at
  most 1024 bytes they reach a server with the handlers of \<open>Server_Setup\<close>, make the callbacks \<open>RPCOnReadable\<close> of the server
  perform \<open>Store_Put\<close> and \<open>Store_Invalidate\<close> on its store, each once, in the order and with the arguments of the calls.\<close>

theorem remote_updates:
  assumes client: "rpc_ready c" "\<not> hre c" "dat (hout c) = []" "sent c = []" "list_all sendable qs"
      "client_updates qs c = Some c'" "RPC_IsValid c'"
    and server: "Server_Setup_handlers RPCS_Init_handlers dumpStats sig = Some hs" "RPC_IsValid h" "hasHandlers h" "in_ready (hin h)"
      "rest (hin h) = []"
    and network: "recvs h = map RecvBytes cs" "list_all chunk cs" "concat cs = sent c'"
    and store: "store_updates qs (store st) = Some s'"
  shows "\<exists>b. events cb hs (length cs) st h = Some (st\<lparr>store := s'\<rparr>, h\<lparr>hin := b, recvs := []\<rparr>) \<and> in_ready b \<and> rest b = []"
proof -
  have hs: "hs = server_handlers dumpStats sig" using server(1) by (simp add: Server_Setup_handlers_table)
  have "concat cs = req_frames qs"
    using client_updates_stream[OF client(1-3,5-7)] client(3,4) network(3) by (auto simp: outstream_def rest_def)
  moreover have "list_all ok_request qs" "list_all (\<lambda>q. length (req_args q) + 2053 < 2 ^ 31) qs"
    using client(5) by (auto simp: sendable_def list_all_iff)
  ultimately show ?thesis
    unfolding hs using server network(1,2) serve_updates[OF store client(6) server(2)]
    by (intro srv.events_serve) auto
qed




section \<open>A concrete exchange\<close>

definition server1 :: Server_t where
  "server1 = \<lparr>store = store1, dumpFile = [], debugFile = [], interrupted = False\<rparr>"








definition writes1 :: "request list" where
  "writes1 = [Req_Inval 40 []]"

definition store1_later :: Store_t where
  "store1_later = store1\<lparr>lastInvalTime := 40, nclock := 1\<rparr>"

lemma writes1_store: "store_updates writes1 (store server1) = Some store1_later"
  by (simp add: writes1_def server1_def Store_Invalidate_def PIN_SPECIAL_def pin_consts Store_ExpireBuffer_def
      time_NULL_def Store_ExpireBuffer_loop.simps store1_later_def)
    (simp add: store1_def RB_Size_def)

definition writer1 :: "unit host_t" where
  "writer1 = host0 [Sent 3, Sent 10] []"

lemma writes1_client: "\<exists>c'. client_updates writes1 writer1 = Some c' \<and> RPC_IsValid c' \<and> sent c' = req_frames writes1"
proof -
  have "can_send writer1 (inval_request 40 [])"
    by (simp add: writer1_def host0_simps can_send_def inval_request_def)
  from proxy_msg_stream[OF this, of SERVER_REQ_INVAL] obtain c1 where
    "proxy_msg writer1 SERVER_REQ_INVAL (inval_request 40 []) = Some (c1, True)" "rpc_ready c1"
    "outstream c1 = frame SERVER_REQ_INVAL (enc_items (inval_request 40 []))" "rest (hout c1) = []"
    by (auto simp: writer1_def host0_simps outstream_def)
  then show ?thesis
    by (auto simp: writes1_def ServerProxy_Invalidate_msg PIN_SPECIAL_def pin_consts rpc_ready_def flushed_sent)
qed

theorem remote_updates_witness:
  "\<exists>c'. client_updates writes1 writer1 = Some c' \<and>
    (\<exists>b. events (\<lambda>s h. Some (s, h)) (server_handlers (\<lambda>_. []) (\<lambda>s h v. None)) (length [sent c']) server1
        ((host0 [] (map RecvBytes [sent c']))\<lparr>hasHandlers := True\<rparr>) =
      Some (server1\<lparr>store := store1_later\<rparr>, (host0 [] (map RecvBytes [sent c']))\<lparr>hasHandlers := True\<rparr>\<lparr>hin := b, recvs := []\<rparr>) \<and>
      in_ready b \<and> rest b = [])"
proof -
  obtain c' where c': "client_updates writes1 writer1 = Some c'" "RPC_IsValid c'" "sent c' = req_frames writes1"
    using writes1_client by blast
  have "length (sent c') = 13" using c'(3) by (simp add: writes1_def frame_def enc_buf_def inval_request_def)
  then have "chunk (sent c')" by (auto simp: chunk_def)
  moreover have "list_all sendable writes1"
    by (simp add: writes1_def sendable_def ok_request_def ok_buf_def inval_request_def)
  ultimately have "\<exists>b. events (\<lambda>s h. Some (s, h)) (server_handlers (\<lambda>_. []) (\<lambda>s h v. None)) (length [sent c']) server1
        ((host0 [] (map RecvBytes [sent c']))\<lparr>hasHandlers := True\<rparr>) =
      Some (server1\<lparr>store := store1_later\<rparr>, (host0 [] (map RecvBytes [sent c']))\<lparr>hasHandlers := True\<rparr>\<lparr>hin := b, recvs := []\<rparr>) \<and>
      in_ready b \<and> rest b = []"
    by (intro remote_updates[OF _ _ _ _ _ c'(1,2) Server_Setup_handlers_table _ _ _ _ _ _ _ writes1_store])
      (simp_all add: writer1_def host0_simps in_ready_def)
  with c'(1) show ?thesis by blast
qed

end
