(* ===== verification/PinTable.thy ===== *)
theory PinTable
  imports PinSet Memory "HOL-Library.Product_Lexorder"
begin

text \<open>
  The table of pinned snapshots: \<open>src/src/pincushion/pintable.h\<close> and \<open>src/src/pincushion/pintable.c\<close>.

  The table is a circular buffer of \<open>MAX_PINS\<close> entries, ordered by time stamp. Pointers into it are indices. The results
  of \<open>gettimeofday\<close> are a sequence in the state; the answers of the database library are arguments of the
  two callbacks that talk to it. Counters of references are unbounded, and \<open>PT_Print\<close>, which only prints, is left out.
\<close>

section \<open>The table\<close>

definition MAX_PINS :: nat where "MAX_PINS = 1024"

record PT_Entry_t =
  epin :: pin_t
  timestamp :: timeval
  eref :: int

record PinTable_t =
  table :: "PT_Entry_t list"
  head :: nat
  tail :: nat
  last_ref :: nat
  pendingUnpins :: "pin_t list"
  unpinInFlight :: bool
  dbWritable :: bool
  maxStaleness :: timeval
  clocktime :: "nat \<Rightarrow> timeval"
  nclocktime :: nat

definition pt_sub :: "nat \<Rightarrow> nat \<Rightarrow> nat" where
  "pt_sub a b = (if a < b then a + MAX_PINS - b else a - b)"

definition pt_add :: "nat \<Rightarrow> nat \<Rightarrow> nat" where
  "pt_add a b = (if a + b < MAX_PINS then a + b else a + b - MAX_PINS)"

definition ptr_sub :: "nat \<Rightarrow> nat \<Rightarrow> nat" where
  "ptr_sub a b = (if a \<ge> b then a - b else a + MAX_PINS - b)"

definition pt_get :: "PinTable_t \<Rightarrow> nat \<Rightarrow> PT_Entry_t option" where
  "pt_get p i = (if i < length (table p) then Some (table p ! i) else None)"

definition pt_set :: "PinTable_t \<Rightarrow> nat \<Rightarrow> PT_Entry_t \<Rightarrow> PinTable_t option" where
  "pt_set p i e = (if i < length (table p) then Some (p\<lparr>table := (table p)[i := e]\<rparr>) else None)"

text \<open>\<open>timersub\<close> and \<open>timercmp\<close> of the C library.\<close>

definition timersub :: "timeval \<Rightarrow> timeval \<Rightarrow> timeval" where
  "timersub a b =
     (let s = tv_sec a - tv_sec b; u = tv_usec a - tv_usec b
      in if u < 0 then \<lparr>tv_sec = s - 1, tv_usec = u + 1000000\<rparr> else \<lparr>tv_sec = s, tv_usec = u\<rparr>)"

definition timercmp_less :: "timeval \<Rightarrow> timeval \<Rightarrow> bool" where
  "timercmp_less a b = (if tv_sec a = tv_sec b then tv_usec a < tv_usec b else tv_sec a < tv_sec b)"

definition timercmp_eq :: "timeval \<Rightarrow> timeval \<Rightarrow> bool" where
  "timercmp_eq a b = (if tv_sec a = tv_sec b then tv_usec a = tv_usec b else tv_sec a = tv_sec b)"

definition gettimeofday :: "PinTable_t \<Rightarrow> timeval \<times> PinTable_t" where
  "gettimeofday p = (clocktime p (nclocktime p), p\<lparr>nclocktime := nclocktime p + 1\<rparr>)"

text \<open>\<open>ps\<close> is the socket of the database connection, \<open>added\<close> the success of \<open>Reactor_Add\<close>.\<close>

definition PT_Init :: "int \<Rightarrow> bool \<Rightarrow> timeval \<Rightarrow> PinTable_t \<Rightarrow> PinTable_t option" where
  "PT_Init ps added initMaxStaleness p = do {
     let p = p\<lparr>head := 0, tail := 0, last_ref := 0, maxStaleness := initMaxStaleness\<rparr>;
     Assert (ps > 0);
     Assert added;
     Some (p\<lparr>dbWritable := False\<rparr>)
   }"

section \<open>Unpinning in the database\<close>

text \<open>What the calls of \<open>PQisBusy\<close> and \<open>PQgetResult\<close> find.\<close>

datatype pq_result = PQBusy | PQResult bool | PQDone

text \<open>Whether the last result was null.\<close>

fun PTOnRead_loop :: "pq_result list \<Rightarrow> bool option" where
  "PTOnRead_loop [] = None"
| "PTOnRead_loop (PQBusy # rs) = Some False"
| "PTOnRead_loop (PQResult ok # rs) = PTOnRead_loop rs"
| "PTOnRead_loop (PQDone # rs) = Some True"

definition PTOnRead :: "bool \<Rightarrow> bool \<Rightarrow> pq_result list \<Rightarrow> PinTable_t \<Rightarrow> PinTable_t option" where
  "PTOnRead consumed connected rs p =
     (if \<not> consumed then (if \<not> connected then None else Some p)
      else do {
        done \<leftarrow> PTOnRead_loop rs;
        if done
        then let p = p\<lparr>unpinInFlight := False\<rparr>
             in Some (if pendingUnpins p \<noteq> [] then p\<lparr>dbWritable := True\<rparr> else p)
        else Some p
      })"

text \<open>\<open>sprintf\<close> with \<open>%d\<close> of a pin.\<close>

definition fmt_d :: "pin_t \<Rightarrow> string" where
  "fmt_d n = (if sint n < 0 then CHR ''-'' # fmt_llu (nat (- sint n)) else fmt_llu (nat (sint n)))"

definition sqlLen :: nat where "sqlLen = length ''UNPIN XXXXXXXXXXXXXXXXXXXXX; ''"

text \<open>The commands; with its terminating null the text must fit the buffer.\<close>

definition unpin_sql :: "pin_t list \<Rightarrow> string" where
  "unpin_sql ps = concat (map (\<lambda>p. ''UNPIN '' @ fmt_d p @ ''; '') ps)"

text \<open>\<open>allocated\<close>, \<open>sent\<close> and \<open>connected\<close> are the outcomes of \<open>malloc\<close>, \<open>PQsendQuery\<close> and \<open>PQstatus\<close>. The result includes the
  command that was sent. The reactor has cleared the mark before the call.\<close>

definition PTOnWrite :: "bool \<Rightarrow> bool \<Rightarrow> bool \<Rightarrow> PinTable_t \<Rightarrow> (PinTable_t \<times> string option) option" where
  "PTOnWrite allocated sent connected p = do {
     Assert allocated;
     let buf = unpin_sql (pendingUnpins p);
     Assert (length buf + 1 \<le> length (pendingUnpins p) * sqlLen + 1);
     if sent then Some (p\<lparr>pendingUnpins := [], unpinInFlight := True\<rparr>, Some buf)
     else Some (if connected then p\<lparr>dbWritable := True\<rparr> else p, None)
   }"

section \<open>Operations on the table\<close>

definition PT_RemoveTail :: "PinTable_t \<Rightarrow> PinTable_t option" where
  "PT_RemoveTail p = do {
     Assert (tail p \<noteq> head p);
     let p = p\<lparr>tail := pt_add (tail p) 1\<rparr>;
     e \<leftarrow> pt_get p (tail p);
     Assert (eref e = 0);
     Assert (length (pendingUnpins p) < MAX_PINS);
     let p = (if pendingUnpins p = [] \<and> \<not> unpinInFlight p then p\<lparr>dbWritable := True\<rparr> else p);
     Some (p\<lparr>pendingUnpins := pendingUnpins p @ [epin e]\<rparr>)
   }"

partial_function (option) PT_Clean_loop :: "timeval \<Rightarrow> PinTable_t \<Rightarrow> nat \<Rightarrow> PinTable_t option" where
  "PT_Clean_loop bound p nxt =
     (if nxt \<noteq> head p
      then do {
        let nxt = pt_add nxt 1;
        e \<leftarrow> pt_get p nxt;
        if eref e > 0 then Some (p\<lparr>last_ref := nxt\<rparr>)
        else if timercmp_less (timestamp e) bound
        then do {
          p \<leftarrow> PT_RemoveTail p;
          Assert (tail p = nxt);
          PT_Clean_loop bound p nxt
        }
        else PT_Clean_loop bound p nxt
      }
      else Some p)"

definition PT_Clean :: "PinTable_t \<Rightarrow> PinTable_t option" where
  "PT_Clean p = (let (now, p) = gettimeofday p in PT_Clean_loop (timersub now (maxStaleness p)) p (tail p))"

text \<open>The index of the entry, or nothing.\<close>

partial_function (option) PT_FindPin_loop :: "PinTable_t \<Rightarrow> pin_t \<Rightarrow> nat \<Rightarrow> nat option option" where
  "PT_FindPin_loop p pn r =
     (if r \<noteq> tail p
      then do {
        e \<leftarrow> pt_get p r;
        if epin e = pn then Some (Some r) else PT_FindPin_loop p pn (pt_sub r 1)
      }
      else Some None)"

definition PT_FindPin :: "PinTable_t \<Rightarrow> pin_t \<Rightarrow> nat option option" where
  "PT_FindPin p pn = PT_FindPin_loop p pn (head p)"

partial_function (option) PT_Insert_bubble :: "PinTable_t \<Rightarrow> nat \<Rightarrow> nat \<Rightarrow> (PinTable_t \<times> nat) option" where
  "PT_Insert_bubble p a b =
     (if a \<noteq> tail p
      then do {
        ea \<leftarrow> pt_get p a;
        eb \<leftarrow> pt_get p b;
        if timercmp_less (timestamp ea) (timestamp eb) then Some (p, b)
        else do {
          p \<leftarrow> pt_set p b ea;
          p \<leftarrow> pt_set p a eb;
          PT_Insert_bubble p (pt_sub a 1) a
        }
      }
      else Some (p, b))"

text \<open>The parts of \<open>PT_Insert\<close>: first there must be room.\<close>

definition PT_Insert_room :: "PinTable_t \<Rightarrow> PinTable_t option" where
  "PT_Insert_room p = do {
     p \<leftarrow> (if ptr_sub (head p) (tail p) = MAX_PINS - 1 then PT_Clean p else Some p);
     if ptr_sub (head p) (tail p) = MAX_PINS - 1
     then do {
       e \<leftarrow> pt_get p (pt_add (tail p) 1);
       Assert (\<not> eref e > 0);
       PT_RemoveTail p
     }
     else Some p
   }"

definition PT_Insert_pin :: "PinTable_t \<Rightarrow> timeval \<Rightarrow> pin_t \<Rightarrow> (PinTable_t \<times> nat) option" where
  "PT_Insert_pin p ts pn = do {
     found \<leftarrow> PT_FindPin p pn;
     case found of
       Some r \<Rightarrow> do {
         let prv = pt_sub r 1;
         let nxt = pt_add r 1;
         (if prv \<noteq> tail p
          then do { e \<leftarrow> pt_get p prv; Assert (timercmp_less (timestamp e) ts \<or> timercmp_eq (timestamp e) ts) }
          else Some ());
         (if r \<noteq> head p
          then do { e \<leftarrow> pt_get p nxt; Assert (timercmp_less ts (timestamp e) \<or> timercmp_eq ts (timestamp e)) }
          else Some ());
         e \<leftarrow> pt_get p r;
         p \<leftarrow> pt_set p r (e\<lparr>timestamp := ts\<rparr>);
         Some (p, r)
       }
     | None \<Rightarrow> do {
         let p = p\<lparr>head := pt_add (head p) 1\<rparr>;
         p \<leftarrow> pt_set p (head p) \<lparr>epin = pn, timestamp = ts, eref = 0\<rparr>;
         PT_Insert_bubble p (pt_sub (head p) 1) (head p)
       }
   }"

definition PT_Insert :: "PinTable_t \<Rightarrow> timeval \<Rightarrow> pin_t \<Rightarrow> (PinTable_t \<times> nat) option" where
  "PT_Insert p ts pn = do { p \<leftarrow> PT_Insert_room p; PT_Insert_pin p ts pn }"

text \<open>The number of entries that are new enough, and the oldest of them.\<close>

partial_function (option) PT_Find_loop :: "PinTable_t \<Rightarrow> timeval \<Rightarrow> nat \<Rightarrow> nat \<Rightarrow> nat \<Rightarrow> (nat \<times> nat) option" where
  "PT_Find_loop p bound a b num =
     (if a \<noteq> tail p
      then do {
        e \<leftarrow> pt_get p a;
        if timercmp_less (timestamp e) bound then Some (num, b)
        else PT_Find_loop p bound (pt_sub a 1) a (num + 1)
      }
      else Some (num, b))"

definition PT_Find :: "PinTable_t \<Rightarrow> timeval \<Rightarrow> (PinTable_t \<times> nat \<times> nat option) option" where
  "PT_Find p lower_bound = do {
     let (now, p) = gettimeofday p;
     let bound = timersub now lower_bound;
     old \<leftarrow> (if head p = tail p then Some True
             else do { e \<leftarrow> pt_get p (head p); Some (timercmp_less (timestamp e) bound) });
     if old then Some (p, 0, None)
     else do {
       (num, b) \<leftarrow> PT_Find_loop p bound (pt_sub (head p) 1) (head p) 1;
       Some (p, num, Some b)
     }
   }"

definition PT_GetEntry :: "PinTable_t \<Rightarrow> int \<Rightarrow> nat option" where
  "PT_GetEntry p i =
     (if i < int (ptr_sub (head p) (tail p)) then Some (if int (head p) < i then nat (int (head p) + int MAX_PINS - i) else nat (int (head p) - i))
      else None)"

definition PT_AddRef :: "PinTable_t \<Rightarrow> nat \<Rightarrow> PinTable_t option" where
  "PT_AddRef p i = do {
     e \<leftarrow> pt_get p i;
     p \<leftarrow> pt_set p i (e\<lparr>eref := eref e + 1\<rparr>);
     Some (if ptr_sub i (tail p) < ptr_sub (last_ref p) (tail p) then p\<lparr>last_ref := i\<rparr> else p)
   }"

text \<open>A null pointer is \<open>None\<close>.\<close>

definition PT_RemoveRef :: "PinTable_t \<Rightarrow> nat option \<Rightarrow> PinTable_t option" where
  "PT_RemoveRef p r = do {
     i \<leftarrow> r;
     e \<leftarrow> pt_get p i;
     p \<leftarrow> (if eref e < 1 then Some p else pt_set p i (e\<lparr>eref := eref e - 1\<rparr>));
     PT_Clean p
   }"

partial_function (option) PT_Flush_loop :: "PinTable_t \<Rightarrow> PinTable_t option" where
  "PT_Flush_loop p = (if tail p \<noteq> head p then do { p \<leftarrow> PT_RemoveTail p; PT_Flush_loop p } else Some p)"

definition PT_Flush :: "PinTable_t \<Rightarrow> PinTable_t option" where
  "PT_Flush p = do { p \<leftarrow> PT_Flush_loop p; Some (p\<lparr>last_ref := head p\<rparr>) }"

section \<open>The table as a list\<close>

text \<open>The entries from the oldest to the newest.\<close>

definition pt_count :: "PinTable_t \<Rightarrow> nat" where
  "pt_count p = ptr_sub (head p) (tail p)"

definition slot :: "PinTable_t \<Rightarrow> nat \<Rightarrow> nat" where
  "slot p k = (tail p + k) mod MAX_PINS"

definition pt_list :: "PinTable_t \<Rightarrow> PT_Entry_t list" where
  "pt_list p = map (\<lambda>k. table p ! slot p (Suc k)) [0..<pt_count p]"

definition pt_wf :: "PinTable_t \<Rightarrow> bool" where
  "pt_wf p \<longleftrightarrow> length (table p) = MAX_PINS \<and> head p < MAX_PINS \<and> tail p < MAX_PINS"

definition tkey :: "timeval \<Rightarrow> int \<times> int" where
  "tkey t = (tv_sec t, tv_usec t)"

lemma timercmp_key [simp]:
  "timercmp_less a b \<longleftrightarrow> tkey a < tkey b" "timercmp_eq a b \<longleftrightarrow> tkey a = tkey b"
  by (auto simp: timercmp_less_def timercmp_eq_def tkey_def)

lemma slot_lt [simp]: "slot p k < MAX_PINS"
  by (simp add: slot_def MAX_PINS_def)

lemma slot_inj: "j < MAX_PINS \<Longrightarrow> k < MAX_PINS \<Longrightarrow> slot p j = slot p k \<longleftrightarrow> j = k"
proof -
  have *: "j = k" if "j \<le> k" "k < MAX_PINS" "(t + j) mod MAX_PINS = (t + k) mod MAX_PINS" for j k t :: nat
  proof -
    have "MAX_PINS dvd k - j" using that(1,3) mod_eq_dvd_iff_nat[of "t + j" "t + k" MAX_PINS] by simp
    then show ?thesis using that(1,2) by (auto dest: dvd_imp_le)
  qed
  assume "j < MAX_PINS" "k < MAX_PINS"
  then show ?thesis using *[of j k "tail p"] *[of k j "tail p"] by (cases "j \<le> k") (auto simp: slot_def)
qed

lemma count_lt: "pt_wf p \<Longrightarrow> pt_count p < MAX_PINS"
  by (auto simp: pt_wf_def pt_count_def ptr_sub_def)

lemma slot_0: "pt_wf p \<Longrightarrow> slot p 0 = tail p"
  by (simp add: pt_wf_def slot_def)

lemma slot_count: "pt_wf p \<Longrightarrow> slot p (pt_count p) = head p"
  by (auto simp: pt_wf_def slot_def pt_count_def ptr_sub_def)

lemma slot_sub: "0 < k \<Longrightarrow> pt_sub (slot p k) (Suc 0) = slot p (k - 1)"
  by (cases k) (auto simp: slot_def pt_sub_def mod_Suc MAX_PINS_def)

lemma slot_add: "pt_add (slot p k) (Suc 0) = slot p (Suc k)"
  by (auto simp: slot_def pt_add_def mod_Suc MAX_PINS_def)

lemma slot_tail: "pt_wf p \<Longrightarrow> k \<le> pt_count p \<Longrightarrow> slot p k = tail p \<longleftrightarrow> k = 0"
  using slot_inj[of k 0 p] count_lt[of p] by (simp add: slot_0 MAX_PINS_def)

lemma slot_head: "pt_wf p \<Longrightarrow> k \<le> pt_count p \<Longrightarrow> slot p k = head p \<longleftrightarrow> k = pt_count p"
  using slot_inj[of k "pt_count p" p] count_lt[of p] by (simp add: slot_count)

lemma head_tail: "pt_wf p \<Longrightarrow> head p = tail p \<longleftrightarrow> pt_list p = []"
  using slot_tail[of p "pt_count p"] by (auto simp: slot_count pt_list_def)

lemma length_pt_list [simp]: "length (pt_list p) = pt_count p"
  by (simp add: pt_list_def)

lemma pt_get_slot: "pt_wf p \<Longrightarrow> 0 < k \<Longrightarrow> k \<le> pt_count p \<Longrightarrow> pt_get p (slot p k) = Some (pt_list p ! (k - 1))"
  by (cases k) (auto simp: pt_get_def pt_list_def pt_wf_def)

lemma pt_set_slot:
  assumes "pt_wf p" "0 < k" "k \<le> pt_count p"
  shows "\<exists>p'. pt_set p (slot p k) e = Some p' \<and> p' = p\<lparr>table := (table p)[slot p k := e]\<rparr> \<and> pt_wf p' \<and> pt_list p' = (pt_list p)[k - 1 := e] \<and>
    pt_count p' = pt_count p \<and> slot p' = slot p"
proof -
  let ?p = "p\<lparr>table := (table p)[slot p k := e]\<rparr>"
  have c: "pt_count ?p = pt_count p" "slot ?p = slot p" by (auto simp: pt_count_def slot_def fun_eq_iff)
  have "pt_list ?p ! j = (pt_list p)[k - 1 := e] ! j" if "j < pt_count p" for j
    using that assms slot_inj[of "Suc j" k p] count_lt[OF assms(1)] c
    by (auto simp: pt_list_def pt_wf_def nth_list_update)
  then have "pt_list ?p = (pt_list p)[k - 1 := e]" by (intro nth_equalityI) (simp_all add: c)
  then show ?thesis using assms c by (auto simp: pt_set_def pt_wf_def)
qed

text \<open>What the operations on entries leave alone.\<close>

definition pt_same :: "PinTable_t \<Rightarrow> PinTable_t \<Rightarrow> bool" where
  "pt_same p p' \<longleftrightarrow> unpinInFlight p' = unpinInFlight p \<and> maxStaleness p' = maxStaleness p \<and> clocktime p' = clocktime p"

lemma pt_same_refl [simp]: "pt_same p p"
  by (simp add: pt_same_def)

lemma pt_same_trans: "pt_same p p1 \<Longrightarrow> pt_same p1 p2 \<Longrightarrow> pt_same p p2"
  by (simp add: pt_same_def)

lemma RemoveTail_list:
  assumes p: "pt_wf p" and l: "pt_list p = e # es" and e: "eref e = 0" "length (pendingUnpins p) < MAX_PINS"
  obtains p' where "PT_RemoveTail p = Some p'" "pt_wf p'" "pt_list p' = es" "pendingUnpins p' = pendingUnpins p @ [epin e]"
    "tail p' = slot p (Suc 0)" "nclocktime p' = nclocktime p" "pt_same p p'"
proof -
  have c: "0 < pt_count p" using l by (metis length_pt_list length_greater_0_conv list.distinct(1))
  let ?p = "p\<lparr>tail := pt_add (tail p) (Suc 0)\<rparr>"
  have t: "pt_add (tail p) (Suc 0) = slot p (Suc 0)" using slot_add[of p 0] slot_0[OF p] by simp
  have ne: "tail p \<noteq> head p" using head_tail[OF p] l by auto
  have s: "slot ?p k = slot p (Suc k)" for k using t by (simp add: slot_def mod_simps)
  have n: "pt_count ?p = pt_count p - 1"
    using p ne by (auto simp: pt_count_def ptr_sub_def pt_wf_def pt_add_def)
  have w: "pt_wf ?p" using p t by (simp add: pt_wf_def)
  have "pt_list ?p = tl (pt_list p)"
    by (rule nth_equalityI) (use c n in \<open>auto simp: pt_list_def s nth_tl\<close>)
  then have tl: "pt_list ?p = es" using l by simp
  have "pt_get ?p (slot p (Suc 0)) = Some e" using pt_get_slot[OF p, of "Suc 0"] c l by (simp add: pt_get_def split: if_splits)
  then have r: "PT_RemoveTail p = Some ((if pendingUnpins p = [] \<and> \<not> unpinInFlight p then ?p\<lparr>dbWritable := True\<rparr> else ?p)
      \<lparr>pendingUnpins := pendingUnpins p @ [epin e]\<rparr>)" (is "_ = Some ?r")
    using ne e t by (simp add: PT_RemoveTail_def Let_def)
  have "pt_wf ?r" "pt_list ?r = es" using w tl by (auto simp: pt_wf_def pt_list_def slot_def pt_count_def)
  with r show thesis by (rule that) (auto simp: t pt_same_def)
qed

lemma RemoveTail_Some:
  assumes "PT_RemoveTail p = Some p'" "pt_wf p"
  obtains e es where "pt_list p = e # es" "eref e = 0" "length (pendingUnpins p) < MAX_PINS" "pt_wf p'" "pt_list p' = es"
    "pendingUnpins p' = pendingUnpins p @ [epin e]" "tail p' = slot p (Suc 0)" "nclocktime p' = nclocktime p" "pt_same p p'"
proof -
  have "pt_list p \<noteq> []" using assms head_tail[OF assms(2)] by (auto simp: PT_RemoveTail_def)
  then obtain e es where l: "pt_list p = e # es" by (cases "pt_list p") auto
  then have c: "0 < pt_count p" by (metis length_pt_list length_greater_0_conv list.distinct(1))
  have "pt_get p (slot p (Suc 0)) = Some e" using pt_get_slot[OF assms(2), of "Suc 0"] c l by simp
  then have "eref e = 0" "length (pendingUnpins p) < MAX_PINS"
    using assms(1) slot_add[of p 0] slot_0[OF assms(2)] by (auto simp: PT_RemoveTail_def pt_get_def Let_def split: if_splits)
  with RemoveTail_list[OF assms(2) l] l that assms(1) show thesis by (metis option.inject)
qed

abbreviation stamp_sorted :: "PT_Entry_t list \<Rightarrow> bool" where
  "stamp_sorted es \<equiv> sorted (map (\<lambda>e. tkey (timestamp e)) es)"

lemma Clean_loop_fresh:
  assumes "pt_wf p" "k \<le> pt_count p" "\<forall>e \<in> set (drop k (pt_list p)). \<not> tkey (timestamp e) < tkey bound"
  shows "\<exists>l. PT_Clean_loop bound p (slot p k) = Some (p\<lparr>last_ref := l\<rparr>)"
  using assms(2,3)
proof (induction "pt_count p - k" arbitrary: k)
  case 0
  then have "slot p k = head p" using slot_head[OF assms(1)] by simp
  then show ?case by (auto simp: PT_Clean_loop.simps intro!: exI[of _ "last_ref p"])
next
  case (Suc n)
  then have k: "k < pt_count p" by simp
  then have g: "pt_get p (slot p (Suc k)) = Some (pt_list p ! k)" "slot p k \<noteq> head p"
    using pt_get_slot[OF assms(1), of "Suc k"] slot_head[OF assms(1), of k] by auto
  have "pt_list p ! k \<in> set (drop k (pt_list p))" using k by (metis Cons_nth_drop_Suc length_pt_list list.set_intros(1))
  with Suc.prems(2) have "\<not> tkey (timestamp (pt_list p ! k)) < tkey bound" by blast
  moreover have "\<exists>l. PT_Clean_loop bound p (slot p (Suc k)) = Some (p\<lparr>last_ref := l\<rparr>)"
    using Suc.prems(2) k Suc.hyps(2) set_drop_subset_set_drop[of k "Suc k" "pt_list p"] by (intro Suc.hyps(1)) auto
  ultimately show ?case using g by (subst PT_Clean_loop.simps) (auto simp: slot_add Let_def)
qed

lemma Clean_loop_list:
  assumes "pt_wf p" "stamp_sorted (pt_list p)" "\<forall>e \<in> set (pt_list p). 0 \<le> eref e"
    "length (pendingUnpins p) + length (takeWhile (\<lambda>e. eref e = 0 \<and> tkey (timestamp e) < tkey bound) (pt_list p)) \<le> MAX_PINS"
  obtains p' where "PT_Clean_loop bound p (tail p) = Some p'" "pt_wf p'"
    "pt_list p' = dropWhile (\<lambda>e. eref e = 0 \<and> tkey (timestamp e) < tkey bound) (pt_list p)"
    "pendingUnpins p' = pendingUnpins p @ map epin (takeWhile (\<lambda>e. eref e = 0 \<and> tkey (timestamp e) < tkey bound) (pt_list p))"
    "nclocktime p' = nclocktime p" "pt_same p p'"
  using assms
proof (induction "pt_list p" arbitrary: p thesis)
  case Nil
  then have "tail p = head p" using head_tail[OF Nil.prems(2)] by simp
  then show ?case using Nil by (simp add: PT_Clean_loop.simps)
next
  case (Cons e es)
  have c: "0 < pt_count p" using Cons.hyps(2) by (metis length_pt_list length_greater_0_conv list.distinct(1))
  have g: "pt_get p (slot p (Suc 0)) = Some e" "tail p \<noteq> head p" "pt_add (tail p) (Suc 0) = slot p (Suc 0)"
    using pt_get_slot[OF Cons.prems(2), of "Suc 0"] c Cons.hyps(2)[symmetric] head_tail[OF Cons.prems(2)]
      slot_add[of p 0] slot_0[OF Cons.prems(2)] by auto
  show ?case
  proof (cases "eref e = 0 \<and> tkey (timestamp e) < tkey bound")
    case True
    have "length (pendingUnpins p) < MAX_PINS" using Cons.prems(5) Cons.hyps(2)[symmetric] True by simp
    with True obtain p1 where p1: "PT_RemoveTail p = Some p1" "pt_wf p1" "pt_list p1 = es"
        "pendingUnpins p1 = pendingUnpins p @ [epin e]" "tail p1 = slot p (Suc 0)" "nclocktime p1 = nclocktime p" "pt_same p p1"
      using RemoveTail_list[OF Cons.prems(2) Cons.hyps(2)[symmetric]] by metis
    have pr: "stamp_sorted (pt_list p1)" "\<forall>e \<in> set (pt_list p1). 0 \<le> eref e"
      "length (pendingUnpins p1) + length (takeWhile (\<lambda>e. eref e = 0 \<and> tkey (timestamp e) < tkey bound) (pt_list p1)) \<le> MAX_PINS"
      using Cons.prems(3-5) Cons.hyps(2)[symmetric] p1 True by auto
    obtain p' where p': "PT_Clean_loop bound p1 (tail p1) = Some p'" "pt_wf p'"
        "pt_list p' = dropWhile (\<lambda>e. eref e = 0 \<and> tkey (timestamp e) < tkey bound) (pt_list p1)"
        "pendingUnpins p' = pendingUnpins p1 @ map epin (takeWhile (\<lambda>e. eref e = 0 \<and> tkey (timestamp e) < tkey bound) (pt_list p1))"
        "nclocktime p' = nclocktime p1" "pt_same p1 p'"
      using Cons.hyps(1)[OF p1(3)[symmetric] _ p1(2) pr] by blast
    have "PT_Clean_loop bound p (tail p) = Some p'"
      using True g p1(1,5) p'(1) by (subst PT_Clean_loop.simps) (simp add: Let_def)
    then show ?thesis
      by (rule Cons.prems(1)) (use p' p1 True Cons.hyps(2)[symmetric] pt_same_trans in auto)
  next
    case False
    have "\<exists>l. PT_Clean_loop bound p (tail p) = Some (p\<lparr>last_ref := l\<rparr>)"
    proof (cases "eref e > 0")
      case True
      then show ?thesis using g by (subst PT_Clean_loop.simps) (auto simp: Let_def)
    next
      case nr: False
      then have ns: "\<not> tkey (timestamp e) < tkey bound" using False Cons.prems(4) Cons.hyps(2)[symmetric] by force
      moreover have "\<forall>e \<in> set (drop 0 (pt_list p)). \<not> tkey (timestamp e) < tkey bound"
        using ns Cons.prems(3) unfolding Cons.hyps(2)[symmetric] by (auto simp: not_less intro: order_trans)
      from Clean_loop_fresh[OF Cons.prems(2) _ this] show ?thesis using slot_0[OF Cons.prems(2)] by simp
    qed
    then obtain l where "PT_Clean_loop bound p (tail p) = Some (p\<lparr>last_ref := l\<rparr>)" by blast
    then show ?thesis
      by (rule Cons.prems(1)) (use False Cons.prems(2) Cons.hyps(2)[symmetric] in
        \<open>auto simp: pt_wf_def pt_list_def slot_def pt_count_def pt_same_def\<close>)
  qed
qed

lemma Clean_loop_room:
  assumes "PT_Clean_loop bound p (tail p) = Some p'" "pt_wf p" "length (pendingUnpins p) \<le> MAX_PINS"
  shows "length (pendingUnpins p) + length (takeWhile (\<lambda>e. eref e = 0 \<and> tkey (timestamp e) < tkey bound) (pt_list p)) \<le> MAX_PINS"
  using assms
proof (induction "pt_list p" arbitrary: p)
  case (Cons e es)
  have c: "0 < pt_count p" using Cons.hyps(2) by (metis length_pt_list length_greater_0_conv list.distinct(1))
  have g: "pt_get p (slot p (Suc 0)) = Some e" "tail p \<noteq> head p" "pt_add (tail p) (Suc 0) = slot p (Suc 0)"
    using pt_get_slot[OF Cons.prems(2), of "Suc 0"] c Cons.hyps(2)[symmetric] head_tail[OF Cons.prems(2)]
      slot_add[of p 0] slot_0[OF Cons.prems(2)] by auto
  show ?case
  proof (cases "eref e = 0 \<and> tkey (timestamp e) < tkey bound")
    case True
    then obtain p1 where p1: "PT_RemoveTail p = Some p1" "PT_Clean_loop bound p1 (tail p1) = Some p'"
      using Cons.prems(1) g by (subst (asm) PT_Clean_loop.simps) (auto simp: Let_def bind_eq_Some_conv)
    from RemoveTail_Some[OF p1(1) Cons.prems(2)] Cons.hyps(2) have
      "pt_wf p1" "es = pt_list p1" "pendingUnpins p1 = pendingUnpins p @ [epin e]" "length (pendingUnpins p) < MAX_PINS"
      by (metis list.inject)+
    with Cons.hyps(1)[of p1] p1(2) True Cons.hyps(2)[symmetric] show ?thesis by simp
  next
    case False
    with Cons.hyps(2)[symmetric] Cons.prems(3) show ?thesis by auto
  qed
qed simp

lemma FindPin_loop:
  assumes "pt_wf p" "k \<le> pt_count p"
  shows "\<exists>r. PT_FindPin_loop p pn (slot p k) = Some r \<and>
    (case r of None \<Rightarrow> pn \<notin> epin ` set (take k (pt_list p))
     | Some i \<Rightarrow> \<exists>j < k. i = slot p (Suc j) \<and> epin (pt_list p ! j) = pn)"
  using assms(2)
proof (induction k)
  case 0
  then show ?case using slot_0[OF assms(1)] by (simp add: PT_FindPin_loop.simps)
next
  case (Suc k)
  have g: "pt_get p (slot p (Suc k)) = Some (pt_list p ! k)" "slot p (Suc k) \<noteq> tail p" "pt_sub (slot p (Suc k)) (Suc 0) = slot p k"
    using pt_get_slot[OF assms(1), of "Suc k"] slot_tail[OF assms(1) Suc.prems] slot_sub[of "Suc k" p] Suc.prems by auto
  show ?case
  proof (cases "epin (pt_list p ! k) = pn")
    case True
    then show ?thesis using g by (subst PT_FindPin_loop.simps) auto
  next
    case False
    obtain r where r: "PT_FindPin_loop p pn (slot p k) = Some r"
        "case r of None \<Rightarrow> pn \<notin> epin ` set (take k (pt_list p)) | Some i \<Rightarrow> \<exists>j < k. i = slot p (Suc j) \<and> epin (pt_list p ! j) = pn"
      using Suc by auto
    have "take (Suc k) (pt_list p) = take k (pt_list p) @ [pt_list p ! k]" using Suc.prems by (simp add: take_Suc_conv_app_nth)
    with False g r show ?thesis
      by (subst PT_FindPin_loop.simps) (auto split: option.splits intro: less_SucI)
  qed
qed

lemma FindPin_list:
  assumes "pt_wf p"
  shows "PT_FindPin p pn = Some None \<and> pn \<notin> epin ` set (pt_list p) \<or>
    (\<exists>j < pt_count p. PT_FindPin p pn = Some (Some (slot p (Suc j))) \<and> epin (pt_list p ! j) = pn)"
proof -
  have t: "take (pt_count p) (pt_list p) = pt_list p" by simp
  obtain r where "PT_FindPin p pn = Some r" "case r of None \<Rightarrow> pn \<notin> epin ` set (pt_list p)
      | Some i \<Rightarrow> \<exists>j < pt_count p. i = slot p (Suc j) \<and> epin (pt_list p ! j) = pn"
    using FindPin_loop[OF assms order_refl, of pn] unfolding t slot_count[OF assms] PT_FindPin_def by blast
  then show ?thesis by (cases r) auto
qed

lemma FindPin_Some:
  assumes "pt_wf p" "distinct (map epin (pt_list p))" "j < pt_count p"
  shows "PT_FindPin p (epin (pt_list p ! j)) = Some (Some (slot p (Suc j)))"
proof -
  have "epin (pt_list p ! j) \<in> epin ` set (pt_list p)" using assms(3) by simp
  moreover have "i = j" if "i < pt_count p" "epin (pt_list p ! i) = epin (pt_list p ! j)" for i
    using assms(2,3) that nth_eq_iff_index_eq[of "map epin (pt_list p)" i j] by simp
  ultimately show ?thesis using FindPin_list[OF assms(1), of "epin (pt_list p ! j)"] by auto
qed

text \<open>The place of a new entry: behind all the entries that are older.\<close>

definition place :: "PT_Entry_t \<Rightarrow> PT_Entry_t list \<Rightarrow> PT_Entry_t list" where
  "place e es = takeWhile (\<lambda>x. tkey (timestamp x) < tkey (timestamp e)) es @ e # dropWhile (\<lambda>x. tkey (timestamp x) < tkey (timestamp e)) es"

lemma swap_list:
  "k < length xs \<Longrightarrow> (take (Suc k) xs @ e # drop (Suc k) xs)[Suc k := xs ! k, k := e] = take k xs @ e # drop k xs"
  by (simp add: take_Suc_conv_app_nth list_update_append Cons_nth_drop_Suc)

lemma Insert_bubble_list:
  assumes "pt_wf p" "k \<le> length xs" "pt_list p = take k xs @ e # drop k xs" "stamp_sorted xs"
    "\<forall>x \<in> set (drop k xs). \<not> tkey (timestamp x) < tkey (timestamp e)"
  shows "\<exists>t l. PT_Insert_bubble p (slot p k) (slot p (Suc k)) = Some (p\<lparr>table := t\<rparr>, slot p (Suc l)) \<and> pt_wf (p\<lparr>table := t\<rparr>) \<and>
    pt_list (p\<lparr>table := t\<rparr>) = place e xs \<and> l = length (takeWhile (\<lambda>x. tkey (timestamp x) < tkey (timestamp e)) xs)"
  using assms
proof (induction k arbitrary: p)
  case 0
  have "takeWhile (\<lambda>x. tkey (timestamp x) < tkey (timestamp e)) xs = []" using 0(5) by (cases xs) auto
  moreover have "dropWhile (\<lambda>x. tkey (timestamp x) < tkey (timestamp e)) xs = xs" using 0(5) by (cases xs) auto
  ultimately show ?case using 0 slot_0[OF 0(1)]
    by (subst PT_Insert_bubble.simps) (auto simp: place_def intro!: exI[of _ "table p"])
next
  case (Suc k)
  have c: "pt_count p = Suc (length xs)" using arg_cong[OF Suc.prems(3), of length] Suc.prems(2) by simp
  have n: "pt_list p ! k = xs ! k" "pt_list p ! Suc k = e" using Suc.prems(2,3) by (simp_all add: nth_append)
  have g: "pt_get p (slot p (Suc k)) = Some (xs ! k)" "pt_get p (slot p (Suc (Suc k))) = Some e" "slot p (Suc k) \<noteq> tail p"
      "pt_sub (slot p (Suc k)) (Suc 0) = slot p k"
    using pt_get_slot[OF Suc.prems(1), of "Suc k"] pt_get_slot[OF Suc.prems(1), of "Suc (Suc k)"] slot_tail[OF Suc.prems(1), of "Suc k"]
      slot_sub[of "Suc k" p] Suc.prems(2) c n by auto
  show ?case
  proof (cases "tkey (timestamp (xs ! k)) < tkey (timestamp e)")
    case True
    have "\<forall>x \<in> set (take (Suc k) xs). tkey (timestamp x) < tkey (timestamp e)"
    proof
      fix x assume "x \<in> set (take (Suc k) xs)"
      then obtain j where j: "j \<le> k" "x = xs ! j" using Suc.prems(2) by (auto simp: in_set_conv_nth less_Suc_eq_le)
      then have "tkey (timestamp x) \<le> tkey (timestamp (xs ! k))"
        using Suc.prems(2,4) sorted_nth_mono[of "map (\<lambda>e. tkey (timestamp e)) xs" j k] by simp
      with True show "tkey (timestamp x) < tkey (timestamp e)" by simp
    qed
    moreover have "drop (Suc k) xs = [] \<or> \<not> tkey (timestamp (hd (drop (Suc k) xs))) < tkey (timestamp e)"
      using Suc.prems(5) by (metis hd_in_set)
    ultimately have "takeWhile (\<lambda>x. tkey (timestamp x) < tkey (timestamp e)) (take (Suc k) xs @ drop (Suc k) xs) = take (Suc k) xs"
      "dropWhile (\<lambda>x. tkey (timestamp x) < tkey (timestamp e)) (take (Suc k) xs @ drop (Suc k) xs) = drop (Suc k) xs"
      using Suc.prems(5) by (cases "drop (Suc k) xs"; force simp: takeWhile_append2 dropWhile_append2 takeWhile_append dropWhile_append)+
    then have w: "takeWhile (\<lambda>x. tkey (timestamp x) < tkey (timestamp e)) xs = take (Suc k) xs"
      "dropWhile (\<lambda>x. tkey (timestamp x) < tkey (timestamp e)) xs = drop (Suc k) xs" by simp_all
    show ?thesis using True g Suc.prems w
      by (subst PT_Insert_bubble.simps) (auto simp: place_def intro!: exI[of _ "table p"])
  next
    case False
    obtain p1 where p1: "pt_set p (slot p (Suc (Suc k))) (xs ! k) = Some p1" "p1 = p\<lparr>table := (table p)[slot p (Suc (Suc k)) := xs ! k]\<rparr>"
        "pt_wf p1" "pt_list p1 = (pt_list p)[Suc k := xs ! k]" "pt_count p1 = pt_count p" "slot p1 = slot p"
      using pt_set_slot[OF Suc.prems(1), of "Suc (Suc k)" "xs ! k"] Suc.prems(2) c by auto
    obtain p2 where p2: "pt_set p1 (slot p (Suc k)) e = Some p2" "p2 = p1\<lparr>table := (table p1)[slot p (Suc k) := e]\<rparr>"
        "pt_wf p2" "pt_list p2 = (pt_list p1)[k := e]" "slot p2 = slot p"
      using pt_set_slot[OF p1(3), of "Suc k" e] Suc.prems(2) c p1(5,6) by auto
    have l: "pt_list p2 = take k xs @ e # drop k xs"
      using swap_list[of k xs e] Suc.prems(2,3) p1(4) p2(4) by simp
    have d: "drop k xs = xs ! k # drop (Suc k) xs" using Suc.prems(2) by (simp add: Cons_nth_drop_Suc)
    have "\<exists>t l. PT_Insert_bubble p2 (slot p2 k) (slot p2 (Suc k)) = Some (p2\<lparr>table := t\<rparr>, slot p2 (Suc l)) \<and> pt_wf (p2\<lparr>table := t\<rparr>) \<and>
        pt_list (p2\<lparr>table := t\<rparr>) = place e xs \<and> l = length (takeWhile (\<lambda>x. tkey (timestamp x) < tkey (timestamp e)) xs)"
      by (rule Suc.IH[OF p2(3) _ l Suc.prems(4)]) (use Suc.prems(2,5) False d in auto)
    then show ?thesis
      unfolding p2(5) using False g p1(1,2) p2(1,2) by (subst PT_Insert_bubble.simps) auto
  qed
qed

text \<open>The invariant of the table: the entries are ordered by time stamp, a pin occurs once, references are counted.\<close>

definition pt_ok :: "PinTable_t \<Rightarrow> bool" where
  "pt_ok p \<longleftrightarrow> pt_wf p \<and> stamp_sorted (pt_list p) \<and> distinct (map epin (pt_list p)) \<and> (\<forall>e \<in> set (pt_list p). 0 \<le> eref e) \<and>
     length (pendingUnpins p) \<le> MAX_PINS"

abbreviation stale :: "timeval \<Rightarrow> PT_Entry_t \<Rightarrow> bool" where
  "stale bound e \<equiv> eref e = 0 \<and> tkey (timestamp e) < tkey bound"

lemma sublist_ok:
  assumes "stamp_sorted es" "distinct (map epin es)" "\<forall>e \<in> set es. 0 \<le> eref e" "es = us @ vs"
  shows "stamp_sorted vs" "distinct (map epin vs)" "\<forall>e \<in> set vs. 0 \<le> eref e"
  using assms by (auto simp: sorted_append)

lemma Clean_Some:
  assumes "PT_Clean p = Some p'" "pt_ok p"
  defines "b \<equiv> timersub (clocktime p (nclocktime p)) (maxStaleness p)"
  shows "pt_ok p'" "pt_list p' = dropWhile (stale b) (pt_list p)"
    "pendingUnpins p' = pendingUnpins p @ map epin (takeWhile (stale b) (pt_list p))" "nclocktime p' = Suc (nclocktime p)" "pt_same p p'"
proof -
  let ?p = "p\<lparr>nclocktime := nclocktime p + 1\<rparr>"
  have l: "pt_list ?p = pt_list p" "pt_wf ?p = pt_wf p" by (auto simp: pt_list_def slot_def pt_count_def pt_wf_def)
  have c: "PT_Clean_loop b ?p (tail ?p) = Some p'" using assms(1) by (simp add: PT_Clean_def gettimeofday_def b_def)
  have w: "pt_wf ?p" "stamp_sorted (pt_list ?p)" "\<forall>e \<in> set (pt_list ?p). 0 \<le> eref e" "length (pendingUnpins ?p) \<le> MAX_PINS"
    using assms(2) l by (auto simp: pt_ok_def)
  note r = Clean_loop_room[OF c w(1,4)]
  obtain q where q: "PT_Clean_loop b ?p (tail ?p) = Some q" "pt_wf q" "pt_list q = dropWhile (stale b) (pt_list ?p)"
    "pendingUnpins q = pendingUnpins ?p @ map epin (takeWhile (stale b) (pt_list ?p))" "nclocktime q = nclocktime ?p" "pt_same ?p q"
    by (rule Clean_loop_list[OF w(1-3) r])
  then have e: "q = p'" using c by simp
  show "pt_list p' = dropWhile (stale b) (pt_list p)" "pendingUnpins p' = pendingUnpins p @ map epin (takeWhile (stale b) (pt_list p))"
    "nclocktime p' = Suc (nclocktime p)" "pt_same p p'" using q e l by (auto simp: pt_same_def)
  have o: "stamp_sorted (pt_list p)" "distinct (map epin (pt_list p))" "\<forall>e \<in> set (pt_list p). 0 \<le> eref e"
    using assms(2) by (simp_all add: pt_ok_def)
  have s: "stamp_sorted (dropWhile (stale b) (pt_list p))" "distinct (map epin (dropWhile (stale b) (pt_list p)))"
    "\<forall>e \<in> set (dropWhile (stale b) (pt_list p)). 0 \<le> eref e"
    by (rule sublist_ok[OF o takeWhile_dropWhile_id[symmetric]])+
  have "pt_wf p'" "pt_list p' = dropWhile (stale b) (pt_list p)" "length (pendingUnpins p') \<le> MAX_PINS"
    using q e l r by auto
  with s show "pt_ok p'" unfolding pt_ok_def by metis
qed

lemma Clean_total:
  assumes "pt_ok p" "length (pendingUnpins p) + pt_count p \<le> MAX_PINS"
  shows "PT_Clean p \<noteq> None"
proof -
  let ?p = "p\<lparr>nclocktime := nclocktime p + 1\<rparr>"
  let ?b = "timersub (clocktime p (nclocktime p)) (maxStaleness p)"
  have l: "pt_list ?p = pt_list p" "pt_wf ?p = pt_wf p" by (auto simp: pt_list_def slot_def pt_count_def pt_wf_def)
  have "length (takeWhile (stale ?b) (pt_list p)) \<le> pt_count p" using length_takeWhile_le[of _ "pt_list p"] by simp
  then have r: "length (pendingUnpins ?p) + length (takeWhile (stale ?b) (pt_list ?p)) \<le> MAX_PINS" using assms(2) l by simp
  have w: "pt_wf ?p" "stamp_sorted (pt_list ?p)" "\<forall>e \<in> set (pt_list ?p). 0 \<le> eref e"
    using assms(1) unfolding l pt_ok_def by blast+
  obtain q where "PT_Clean_loop ?b ?p (tail ?p) = Some q" using Clean_loop_list[OF w r] by blast
  then show ?thesis by (simp add: PT_Clean_def gettimeofday_def)
qed

lemma Flush_loop_Some:
  "PT_Flush_loop p = Some p' \<Longrightarrow> pt_wf p \<Longrightarrow> pt_wf p' \<and> pt_list p' = [] \<and> pendingUnpins p' = pendingUnpins p @ map epin (pt_list p) \<and>
     (\<forall>e \<in> set (pt_list p). eref e = 0) \<and> (length (pendingUnpins p) \<le> MAX_PINS \<longrightarrow> length (pendingUnpins p') \<le> MAX_PINS)"
proof (induction "pt_list p" arbitrary: p)
  case Nil
  then have "tail p = head p" using head_tail by metis
  with Nil show ?case by (auto simp: PT_Flush_loop.simps)
next
  case (Cons e es)
  then have "tail p \<noteq> head p" using head_tail by (metis list.distinct(1))
  then obtain p1 where p1: "PT_RemoveTail p = Some p1" "PT_Flush_loop p1 = Some p'"
    using Cons.prems(1) by (subst (asm) PT_Flush_loop.simps) (auto simp: bind_eq_Some_conv)
  obtain e' es' where r: "pt_list p = e' # es'" "eref e' = 0" "length (pendingUnpins p) < MAX_PINS" "pt_wf p1" "pt_list p1 = es'"
    "pendingUnpins p1 = pendingUnpins p @ [epin e']" by (rule RemoveTail_Some[OF p1(1) Cons.prems(2)])
  then have "es = pt_list p1" using Cons.hyps(2) by simp
  from Cons.hyps(1)[OF this p1(2) r(4)] r show ?case by auto
qed

lemma sorted_update:
  fixes xs :: "'a :: linorder list"
  assumes "sorted xs" "j < length xs" "0 < j \<Longrightarrow> xs ! (j - 1) \<le> y" "Suc j < length xs \<Longrightarrow> y \<le> xs ! Suc j"
  shows "sorted (xs[j := y])"
  unfolding sorted_iff_nth_Suc
proof (intro allI impI)
  fix i assume "Suc i < length (xs[j := y])"
  then show "xs[j := y] ! i \<le> xs[j := y] ! Suc i"
    using assms by (auto simp: nth_list_update sorted_iff_nth_Suc)
qed

lemma place_props:
  assumes "stamp_sorted xs"
  shows "stamp_sorted (place e xs)" "set (place e xs) = insert e (set xs)"
    "distinct (map epin (place e xs)) \<longleftrightarrow> epin e \<notin> epin ` set xs \<and> distinct (map epin xs)"
proof -
  let ?P = "\<lambda>x. tkey (timestamp x) < tkey (timestamp e)"
  have x: "xs = takeWhile ?P xs @ dropWhile ?P xs" by simp
  have "\<forall>x \<in> set (takeWhile ?P xs). tkey (timestamp x) \<le> tkey (timestamp e)" by (auto dest: set_takeWhileD)
  moreover have "\<forall>x \<in> set (dropWhile ?P xs). tkey (timestamp e) \<le> tkey (timestamp x)"
  proof (cases "dropWhile ?P xs")
    case (Cons y ys)
    then have "\<not> ?P y" by (metis hd_dropWhile list.distinct(1) list.sel(1))
    moreover have "stamp_sorted (dropWhile ?P xs)" using assms x by (metis map_append sorted_append)
    ultimately show ?thesis unfolding Cons by (auto simp: not_less)
  next
    case Nil
    show ?thesis unfolding Nil by simp
  qed
  moreover have "stamp_sorted (takeWhile ?P xs @ dropWhile ?P xs)" using assms by simp
  moreover have "stamp_sorted (us @ e # vs)" if "stamp_sorted (us @ vs)" "\<forall>x \<in> set us. tkey (timestamp x) \<le> tkey (timestamp e)"
      "\<forall>x \<in> set vs. tkey (timestamp e) \<le> tkey (timestamp x)" for us vs
    using that by (auto simp: sorted_append)
  ultimately show "stamp_sorted (place e xs)" unfolding place_def by blast
  have sx: "set (takeWhile ?P xs) \<union> set (dropWhile ?P xs) = set xs" by (metis set_append takeWhile_dropWhile_id)
  show "set (place e xs) = insert e (set xs)" unfolding place_def sx[symmetric] by auto
  have "distinct (map epin (us @ e # vs)) \<longleftrightarrow> distinct (map epin (e # us @ vs))" for us vs by auto
  then have "distinct (map epin (place e xs)) \<longleftrightarrow> distinct (map epin (e # takeWhile ?P xs @ dropWhile ?P xs))"
    unfolding place_def by blast
  then show "distinct (map epin (place e xs)) \<longleftrightarrow> epin e \<notin> epin ` set xs \<and> distinct (map epin xs)" by simp
qed

lemma place_nth: "place e xs ! length (takeWhile (\<lambda>x. tkey (timestamp x) < tkey (timestamp e)) xs) = e"
  by (simp add: place_def nth_append)

lemma Insert_pin_new:
  assumes "pt_ok p" "pt_count p < MAX_PINS - 1" "pn \<notin> epin ` set (pt_list p)" and e_def: "e = \<lparr>epin = pn, timestamp = ts, eref = 0\<rparr>"
  obtains p' j where "PT_Insert_pin p ts pn = Some (p', slot p' (Suc j))" "pt_ok p'" "pt_list p' = place e (pt_list p)"
    "j < pt_count p'" "pt_list p' ! j = e" "pendingUnpins p' = pendingUnpins p" "nclocktime p' = nclocktime p" "pt_same p p'"
proof -
  have w: "pt_wf p" and srt: "stamp_sorted (pt_list p)" using assms(1) by (auto simp: pt_ok_def)
  have f: "PT_FindPin p pn = Some None" using FindPin_list[OF w, of pn] assms(3) by (metis imageI length_pt_list nth_mem)
  let ?q = "p\<lparr>head := pt_add (head p) (Suc 0)\<rparr>"
  have hd: "pt_add (head p) (Suc 0) = slot p (Suc (pt_count p))" using slot_add[of p "pt_count p"] slot_count[OF w] by simp
  have q: "pt_wf ?q" "slot ?q = slot p" using w hd by (auto simp: pt_wf_def slot_def fun_eq_iff)
  have c: "pt_count ?q = Suc (pt_count p)"
    using w assms(2) by (auto simp: pt_count_def ptr_sub_def pt_wf_def pt_add_def)
  obtain r where r: "pt_set ?q (slot p (Suc (pt_count p))) e = Some r" "r = ?q\<lparr>table := (table ?q)[slot p (Suc (pt_count p)) := e]\<rparr>"
      "pt_wf r" "pt_list r = (pt_list ?q)[pt_count p := e]" "slot r = slot p" "pt_count r = Suc (pt_count p)"
    using pt_set_slot[OF q(1), of "Suc (pt_count p)" e] c q(2) by auto
  have "take (pt_count p) (pt_list ?q) = pt_list p" by (rule nth_equalityI) (simp_all add: c pt_list_def q)
  then have l: "pt_list r = take (pt_count p) (pt_list p) @ e # drop (pt_count p) (pt_list p)"
    using r(4) c by (simp add: upd_conv_take_nth_drop)
  obtain t j where b: "PT_Insert_bubble r (slot r (pt_count p)) (slot r (Suc (pt_count p))) = Some (r\<lparr>table := t\<rparr>, slot r (Suc j))"
      "pt_wf (r\<lparr>table := t\<rparr>)" "pt_list (r\<lparr>table := t\<rparr>) = place e (pt_list p)"
      "j = length (takeWhile (\<lambda>x. tkey (timestamp x) < tkey (timestamp e)) (pt_list p))"
    using Insert_bubble_list[OF r(3) _ l srt] by auto
  have h: "head r = slot p (Suc (pt_count p))" "tail r = tail p" using r(2) hd by auto
  have s: "slot (r\<lparr>table := t\<rparr>) = slot r" by (auto simp: slot_def fun_eq_iff)
  have "PT_Insert_pin p ts pn = Some (r\<lparr>table := t\<rparr>, slot (r\<lparr>table := t\<rparr>) (Suc j))"
    using f hd r(1,5) b(1) h slot_sub[of "Suc (pt_count p)" p] by (simp add: PT_Insert_pin_def e_def s)
  moreover have "pt_ok (r\<lparr>table := t\<rparr>)"
    using assms(1,3) b(2) place_props[OF srt, of e] unfolding pt_ok_def b(3) by (auto simp: e_def r(2))
  moreover note b(3)
  moreover have "j < pt_count (r\<lparr>table := t\<rparr>)" using arg_cong[OF b(3), of length] b(4) by (simp add: place_def)
  moreover have "pt_list (r\<lparr>table := t\<rparr>) ! j = e" unfolding b(3,4) by (rule place_nth)
  ultimately show thesis by (rule that) (auto simp: r(2) pt_same_def)
qed

lemma Insert_pin_old:
  assumes "pt_ok p" "j < pt_count p" "epin (pt_list p ! j) = pn"
  shows "PT_Insert_pin p ts pn =
      (if (0 < j \<longrightarrow> tkey (timestamp (pt_list p ! (j - 1))) \<le> tkey ts) \<and> (Suc j < pt_count p \<longrightarrow> tkey ts \<le> tkey (timestamp (pt_list p ! Suc j)))
       then Some (p\<lparr>table := (table p)[slot p (Suc j) := (pt_list p ! j)\<lparr>timestamp := ts\<rparr>]\<rparr>, slot p (Suc j)) else None)"
    "pt_list (p\<lparr>table := (table p)[slot p (Suc j) := (pt_list p ! j)\<lparr>timestamp := ts\<rparr>]\<rparr>) = (pt_list p)[j := (pt_list p ! j)\<lparr>timestamp := ts\<rparr>]"
    "pt_wf (p\<lparr>table := (table p)[slot p (Suc j) := (pt_list p ! j)\<lparr>timestamp := ts\<rparr>]\<rparr>)"
    "slot (p\<lparr>table := (table p)[slot p (Suc j) := (pt_list p ! j)\<lparr>timestamp := ts\<rparr>]\<rparr>) = slot p"
proof -
  have w: "pt_wf p" and d: "distinct (map epin (pt_list p))" using assms(1) by (auto simp: pt_ok_def)
  have f: "PT_FindPin p pn = Some (Some (slot p (Suc j)))" using FindPin_Some[OF w d assms(2)] assms(3) by simp
  obtain q where q: "pt_set p (slot p (Suc j)) ((pt_list p ! j)\<lparr>timestamp := ts\<rparr>) = Some q"
      "q = p\<lparr>table := (table p)[slot p (Suc j) := (pt_list p ! j)\<lparr>timestamp := ts\<rparr>]\<rparr>" "pt_wf q"
      "pt_list q = (pt_list p)[j := (pt_list p ! j)\<lparr>timestamp := ts\<rparr>]" "slot q = slot p"
    using pt_set_slot[OF w, of "Suc j" "(pt_list p ! j)\<lparr>timestamp := ts\<rparr>"] assms(2) by auto
  have g: "pt_get p (slot p (Suc j)) = Some (pt_list p ! j)" "pt_sub (slot p (Suc j)) (Suc 0) = slot p j"
      "pt_add (slot p (Suc j)) (Suc 0) = slot p (Suc (Suc j))" "slot p j \<noteq> tail p \<longleftrightarrow> 0 < j" "slot p (Suc j) \<noteq> head p \<longleftrightarrow> Suc j < pt_count p"
    using pt_get_slot[OF w, of "Suc j"] slot_sub[of "Suc j" p] slot_add[of p "Suc j"] slot_tail[OF w, of j] slot_head[OF w, of "Suc j"] assms(2) by auto
  have p: "0 < j \<Longrightarrow> pt_get p (slot p j) = Some (pt_list p ! (j - 1))" using pt_get_slot[OF w, of j] assms(2) by simp
  have n: "Suc j < pt_count p \<Longrightarrow> pt_get p (slot p (Suc (Suc j))) = Some (pt_list p ! Suc j)" using pt_get_slot[OF w, of "Suc (Suc j)"] by simp
  have le: "x < y \<or> x = y \<longleftrightarrow> x \<le> y" for x y :: "int \<times> int" by (simp add: order_le_less)
  show "PT_Insert_pin p ts pn =
      (if (0 < j \<longrightarrow> tkey (timestamp (pt_list p ! (j - 1))) \<le> tkey ts) \<and> (Suc j < pt_count p \<longrightarrow> tkey ts \<le> tkey (timestamp (pt_list p ! Suc j)))
       then Some (p\<lparr>table := (table p)[slot p (Suc j) := (pt_list p ! j)\<lparr>timestamp := ts\<rparr>]\<rparr>, slot p (Suc j)) else None)"
    using f g q(1,2) p n by (cases "0 < j"; cases "Suc j < pt_count p") (simp_all add: PT_Insert_pin_def Let_def Assert_def le)
  show "pt_list (p\<lparr>table := (table p)[slot p (Suc j) := (pt_list p ! j)\<lparr>timestamp := ts\<rparr>]\<rparr>) = (pt_list p)[j := (pt_list p ! j)\<lparr>timestamp := ts\<rparr>]"
    "pt_wf (p\<lparr>table := (table p)[slot p (Suc j) := (pt_list p ! j)\<lparr>timestamp := ts\<rparr>]\<rparr>)"
    "slot (p\<lparr>table := (table p)[slot p (Suc j) := (pt_list p ! j)\<lparr>timestamp := ts\<rparr>]\<rparr>) = slot p"
    using q by simp_all
qed

text \<open>The list after an insertion.\<close>

definition inserted :: "timeval \<Rightarrow> pin_t \<Rightarrow> PT_Entry_t list \<Rightarrow> PT_Entry_t list" where
  "inserted ts pn es =
     (if pn \<in> epin ` set es then map (\<lambda>e. if epin e = pn then e\<lparr>timestamp := ts\<rparr> else e) es
      else place \<lparr>epin = pn, timestamp = ts, eref = 0\<rparr> es)"

lemma map_update_distinct:
  assumes "distinct (map epin es)" "j < length es"
  shows "es[j := (es ! j)\<lparr>timestamp := ts\<rparr>] = map (\<lambda>e. if epin e = epin (es ! j) then e\<lparr>timestamp := ts\<rparr> else e) es"
proof (rule nth_equalityI)
  fix i assume "i < length (es[j := (es ! j)\<lparr>timestamp := ts\<rparr>])"
  moreover from this have "epin (es ! i) = epin (es ! j) \<longleftrightarrow> i = j"
    using assms nth_eq_iff_index_eq[of "map epin es" i j] by simp
  ultimately show "es[j := (es ! j)\<lparr>timestamp := ts\<rparr>] ! i = map (\<lambda>e. if epin e = epin (es ! j) then e\<lparr>timestamp := ts\<rparr> else e) es ! i"
    by (simp add: nth_list_update)
qed simp

lemma Insert_pin_Some:
  assumes "PT_Insert_pin p ts pn = Some (p', i)" "pt_ok p" "pt_count p < MAX_PINS - 1"
  obtains j where "pt_ok p'" "pt_list p' = inserted ts pn (pt_list p)" "i = slot p' (Suc j)" "j < pt_count p'" "epin (pt_list p' ! j) = pn"
    "pendingUnpins p' = pendingUnpins p" "nclocktime p' = nclocktime p" "pt_same p p'"
proof (cases "pn \<in> epin ` set (pt_list p)")
  case False
  obtain q j where q: "PT_Insert_pin p ts pn = Some (q, slot q (Suc j))" "pt_ok q" "pt_list q = place \<lparr>epin = pn, timestamp = ts, eref = 0\<rparr> (pt_list p)"
    "j < pt_count q" "pt_list q ! j = \<lparr>epin = pn, timestamp = ts, eref = 0\<rparr>" "pendingUnpins q = pendingUnpins p" "nclocktime q = nclocktime p" "pt_same p q"
    using Insert_pin_new[OF assms(2,3) False refl] by blast
  then show thesis using that[of j] assms(1) False by (simp add: inserted_def)
next
  case True
  then obtain j where j: "j < pt_count p" "epin (pt_list p ! j) = pn" by (auto simp: in_set_conv_nth)
  let ?e = "(pt_list p ! j)\<lparr>timestamp := ts\<rparr>"
  let ?p = "p\<lparr>table := (table p)[slot p (Suc j) := ?e]\<rparr>"
  note o = Insert_pin_old[OF assms(2) j, of ts]
  have p': "p' = ?p" "i = slot p (Suc j)" and c: "0 < j \<Longrightarrow> tkey (timestamp (pt_list p ! (j - 1))) \<le> tkey ts"
      "Suc j < pt_count p \<Longrightarrow> tkey ts \<le> tkey (timestamp (pt_list p ! Suc j))"
    using assms(1) o(1) by (auto split: if_splits)
  have w: "stamp_sorted (pt_list p)" "distinct (map epin (pt_list p))" "\<forall>e \<in> set (pt_list p). 0 \<le> eref e" "length (pendingUnpins p) \<le> MAX_PINS"
    using assms(2) by (auto simp: pt_ok_def)
  have "stamp_sorted ((pt_list p)[j := ?e])"
    using sorted_update[OF w(1), of j "tkey ts"] j(1) c by (simp add: map_update)
  moreover have "map epin ((pt_list p)[j := ?e]) = map epin (pt_list p)"
    using j(1) by (simp add: map_update list_update_same_conv)
  moreover have "\<forall>e \<in> set ((pt_list p)[j := ?e]). 0 \<le> eref e"
    using w(3) j(1) by (auto dest!: set_update_subset_insert[THEN subsetD])
  ultimately have "pt_ok p'" using o(2,3) w unfolding p' pt_ok_def by auto
  moreover have "pt_list p' = inserted ts pn (pt_list p)"
    using True map_update_distinct[OF w(2), of j ts] j o(2) unfolding p' inserted_def by simp
  moreover have "i = slot p' (Suc j)" "j < pt_count p'" "epin (pt_list p' ! j) = pn"
    using o(2,4) j unfolding p' by (auto simp: pt_count_def)
  ultimately show thesis by (rule that) (auto simp: p' pt_same_def)
qed

lemma Insert_room_Some:
  assumes "PT_Insert_room p = Some p'" "pt_ok p"
  obtains us where "pt_list p = us @ pt_list p'" "\<forall>e \<in> set us. eref e = 0" "pt_ok p'" "pt_count p' < MAX_PINS - 1"
    "pendingUnpins p' = pendingUnpins p @ map epin us" "pt_same p p'"
proof -
  obtain p1 where p1: "(if pt_count p = MAX_PINS - 1 then PT_Clean p else Some p) = Some p1"
      "(if pt_count p1 = MAX_PINS - 1 then do { e \<leftarrow> pt_get p1 (pt_add (tail p1) 1); Assert (\<not> eref e > 0); PT_RemoveTail p1 } else Some p1) = Some p'"
    using assms(1) by (auto simp: PT_Insert_room_def pt_count_def bind_eq_Some_conv)
  obtain us1 where u: "pt_list p = us1 @ pt_list p1" "\<forall>e \<in> set us1. eref e = 0" "pt_ok p1" "pendingUnpins p1 = pendingUnpins p @ map epin us1" "pt_same p p1"
  proof (cases "pt_count p = MAX_PINS - 1")
    case True
    then have c: "PT_Clean p = Some p1" using p1(1) by simp
    let ?b = "timersub (clocktime p (nclocktime p)) (maxStaleness p)"
    show thesis
      by (rule that[of "takeWhile (stale ?b) (pt_list p)"])
        (use Clean_Some[OF c assms(2)] in \<open>auto dest: set_takeWhileD\<close>)
  next
    case False
    then show thesis using that[of "[]"] p1(1) assms(2) by simp
  qed
  show thesis
  proof (cases "pt_count p1 = MAX_PINS - 1")
    case True
    then have r: "PT_RemoveTail p1 = Some p'" using p1(2) by (auto simp: bind_eq_Some_conv)
    have w: "pt_wf p1" using u(3) by (simp add: pt_ok_def)
    obtain e es where e: "pt_list p1 = e # es" "eref e = 0" "length (pendingUnpins p1) < MAX_PINS" "pt_wf p'" "pt_list p' = es"
        "pendingUnpins p' = pendingUnpins p1 @ [epin e]" "pt_same p1 p'" by (rule RemoveTail_Some[OF r w])
    have "pt_ok p'" using u(3) e by (auto simp: pt_ok_def)
    moreover have "pt_count p' < MAX_PINS - 1" using True e(1,5) by (metis length_Cons length_pt_list lessI)
    ultimately show thesis using e u by (intro that[of "us1 @ [e]"]) (auto intro: pt_same_trans)
  next
    case False
    then have "pt_count p1 < MAX_PINS - 1" using count_lt[of p1] u(3) by (auto simp: pt_ok_def)
    with False p1(2) u show thesis by (intro that[of us1]) auto
  qed
qed

lemma Insert_Some:
  assumes "PT_Insert p ts pn = Some (p', i)" "pt_ok p"
  obtains us es j where "pt_list p = us @ es" "\<forall>e \<in> set us. eref e = 0" "pt_ok p'" "pt_list p' = inserted ts pn es" "i = slot p' (Suc j)"
    "j < pt_count p'" "epin (pt_list p' ! j) = pn" "pendingUnpins p' = pendingUnpins p @ map epin us" "pt_same p p'"
proof -
  obtain p1 where p1: "PT_Insert_room p = Some p1" "PT_Insert_pin p1 ts pn = Some (p', i)"
    using assms(1) by (auto simp: PT_Insert_def bind_eq_Some_conv)
  obtain us where us: "pt_list p = us @ pt_list p1" "\<forall>e \<in> set us. eref e = 0" "pt_ok p1" "pt_count p1 < MAX_PINS - 1"
    "pendingUnpins p1 = pendingUnpins p @ map epin us" "pt_same p p1" by (rule Insert_room_Some[OF p1(1) assms(2)])
  obtain j where "pt_ok p'" "pt_list p' = inserted ts pn (pt_list p1)" "i = slot p' (Suc j)" "j < pt_count p'" "epin (pt_list p' ! j) = pn"
    "pendingUnpins p' = pendingUnpins p1" "pt_same p1 p'" by (rule Insert_pin_Some[OF p1(2) us(3,4)])
  with us show thesis by (intro that[of us "pt_list p1" j]) (auto intro: pt_same_trans)
qed

section \<open>Reading the table\<close>

abbreviation fresh :: "timeval \<Rightarrow> PT_Entry_t \<Rightarrow> bool" where
  "fresh bound e \<equiv> tkey bound \<le> tkey (timestamp e)"

lemma Find_loop:
  assumes "pt_wf p" "stamp_sorted (pt_list p)" "k < pt_count p" "\<forall>e \<in> set (drop k (pt_list p)). fresh bound e"
  shows "PT_Find_loop p bound (slot p k) (slot p (Suc k)) (pt_count p - k) =
    Some (length (filter (fresh bound) (pt_list p)), slot p (Suc (pt_count p - length (filter (fresh bound) (pt_list p)))))"
  using assms(3,4)
proof (induction k)
  case 0
  then have "filter (fresh bound) (pt_list p) = pt_list p" by (simp add: filter_id_conv)
  then show ?case using slot_0[OF assms(1)] by (subst PT_Find_loop.simps) simp
next
  case (Suc k)
  have g: "pt_get p (slot p (Suc k)) = Some (pt_list p ! k)" "slot p (Suc k) \<noteq> tail p" "pt_sub (slot p (Suc k)) (Suc 0) = slot p k"
    using pt_get_slot[OF assms(1), of "Suc k"] slot_tail[OF assms(1), of "Suc k"] slot_sub[of "Suc k" p] Suc.prems by auto
  have d: "drop k (pt_list p) = pt_list p ! k # drop (Suc k) (pt_list p)" using Suc.prems(1) by (simp add: Cons_nth_drop_Suc)
  show ?case
  proof (cases "fresh bound (pt_list p ! k)")
    case True
    then have "\<forall>e \<in> set (drop k (pt_list p)). fresh bound e" using Suc.prems(2) d by simp
    moreover have "pt_count p - Suc k + 1 = pt_count p - k" using Suc.prems(1) by simp
    ultimately show ?thesis using Suc.IH Suc.prems(1) g True by (subst PT_Find_loop.simps) (simp add: not_less)
  next
    case False
    have "\<not> fresh bound e" if a: "e \<in> set (take (Suc k) (pt_list p))" for e
    proof -
      obtain j where j: "j \<le> k" "e = pt_list p ! j" using a Suc.prems(1) by (auto simp: in_set_conv_nth less_Suc_eq_le)
      then have "tkey (timestamp e) \<le> tkey (timestamp (pt_list p ! k))"
        using assms(2) Suc.prems(1) sorted_nth_mono[of "map (\<lambda>e. tkey (timestamp e)) (pt_list p)" j k] by simp
      with False show ?thesis by auto
    qed
    then have "filter (fresh bound) (take (Suc k) (pt_list p)) = []" by (simp add: filter_empty_conv)
    moreover have "filter (fresh bound) (drop (Suc k) (pt_list p)) = drop (Suc k) (pt_list p)" using Suc.prems(2) by (simp add: filter_id_conv)
    ultimately have "filter (fresh bound) (pt_list p) = drop (Suc k) (pt_list p)"
      by (metis append_Nil append_take_drop_id filter_append)
    then show ?thesis using g False Suc.prems(1) by (subst PT_Find_loop.simps) (auto simp: not_le)
  qed
qed

lemma sorted_le_last: "sorted (map f xs) \<Longrightarrow> x \<in> set xs \<Longrightarrow> f x \<le> f (last xs)"
  by (induction xs) auto

lemma Find_list:
  assumes "pt_ok p"
  defines "b \<equiv> \<lambda>lb. timersub (clocktime p (nclocktime p)) lb"
  shows "PT_Find p lb = Some (p\<lparr>nclocktime := Suc (nclocktime p)\<rparr>, length (filter (fresh (b lb)) (pt_list p)),
    if filter (fresh (b lb)) (pt_list p) = [] then None else Some (slot p (Suc (pt_count p - length (filter (fresh (b lb)) (pt_list p))))))"
proof -
  let ?q = "p\<lparr>nclocktime := Suc (nclocktime p)\<rparr>"
  have w: "pt_wf ?q" "stamp_sorted (pt_list ?q)" and s: "slot ?q = slot p" "pt_list ?q = pt_list p" "pt_count ?q = pt_count p"
    using assms(1) by (auto simp: pt_ok_def pt_wf_def pt_list_def slot_def pt_count_def fun_eq_iff)
  show ?thesis
  proof (cases "pt_list p = []")
    case True
    then have "head ?q = tail ?q" using head_tail[OF w(1)] s by simp
    then show ?thesis using True by (simp add: PT_Find_def gettimeofday_def)
  next
    case False
    then have c: "0 < pt_count p" "head ?q \<noteq> tail ?q" using head_tail[OF w(1)] s by (auto simp flip: length_pt_list)
    have hd: "slot p (pt_count p) = head p" using slot_count[of p] assms(1) by (simp add: pt_ok_def)
    have g: "pt_get ?q (head p) = Some (last (pt_list p))" "pt_sub (head p) (Suc 0) = slot p (pt_count p - 1)"
      using pt_get_slot[OF w(1), of "pt_count p"] c(1) s hd slot_sub[of "pt_count p" p] False by (auto simp: last_conv_nth)
    show ?thesis
    proof (cases "fresh (b lb) (last (pt_list p))")
      case True
      have d: "drop (pt_count p - 1) (pt_list p) = [last (pt_list p)]"
        using False c(1) by (metis append_butlast_last_id append_eq_conv_conj length_butlast length_pt_list)
      have "filter (fresh (b lb)) (pt_list p) \<noteq> []" using True False by (auto simp: filter_empty_conv)
      with True Find_loop[OF w, of "pt_count p - 1" "b lb"] show ?thesis
        using c g d hd unfolding s by (simp add: PT_Find_def gettimeofday_def b_def not_less Let_def)
    next
      case f: False
      have "e \<in> set (pt_list p) \<Longrightarrow> tkey (timestamp e) \<le> tkey (timestamp (last (pt_list p)))" for e
        using sorted_le_last[OF w(2)] unfolding s by blast
      with f have "filter (fresh (b lb)) (pt_list p) = []" by (force simp: filter_empty_conv)
      then show ?thesis using f c(2) g(1) by (simp add: PT_Find_def gettimeofday_def b_def not_le Let_def)
    qed
  qed
qed

lemma GetEntry_slot:
  assumes "pt_wf p" "i < pt_count p"
  shows "PT_GetEntry p (int i) = Some (slot p (pt_count p - i))"
proof -
  have "slot p (pt_count p - i) = (if head p < i then head p + MAX_PINS - i else head p - i)"
    using assms by (auto simp: slot_def pt_count_def ptr_sub_def pt_wf_def mod_if)
  then show ?thesis using assms by (auto simp: PT_GetEntry_def pt_count_def nat_diff_distrib')
qed

section \<open>References\<close>

definition set_ref :: "PT_Entry_t list \<Rightarrow> nat \<Rightarrow> int \<Rightarrow> PT_Entry_t list" where
  "set_ref es j n = es[j := (es ! j)\<lparr>eref := n\<rparr>]"

lemma set_ref_simps [simp]:
  "length (set_ref es j n) = length es"
  "map epin (set_ref es j n) = map epin es"
  "map timestamp (set_ref es j n) = map timestamp es"
proof -
  have "(map f es)[j := f (es ! j)] = map f es" for f :: "PT_Entry_t \<Rightarrow> 'c"
    by (cases "j < length es") (simp_all add: list_update_same_conv list_update_beyond)
  then show "map epin (set_ref es j n) = map epin es" "map timestamp (set_ref es j n) = map timestamp es"
    by (simp_all add: set_ref_def map_update)
qed (simp add: set_ref_def)

lemma set_ref_ok:
  assumes "pt_ok p" "pt_wf p'" "pt_list p' = set_ref (pt_list p) j n" "0 \<le> n" "pendingUnpins p' = pendingUnpins p"
  shows "pt_ok p'"
proof -
  have "map (\<lambda>e. tkey (timestamp e)) (pt_list p') = map (\<lambda>e. tkey (timestamp e)) (pt_list p)"
    using arg_cong[OF set_ref_simps(3)[of "pt_list p" j n], of "map tkey"] unfolding assms(3) map_map comp_def .
  moreover have "\<forall>e \<in> set (pt_list p'). 0 \<le> eref e"
    using assms(1,3,4) by (auto simp: set_ref_def pt_ok_def dest!: set_update_subset_insert[THEN subsetD])
  ultimately show ?thesis using assms by (simp add: pt_ok_def)
qed

lemma set_slot_ref:
  assumes "pt_wf p" "j < pt_count p"
  shows "\<exists>q. pt_set p (slot p (Suc j)) ((pt_list p ! j)\<lparr>eref := n\<rparr>) = Some q \<and> pt_wf q \<and> pt_list q = set_ref (pt_list p) j n \<and>
    pendingUnpins q = pendingUnpins p \<and> nclocktime q = nclocktime p \<and> pt_same p q"
  using pt_set_slot[OF assms(1), of "Suc j" "(pt_list p ! j)\<lparr>eref := n\<rparr>"] assms(2) by (auto simp: set_ref_def pt_same_def)

lemma AddRef_list:
  assumes "pt_ok p" "j < pt_count p"
  obtains p' where "PT_AddRef p (slot p (Suc j)) = Some p'" "pt_ok p'" "pt_list p' = set_ref (pt_list p) j (eref (pt_list p ! j) + 1)"
    "pendingUnpins p' = pendingUnpins p" "pt_same p p'"
proof -
  have w: "pt_wf p" using assms(1) by (simp add: pt_ok_def)
  obtain q where q: "pt_set p (slot p (Suc j)) ((pt_list p ! j)\<lparr>eref := eref (pt_list p ! j) + 1\<rparr>) = Some q" "pt_wf q"
      "pt_list q = set_ref (pt_list p) j (eref (pt_list p ! j) + 1)" "pendingUnpins q = pendingUnpins p" "pt_same p q"
    using set_slot_ref[OF w assms(2)] by metis
  define l where "l = (if ptr_sub (slot p (Suc j)) (tail q) < ptr_sub (last_ref q) (tail q) then slot p (Suc j) else last_ref q)"
  have r: "PT_AddRef p (slot p (Suc j)) = Some (q\<lparr>last_ref := l\<rparr>)"
    using q(1) pt_get_slot[OF w, of "Suc j"] assms(2) by (simp add: PT_AddRef_def l_def)
  have l: "pt_list (q\<lparr>last_ref := l\<rparr>) = pt_list q" "pt_wf (q\<lparr>last_ref := l\<rparr>) = pt_wf q"
    by (auto simp: pt_list_def slot_def pt_count_def pt_wf_def)
  have "0 \<le> eref (pt_list p ! j) + 1" using assms by (auto simp: pt_ok_def)
  then have "pt_ok (q\<lparr>last_ref := l\<rparr>)" using set_ref_ok[OF assms(1), of "q\<lparr>last_ref := l\<rparr>"] q l by simp
  with r show thesis by (rule that) (use q l in \<open>simp_all add: pt_same_def\<close>)
qed

lemma RemoveRef_Some:
  assumes "PT_RemoveRef p (Some (slot p (Suc j))) = Some p'" "pt_ok p" "j < pt_count p" "1 \<le> eref (pt_list p ! j)"
  obtains us where "set_ref (pt_list p) j (eref (pt_list p ! j) - 1) = us @ pt_list p'" "\<forall>e \<in> set us. eref e = 0" "pt_ok p'"
    "pendingUnpins p' = pendingUnpins p @ map epin us" "pt_same p p'"
proof -
  have w: "pt_wf p" using assms(2) by (simp add: pt_ok_def)
  obtain q where q: "pt_set p (slot p (Suc j)) ((pt_list p ! j)\<lparr>eref := eref (pt_list p ! j) - 1\<rparr>) = Some q" "pt_wf q"
      "pt_list q = set_ref (pt_list p) j (eref (pt_list p ! j) - 1)" "pendingUnpins q = pendingUnpins p" "pt_same p q"
    using set_slot_ref[OF w assms(3)] by metis
  have c: "PT_Clean q = Some p'"
    using assms(1,4) q(1) pt_get_slot[OF w, of "Suc j"] assms(3) by (simp add: PT_RemoveRef_def)
  have "pt_ok q" using set_ref_ok[OF assms(2) q(2,3) _ q(4)] assms(4) by simp
  let ?b = "timersub (clocktime q (nclocktime q)) (maxStaleness q)"
  note r = Clean_Some[OF c \<open>pt_ok q\<close>]
  show thesis
    by (rule that[of "takeWhile (stale ?b) (pt_list q)"]) (use q r in \<open>auto dest: set_takeWhileD intro: pt_same_trans\<close>)
qed

lemma RemoveRef_total:
  assumes "pt_ok p" "j < pt_count p" "length (pendingUnpins p) + pt_count p \<le> MAX_PINS"
  shows "PT_RemoveRef p (Some (slot p (Suc j))) \<noteq> None"
proof -
  have w: "pt_wf p" using assms(1) by (simp add: pt_ok_def)
  obtain q where q: "pt_set p (slot p (Suc j)) ((pt_list p ! j)\<lparr>eref := eref (pt_list p ! j) - 1\<rparr>) = Some q" "pt_wf q"
      "pt_list q = set_ref (pt_list p) j (eref (pt_list p ! j) - 1)" "pendingUnpins q = pendingUnpins p"
    using set_slot_ref[OF w assms(2)] by metis
  have "pt_ok q" if "\<not> eref (pt_list p ! j) < 1" using set_ref_ok[OF assms(1) q(2,3) _ q(4)] that by simp
  moreover have "pt_count q = pt_count p" using arg_cong[OF q(3), of length] by simp
  ultimately show ?thesis
    using Clean_total[OF assms(1,3)] Clean_total[of q] q(1,4) pt_get_slot[OF w, of "Suc j"] assms(2,3) by (simp add: PT_RemoveRef_def)
qed

section \<open>Properties\<close>

lemma fmt_llu_length: "0 < k \<Longrightarrow> n < 10 ^ k \<Longrightarrow> length (fmt_llu n) \<le> k"
proof (induction n arbitrary: k rule: fmt_llu.induct)
  case (1 n)
  show ?case
  proof (cases "n < 10")
    case False
    then obtain m where m: "k = Suc m" "0 < m" using 1(2,3) by (cases k; cases "k - 1") auto
    then have "length (fmt_llu (n div 10)) \<le> m" using 1 False by (intro 1(1)) auto
    then show ?thesis using False m by (subst fmt_llu.simps) simp
  qed (use 1 in \<open>simp add: fmt_llu.simps\<close>)
qed

lemma fmt_d_length: "length (fmt_d n) \<le> 11"
proof -
  have "- (2 ^ 31) \<le> sint n" "sint n < 2 ^ 31" using sint_greater_eq[of n] sint_less[of n] by simp_all
  then have "nat (- sint n) < 10 ^ 10" "nat (sint n) < 10 ^ 10" by simp_all
  then have "length (fmt_llu (nat (- sint n))) \<le> 10" "length (fmt_llu (nat (sint n))) \<le> 10"
    by (auto intro: fmt_llu_length)
  then show ?thesis by (simp add: fmt_d_def)
qed

lemma unpin_sql_length: "length (unpin_sql ps) \<le> length ps * sqlLen"
proof (induction ps)
  case (Cons p ps)
  then show ?case using fmt_d_length[of p] by (simp add: unpin_sql_def sqlLen_def)
qed (simp add: unpin_sql_def)

text \<open>C32: The text of the queued \<open>UNPIN\<close> commands, whatever the pins are, fits into the buffer that \<open>PTOnWrite\<close> allocates
  for it, so the callback returns, and a successful send empties the queue.\<close>

theorem PTOnWrite_fits:
  "PTOnWrite True sent connected p = Some
     (if sent then (p\<lparr>pendingUnpins := [], unpinInFlight := True\<rparr>, Some (unpin_sql (pendingUnpins p)))
      else (if connected then p\<lparr>dbWritable := True\<rparr> else p, None))"
  using unpin_sql_length[of "pendingUnpins p"] by (simp add: PTOnWrite_def)


text \<open>C31: \<open>PT_Insert\<close> keeps the table in order. Whenever it returns, it has removed only unreferenced pins from the old end,
  queued them, and put the pin in its place by time stamp, or updated the time stamp of a pin that was there; the
  returned entry is that of the pin, and the invariant of the table holds again.\<close>

theorem PT_Insert_invariant:
  assumes "pt_ok p" "PT_Insert p ts pn = Some (p', i)"
  shows "pt_ok p' \<and> (\<exists>us es. pt_list p = us @ es \<and> (\<forall>e \<in> set us. eref e = 0) \<and> pendingUnpins p' = pendingUnpins p @ map epin us \<and>
    pt_list p' = inserted ts pn es) \<and>
    (\<exists>e. pt_get p' i = Some e \<and> epin e = pn)"
proof -
  obtain us es j where r: "pt_list p = us @ es" "\<forall>e \<in> set us. eref e = 0" "pt_ok p'" "pt_list p' = inserted ts pn es" "i = slot p' (Suc j)"
    "j < pt_count p'" "epin (pt_list p' ! j) = pn" "pendingUnpins p' = pendingUnpins p @ map epin us"
    by (rule Insert_Some[OF assms(2,1)])
  moreover have "pt_get p' i = Some (pt_list p' ! j)"
    using pt_get_slot[of p' "Suc j"] r(3,5,6) by (simp add: pt_ok_def)
  ultimately show ?thesis by auto
qed

text \<open>A table with two pins; its entries wrap around the end of the array.\<close>

definition table2 :: PinTable_t where
  "table2 = \<lparr>table = (replicate 1024 \<lparr>epin = 0, timestamp = \<lparr>tv_sec = 0, tv_usec = 0\<rparr>, eref = 0\<rparr>)
       [1023 := \<lparr>epin = 7, timestamp = \<lparr>tv_sec = 10, tv_usec = 0\<rparr>, eref = 0\<rparr>,
        0 := \<lparr>epin = 8, timestamp = \<lparr>tv_sec = 20, tv_usec = 5\<rparr>, eref = 1\<rparr>],
     head = 0, tail = 1022, last_ref = 0, pendingUnpins = [], unpinInFlight = False, dbWritable = False,
     maxStaleness = \<lparr>tv_sec = 30, tv_usec = 0\<rparr>, clocktime = (\<lambda>_. \<lparr>tv_sec = 100, tv_usec = 0\<rparr>), nclocktime = 0\<rparr>"

lemma table2_list: "pt_count table2 = 2" "pt_list table2 =
    [\<lparr>epin = 7, timestamp = \<lparr>tv_sec = 10, tv_usec = 0\<rparr>, eref = 0\<rparr>, \<lparr>epin = 8, timestamp = \<lparr>tv_sec = 20, tv_usec = 5\<rparr>, eref = 1\<rparr>]"
proof -
  show c: "pt_count table2 = 2" by (simp add: pt_count_def ptr_sub_def table2_def MAX_PINS_def)
  have "slot table2 (Suc 0) = 1023" "slot table2 (Suc (Suc 0)) = 0" by (simp_all add: slot_def table2_def MAX_PINS_def)
  then show "pt_list table2 =
    [\<lparr>epin = 7, timestamp = \<lparr>tv_sec = 10, tv_usec = 0\<rparr>, eref = 0\<rparr>, \<lparr>epin = 8, timestamp = \<lparr>tv_sec = 20, tv_usec = 5\<rparr>, eref = 1\<rparr>]"
    by (simp add: pt_list_def c upt_rec) (simp add: table2_def)
qed

lemma table2_ok: "pt_ok table2"
  by (simp add: pt_ok_def table2_list tkey_def) (simp add: pt_wf_def table2_def MAX_PINS_def)


theorem PT_Insert_invariant_witness:
  "\<exists>p' i. PT_Insert table2 \<lparr>tv_sec = 15, tv_usec = 0\<rparr> 9 = Some (p', i) \<and> pt_ok p'"
proof -
  have c: "pt_count table2 < MAX_PINS - 1" "9 \<notin> epin ` set (pt_list table2)" by (simp_all add: table2_list MAX_PINS_def)
  then have "PT_Insert_room table2 = Some table2" by (simp add: PT_Insert_room_def pt_count_def)
  moreover obtain p' j where "PT_Insert_pin table2 \<lparr>tv_sec = 15, tv_usec = 0\<rparr> 9 = Some (p', slot p' (Suc j))"
    using Insert_pin_new[OF table2_ok c refl] by blast
  ultimately have "PT_Insert table2 \<lparr>tv_sec = 15, tv_usec = 0\<rparr> 9 = Some (p', slot p' (Suc j))" by (simp add: PT_Insert_def)
  with PT_Insert_invariant[OF table2_ok this] show ?thesis by blast
qed

end
