(* ===== verification/RpcInvariant.thy ===== *)
theory RpcInvariant
  imports RpcService
begin

text \<open>
  Invariants of a service: what every handler and the callback for closed connections keep is kept by the
  callbacks \<open>RPCOnReadable\<close> and \<open>RPCOnWritable\<close> of \<open>src/src/lib/rpc.c\<close> and \<open>src/src/lib/rpcs.c\<close>, whatever bytes arrive.
\<close>

section \<open>New connections\<close>

text \<open>\<open>allocated\<close> is the outcome of \<open>malloc\<close>, \<open>h\<close> what the new memory holds, \<open>cs\<close> the result of \<open>accept\<close>; the other arguments are
  those of \<open>RPC_PrepareHost\<close>. The result is the new connection, if there is one.\<close>

definition RPCSOnConnect ::
  "bool \<Rightarrow> int \<Rightarrow> (size_t \<Rightarrow> nat) \<Rightarrow> nat \<Rightarrow> nat \<Rightarrow> bool \<Rightarrow> 'd host_t \<Rightarrow> 'd host_t option option" where
  "RPCSOnConnect allocated cs r a1 a2 added h = do {
     Assert allocated;
     if cs < 0 then Some None
     else do {
       (h, ok) \<leftarrow> RPC_PrepareHost r a1 a2 added cs True h;
       Some (if ok then Some (h\<lparr>hasHandlers := True\<rparr>) else None)
     }
   }"

lemma OnConnect_new: "RPCSOnConnect allocated cs r a1 a2 added h0 = Some (Some h) \<Longrightarrow> hdata h = None"
  by (auto simp: RPCSOnConnect_def RPC_PrepareHost_def Let_def bind_eq_Some_conv Assert_def split: prod.splits if_splits)

section \<open>Invariants\<close>

text \<open>The input and output of a connection leave alone what a service keeps for it.\<close>

definition same_conn :: "'d host_t \<Rightarrow> 'd host_t \<Rightarrow> bool" where
  "same_conn h h' \<longleftrightarrow> hdata h' = hdata h \<and> onClose h' = onClose h \<and> hsocket h' = hsocket h"

lemma same_conn_refl [simp]: "same_conn h h"
  by (simp add: same_conn_def)

lemma same_conn_buffers [simp]:
  "same_conn h (h'\<lparr>hin := b\<rparr>) = same_conn h h'" "same_conn h (h'\<lparr>hout := b\<rparr>) = same_conn h h'"
  "same_conn h (h'\<lparr>sends := ss\<rparr>) = same_conn h h'" "same_conn h (h'\<lparr>recvs := rs\<rparr>) = same_conn h h'"
  "same_conn h (h'\<lparr>sent := bs\<rparr>) = same_conn h h'" "same_conn h (h'\<lparr>marked := m\<rparr>) = same_conn h h'"
  "same_conn (h\<lparr>hin := b\<rparr>) h' = same_conn h h'" "same_conn (h\<lparr>hout := b\<rparr>) h' = same_conn h h'"
  "same_conn (h\<lparr>sent := bs\<rparr>) h' = same_conn h h'"
  by (simp_all add: same_conn_def)

lemma same_conn_trans: "same_conn h h1 \<Longrightarrow> same_conn h1 h2 \<Longrightarrow> same_conn h h2"
  by (simp add: same_conn_def)

lemma FlushOut_loop_conn: "RPC_FlushOut_loop ss h out block = Some (h', r) \<Longrightarrow> same_conn h h'"
proof (induction ss arbitrary: h out block)
  case (Cons x ss)
  show ?case
  proof (cases x)
    case (Sent n)
    then show ?thesis using Cons.prems by (auto simp: bind_eq_Some_conv Let_def Assert_def split: if_splits dest!: Cons.IH)
  qed (use Cons in \<open>auto split: if_splits\<close>)
qed simp

lemma FlushOut_conn:
  assumes "RPC_FlushOut h block = Some (h', r)"
  shows "same_conn h h'"
proof -
  obtain b rm where 1: "IOBuf_PeekRest (hout h) = Some (b, rm)" "RPC_IsValid h"
    using assms by (auto simp: RPC_FlushOut_def bind_eq_Some_conv)
  show ?thesis
  proof (cases "rm = []")
    case False
    obtain h1 rm1 f where 2: "RPC_FlushOut_loop (sends h) (h\<lparr>hout := b\<rparr>) rm block = Some (h1, rm1, f)"
      using assms 1 False by (auto simp: RPC_FlushOut_def bind_eq_Some_conv Let_def)
    from FlushOut_loop_conn[OF this] have c: "same_conn h h1" by simp
    show ?thesis
      using assms 1 2 False c by (cases f; cases "IOBuf_Shift (hout h1)") (auto simp: RPC_FlushOut_def Let_def split: if_splits)
  qed (use assms 1 in \<open>auto simp: RPC_FlushOut_def\<close>)
qed

lemma Send_conn:
  assumes "RPC_Send h = Some (h', r)"
  shows "same_conn h h'"
proof -
  obtain b where 1: "IOBuf_EndNested (hout h) = Some b" "RPC_IsValid h"
    using assms by (auto simp: RPC_Send_def bind_eq_Some_conv)
  show ?thesis
  proof (cases "IOBuf_Error b = 0")
    case True
    then have "RPC_FlushOut (h\<lparr>hout := b\<rparr>) (\<not> hre h) = Some (h', r)"
      using assms 1 by (auto simp: RPC_Send_def Let_def bind_eq_Some_conv Assert_def split: if_splits)
    from FlushOut_conn[OF this] show ?thesis by simp
  qed (use assms 1 in \<open>auto simp: RPC_Send_def Let_def\<close>)
qed

lemma send_msg_conn: "send_msg h rpc xs = Some (h', r) \<Longrightarrow> same_conn h h'"
  by (auto simp: send_msg_def RPC_Start_def RPC_put_def bind_eq_Some_conv dest!: Send_conn)

lemma FillIn_conn: "RPC_FillIn h = Some (h', r) \<Longrightarrow> same_conn h h'"
  by (cases "recvs h"; cases "hd (recvs h)") (auto simp: RPC_FillIn_def bind_eq_Some_conv split: recv_result.splits)

locale rpc_invariant =
  fixes hs :: "('s, 'd) handlers"
    and cb :: "'s \<Rightarrow> 'd host_t \<Rightarrow> ('s \<times> 'd host_t) option"
    and inv :: "'s \<Rightarrow> 'd host_t \<Rightarrow> bool"
  assumes buffers_keep: "inv s h \<Longrightarrow> same_conn h h' \<Longrightarrow> inv s h'"
    and handlers_keep: "handler_at hs rpc = Some (Some f) \<Longrightarrow> inv s h \<Longrightarrow> RPC_IsValid h \<Longrightarrow> f s h args = Some (s', h') \<Longrightarrow> inv s' h'"
    and release_keeps: "inv s h \<Longrightarrow> RPC_Release cb s h = Some (s', h') \<Longrightarrow> inv s' h'"
begin

lemma loop_keeps_gen:
  assumes "RPCOnReadable_loop hs' s h ns = Some r"
  shows "hs' = hs \<longrightarrow> inv s h \<longrightarrow> RPC_IsValid h \<longrightarrow> inv (fst r) (snd r)"
proof (rule RPCOnReadable_loop.raw_induct[OF _ assms], intro impI, goal_cases)
  case (1 go hs' s h ns r)
  have loop: "\<And>s h ns r. go hs s h ns = Some r \<Longrightarrow> inv s h \<Longrightarrow> RPC_IsValid h \<Longrightarrow> inv (fst r) (snd r)" using 1(1,3) by blast
  note loop = loop 1(2)[unfolded 1(3)] 1(4,5)
  have b: "inv s (h\<lparr>hin := b\<rparr>)" for b by (rule buffers_keep[OF loop(3)]) simp
  obtain b m where 1: "RPC_DecodeMsg (hin h) = Some (b, m)" using loop(2) by (auto simp: bind_eq_Some_conv)
  show ?case
  proof (cases m)
    case None
    then show ?thesis using loop(2) 1 b by (auto simp: bind_eq_Some_conv Let_def split: if_splits)
  next
    case (Some x)
    obtain rpc args where x: "x = (rpc, args)" by (cases x)
    obtain f where f: "handler_at hs rpc = Some f" using loop(2) 1 Some x by (auto simp: bind_eq_Some_conv Let_def)
    show ?thesis
    proof (cases f)
      case None
      have "go hs s (h\<lparr>hin := b\<rparr>) True = Some r" using loop(2) 1 Some x f None by (simp add: Let_def)
      then show ?thesis by (rule loop(1)[OF _ b]) (use loop(4) in \<open>simp add: RPC_IsValid_def\<close>)
    next
      case g: (Some g)
      obtain s1 h1 where 2: "g s (h\<lparr>hin := b\<rparr>) args = Some (s1, h1)"
          "if RPC_IsValid h1 then go hs s1 h1 True = Some r else r = (s1, h1)"
        using loop(2) 1 Some x f g by (auto simp: bind_eq_Some_conv Let_def split: if_splits)
      have "inv s1 h1" by (rule handlers_keep[OF f[unfolded g] b _ 2(1)]) (use loop(4) in \<open>simp add: RPC_IsValid_def\<close>)
      then show ?thesis using 2(2) loop(1) by (auto split: if_splits)
    qed
  qed
qed

lemmas loop_keeps = loop_keeps_gen[rule_format, OF _ refl]

lemma OnReadable_keeps:
  assumes "RPCOnReadable cb hs s h = Some (s', h')" "inv s h"
  shows "inv s' h'"
proof -
  obtain h1 err where 1: "RPC_FillIn h = Some (h1, err)" using assms(1) by (auto simp: RPCOnReadable_def bind_eq_Some_conv)
  have 2: "inv s h1" by (rule buffers_keep[OF assms(2) FillIn_conn[OF 1]])
  have v: "RPC_IsValid h1" using FillIn_conn[OF 1] 1 by (auto simp: RPC_FillIn_def RPC_IsValid_def same_conn_def bind_eq_Some_conv)
  show ?thesis using assms(1) 1 release_keeps[OF 2] loop_keeps[OF _ 2 v] 2 by (fastforce simp: RPCOnReadable_def split: if_splits)
qed

lemma OnWritable_keeps:
  assumes "RPCOnWritable cb s h = Some (s', h')" "inv s h"
  shows "inv s' h'"
proof -
  obtain h1 r where 1: "RPC_FlushOut h False = Some (h1, r)" using assms(1) by (auto simp: RPCOnWritable_def bind_eq_Some_conv)
  have 2: "inv s h1" by (rule buffers_keep[OF assms(2) FlushOut_conn[OF 1]])
  show ?thesis using assms(1) 1 release_keeps[OF 2] 2 by (fastforce simp: RPCOnWritable_def split: if_splits)
qed

end

end
