(* ===== verification/Pincushion.thy ===== *)
theory Pincushion
  imports PinTable RpcInvariant
begin

text \<open>
  The pincushion: \<open>src/src/pincushion/pincushion.c\<close>, its protocol \<open>src/src/pincushion/proto.h\<close> and its proxies
  \<open>src/src/pincushion/proxy.c\<close>.

  A connection carries the information \<open>PC_hostinfo_t\<close>. Whether \<open>malloc\<close> succeeds is an argument. The periodic printing of
  the table is left out.
\<close>

section \<open>The handlers\<close>

definition PINCUSHION_REQ_REQUEST :: byte where "PINCUSHION_REQ_REQUEST = 82"
definition PINCUSHION_REQ_INSERT :: byte where "PINCUSHION_REQ_INSERT = 73"
definition PINCUSHION_REQ_RELEASE :: byte where "PINCUSHION_REQ_RELEASE = 68"
definition PINCUSHION_REQ_SIG :: byte where "PINCUSHION_REQ_SIG = 83"
definition PINCUSHION_REP_FOUND :: byte where "PINCUSHION_REP_FOUND = 70"
definition PINCUSHION_REP_EMPTY :: byte where "PINCUSHION_REP_EMPTY = 69"

record PC_hostinfo_t =
  hasReferencedPin :: bool
  referencedPin :: pin_t

type_synonym pc_host = "PC_hostinfo_t host_t"

definition ReleaseHostPin :: "PinTable_t \<Rightarrow> pc_host \<Rightarrow> (PinTable_t \<times> pc_host) option" where
  "ReleaseHostPin p h = (case hdata h of
     None \<Rightarrow> Some (p, h)
   | Some hi \<Rightarrow>
       if hasReferencedPin hi
       then do {
         e \<leftarrow> PT_FindPin p (referencedPin hi);
         p \<leftarrow> PT_RemoveRef p e;
         Some (p, h\<lparr>hdata := Some (hi\<lparr>hasReferencedPin := False\<rparr>)\<rparr>)
       }
       else Some (p, h))"

text \<open>The freed pointer stays in the closed connection, which nothing reads again.\<close>

definition HandleConnectionClosed :: "PinTable_t \<Rightarrow> pc_host \<Rightarrow> (PinTable_t \<times> pc_host) option" where
  "HandleConnectionClosed p h = do { (p, h) \<leftarrow> ReleaseHostPin p h; Some (p, h\<lparr>hdata := None\<rparr>) }"

definition pc_release :: "PinTable_t \<Rightarrow> pc_host \<Rightarrow> (PinTable_t \<times> pc_host) option" where
  "pc_release p h = RPC_Release HandleConnectionClosed p h"

text \<open>The loop that puts the pins into the reply.\<close>

fun HandleRequest_loop :: "PinTable_t \<Rightarrow> nat \<Rightarrow> nat list \<Rightarrow> pc_host \<Rightarrow> pc_host option" where
  "HandleRequest_loop p num_pins [] h = Some h"
| "HandleRequest_loop p num_pins (i # is) h = do {
     k \<leftarrow> PT_GetEntry p (int num_pins - int i - 1);
     e \<leftarrow> pt_get p k;
     h \<leftarrow> RPC_put IOBuf_PutInt64 h (of_int (tv_sec (timestamp e)));
     h \<leftarrow> RPC_put IOBuf_PutInt64 h (of_int (tv_usec (timestamp e)));
     h \<leftarrow> RPC_put IOBuf_PutInt32 h (epin e);
     HandleRequest_loop p num_pins is h
   }"

definition HandleRequest :: "bool \<Rightarrow> (PinTable_t, PC_hostinfo_t) handler" where
  "HandleRequest allocated p h args = do {
     (args, sec) \<leftarrow> IOBuf_GetInt64 args;
     (args, usec) \<leftarrow> IOBuf_GetInt64 args;
     IOBuf_GetEOB args;
     Assert (case hdata h of None \<Rightarrow> True | Some hi \<Rightarrow> \<not> hasReferencedPin hi);
     (p, num_pins, e) \<leftarrow> PT_Find p \<lparr>tv_sec = sint sec, tv_usec = sint usec\<rparr>;
     if num_pins \<noteq> 0
     then do {
       i \<leftarrow> e;
       en \<leftarrow> pt_get p i;
       Assert (hdata h = None \<longrightarrow> allocated);
       let h = h\<lparr>hdata := Some \<lparr>hasReferencedPin = True, referencedPin = epin en\<rparr>, onClose := True\<rparr>;
       p \<leftarrow> PT_AddRef p i;
       h \<leftarrow> RPC_Start h PINCUSHION_REP_FOUND;
       h \<leftarrow> RPC_put IOBuf_PutInt32 h (of_nat num_pins);
       h \<leftarrow> HandleRequest_loop p num_pins [0..<num_pins] h;
       (h, err) \<leftarrow> RPC_Send h;
       if err < 0 then pc_release p h else Some (p, h)
     }
     else do {
       h \<leftarrow> RPC_Start h PINCUSHION_REP_EMPTY;
       (h, err) \<leftarrow> RPC_Send h;
       if err < 0 then pc_release p h else Some (p, h)
     }
   }"

definition HandleInsert :: "bool \<Rightarrow> (PinTable_t, PC_hostinfo_t) handler" where
  "HandleInsert allocated p h args = do {
     (args, sec) \<leftarrow> IOBuf_GetInt64 args;
     (args, usec) \<leftarrow> IOBuf_GetInt64 args;
     (args, pn) \<leftarrow> IOBuf_GetInt32 args;
     IOBuf_GetEOB args;
     (p, i) \<leftarrow> PT_Insert p \<lparr>tv_sec = sint sec, tv_usec = sint usec\<rparr> pn;
     hi \<leftarrow> (case hdata h of
              None \<Rightarrow> if allocated then Some \<lparr>hasReferencedPin = False, referencedPin = 0\<rparr> else None
            | Some hi \<Rightarrow> Some hi);
     let h = h\<lparr>hdata := Some hi\<rparr>;
     if \<not> hasReferencedPin hi
     then do {
       en \<leftarrow> pt_get p i;
       let h = h\<lparr>hdata := Some \<lparr>hasReferencedPin = True, referencedPin = epin en\<rparr>, onClose := True\<rparr>;
       p \<leftarrow> PT_AddRef p i;
       Some (p, h)
     }
     else Some (p, h)
   }"

definition HandleRelease :: "(PinTable_t, PC_hostinfo_t) handler" where
  "HandleRelease p h args = ReleaseHostPin p h"

text \<open>\<open>SIGUSR1\<close> prints; \<open>SIGINT\<close> ends the process, which is the result \<open>None\<close>.\<close>

definition PC_HandleSig :: "(PinTable_t, PC_hostinfo_t) handler" where
  "PC_HandleSig p h args = do {
     (args, sig) \<leftarrow> IOBuf_GetInt32 args;
     IOBuf_GetEOB args;
     if sig = 12 then do { p \<leftarrow> PT_Flush p; Some (p, h) }
     else if sig = 2 then None
     else Some (p, h)
   }"

definition PC_SendSigRPC :: "pc_host \<Rightarrow> 32 word \<Rightarrow> pc_host option" where
  "PC_SendSigRPC h sig = do {
     h \<leftarrow> RPC_Start h PINCUSHION_REQ_SIG;
     h \<leftarrow> RPC_put IOBuf_PutInt32 h sig;
     (h, _) \<leftarrow> RPC_Send h;
     Some h
   }"

definition Pincushion_Setup_handlers ::
  "bool \<Rightarrow> (PinTable_t, PC_hostinfo_t) handlers \<Rightarrow> (PinTable_t, PC_hostinfo_t) handlers option" where
  "Pincushion_Setup_handlers allocated hs = do {
     hs \<leftarrow> RPCS_RegisterHandler hs PINCUSHION_REQ_REQUEST (HandleRequest allocated);
     hs \<leftarrow> RPCS_RegisterHandler hs PINCUSHION_REQ_INSERT (HandleInsert allocated);
     hs \<leftarrow> RPCS_RegisterHandler hs PINCUSHION_REQ_RELEASE HandleRelease;
     RPCS_RegisterHandler hs PINCUSHION_REQ_SIG PC_HandleSig
   }"

text \<open>\<open>DB_Init\<close> of \<open>src/src/lib/dbconn.c\<close>; \<open>connected\<close> is the outcome of \<open>PQconnectdb\<close>.\<close>

definition DB_Init :: "bool \<Rightarrow> unit option" where
  "DB_Init connected = Assert connected"

text \<open>\<open>ps\<close> and \<open>added\<close> as for \<open>PT_Init\<close>, \<open>paired\<close> is the success of \<open>RPC_Pair\<close>.\<close>

definition Pincushion_Setup ::
  "bool \<Rightarrow> bool \<Rightarrow> int \<Rightarrow> bool \<Rightarrow> bool \<Rightarrow> (PinTable_t, PC_hostinfo_t) handlers \<Rightarrow> timeval \<Rightarrow> PinTable_t
    \<Rightarrow> (PinTable_t \<times> (PinTable_t, PC_hostinfo_t) handlers) option" where
  "Pincushion_Setup allocated connected ps added paired hs staleness p = do {
     DB_Init connected;
     p \<leftarrow> PT_Init ps added staleness p;
     hs \<leftarrow> Pincushion_Setup_handlers allocated hs;
     Assert paired;
     Some (p, hs)
   }"

section \<open>The proxies\<close>

text \<open>\<open>copied\<close> says whether the array of pins can be allocated; the result is null or the pins, and the number that the caller sees.\<close>

fun get_stamps :: "nat \<Rightarrow> IOBuf_t \<Rightarrow> (IOBuf_t \<times> PinStamp_t list) option" where
  "get_stamps 0 b = Some (b, [])"
| "get_stamps (Suc n) b = do {
     (b, sec) \<leftarrow> IOBuf_GetInt64 b;
     (b, usec) \<leftarrow> IOBuf_GetInt64 b;
     (b, pn) \<leftarrow> IOBuf_GetInt32 b;
     (b, ps) \<leftarrow> get_stamps n b;
     Some (b, \<lparr>pin = pn, tv = \<lparr>tv_sec = sint sec, tv_usec = sint usec\<rparr>\<rparr> # ps)
   }"

text \<open>The loop compares \<open>i < *numPinsOut\<close> as unsigned numbers. When the request cannot be sent, \<open>numPinsOut\<close> keeps the value \<open>old\<close>.\<close>

definition PincushionProxy_Request ::
  "bool \<Rightarrow> u32 \<Rightarrow> 'd host_t \<Rightarrow> timeval \<Rightarrow> ('d host_t \<times> PinStamp_t list option \<times> u32) option" where
  "PincushionProxy_Request copied old h freshness = do {
     h \<leftarrow> RPC_Start h PINCUSHION_REQ_REQUEST;
     h \<leftarrow> RPC_put IOBuf_PutInt64 h (of_int (tv_sec freshness));
     h \<leftarrow> RPC_put IOBuf_PutInt64 h (of_int (tv_usec freshness));
     (h, ok) \<leftarrow> proxy_send h;
     if \<not> ok then Some (h, None, old)
     else do {
       (h, err, args) \<leftarrow> RPCC_Recv h;
       if err = sint PINCUSHION_REP_FOUND
       then do {
         args \<leftarrow> args;
         (args, n) \<leftarrow> IOBuf_GetInt32 args;
         if \<not> copied then Some (h, None, n)
         else do {
           (args, ps) \<leftarrow> get_stamps (unat n) args;
           IOBuf_GetEOB args;
           Some (h, Some ps, n)
         }
       }
       else if err = sint PINCUSHION_REP_EMPTY
       then do { args \<leftarrow> args; IOBuf_GetEOB args; Some (h, None, 0) }
       else do { h \<leftarrow> RPC_Release0 h; Some (h, None, 0) }
     }
   }"

definition PincushionProxy_Insert :: "'d host_t \<Rightarrow> PinStamp_t \<Rightarrow> 'd host_t option" where
  "PincushionProxy_Insert h ps = do {
     h \<leftarrow> RPC_Start h PINCUSHION_REQ_INSERT;
     h \<leftarrow> RPC_put IOBuf_PutInt64 h (of_int (tv_sec (tv ps)));
     h \<leftarrow> RPC_put IOBuf_PutInt64 h (of_int (tv_usec (tv ps)));
     h \<leftarrow> RPC_put IOBuf_PutInt32 h (pin ps);
     (h, _) \<leftarrow> proxy_send h;
     Some h
   }"

definition PincushionProxy_Release :: "'d host_t \<Rightarrow> 'd host_t option" where
  "PincushionProxy_Release h = do {
     h \<leftarrow> RPC_Start h PINCUSHION_REQ_RELEASE;
     (h, _) \<leftarrow> proxy_send h;
     Some h
   }"

section \<open>References\<close>

definition refs :: "pin_t \<Rightarrow> pc_host \<Rightarrow> bool" where
  "refs pn h \<longleftrightarrow> (case hdata h of None \<Rightarrow> False | Some hi \<Rightarrow> hasReferencedPin hi \<and> referencedPin hi = pn)"

text \<open>The reference counts of the table, and each referenced pin is there.\<close>

definition counted :: "(pin_t \<Rightarrow> nat) \<Rightarrow> PinTable_t \<Rightarrow> bool" where
  "counted n p \<longleftrightarrow> pt_ok p \<and> (\<forall>e \<in> set (pt_list p). eref e = int (n (epin e))) \<and> (\<forall>pn. 0 < n pn \<longrightarrow> pn \<in> epin ` set (pt_list p))"

text \<open>The pins that are not older than a given one, in the order of the table.\<close>

definition newer :: "pin_t \<Rightarrow> PT_Entry_t list \<Rightarrow> pin_t set" where
  "newer pn es = epin ` set (dropWhile (\<lambda>e. epin e \<noteq> pn) es)"

text \<open>What a reference to \<open>pn\<close> protects: these pins stay in the table and are not queued for unpinning.\<close>

definition protects :: "pin_t \<Rightarrow> PinTable_t \<Rightarrow> PinTable_t \<Rightarrow> bool" where
  "protects pn p p' \<longleftrightarrow> newer pn (pt_list p) \<subseteq> newer pn (pt_list p') \<and>
     set (pendingUnpins p') \<inter> newer pn (pt_list p) \<subseteq> set (pendingUnpins p)"

lemma protects_refl [simp]: "protects pn p p"
  by (simp add: protects_def)

lemma protects_trans: "protects pn p p1 \<Longrightarrow> protects pn p1 p2 \<Longrightarrow> protects pn p p2"
  unfolding protects_def by blast

lemma epin_map: "(\<And>e. epin (f e) = epin e) \<Longrightarrow> epin ` set (map f es) = epin ` set es"
  unfolding set_map image_image by simp

lemma newer_map: "(\<And>e. epin (f e) = epin e) \<Longrightarrow> newer pn (map f es) = newer pn es"
  by (simp add: newer_def dropWhile_map o_def image_image)

lemma newer_suffix: "pn \<notin> epin ` set us \<Longrightarrow> newer pn (us @ es) = newer pn es"
  by (simp add: newer_def dropWhile_append1 image_iff) (metis (mono_tags, lifting) dropWhile_append2)

lemma newer_subset: "newer pn es \<subseteq> epin ` set es"
  by (auto simp: newer_def dest: set_dropWhileD)

lemma newer_insert: "newer pn (us @ es) \<subseteq> newer pn (us @ e # es)"
  by (induction us) (auto simp: newer_def dest: set_dropWhileD)

lemma newer_place: "newer pn es \<subseteq> newer pn (place e es)"
  using newer_insert[of pn "takeWhile (\<lambda>x. tkey (timestamp x) < tkey (timestamp e)) es"
      "dropWhile (\<lambda>x. tkey (timestamp x) < tkey (timestamp e)) es" e]
  by (simp add: place_def)

lemma newer_inserted: "newer pn es \<subseteq> newer pn (inserted ts pn' es)"
  using newer_place by (auto simp: inserted_def newer_map)

text \<open>Removing unreferenced pins from the old end.\<close>

lemma counted_drop:
  assumes "counted n p" "pt_list p = us @ es" "\<forall>e \<in> set us. eref e = 0"
  shows "0 < n pn \<Longrightarrow> pn \<in> epin ` set es" "0 < n pn \<Longrightarrow> newer pn (pt_list p) = newer pn es"
    "0 < n pn \<Longrightarrow> newer pn es \<inter> epin ` set us = {}"
proof -
  assume "0 < n pn"
  moreover have "n (epin e) = 0" if "e \<in> set us" for e using assms that by (force simp: counted_def)
  ultimately have u: "pn \<notin> epin ` set us" by auto
  moreover have "pn \<in> epin ` set (pt_list p)" using assms(1) \<open>0 < n pn\<close> by (auto simp: counted_def)
  ultimately show "pn \<in> epin ` set es" using assms(2) by auto
  show "newer pn (pt_list p) = newer pn es" using newer_suffix[OF u] assms(2) by simp
  have "distinct (map epin (us @ es))" using assms(1,2) by (simp add: counted_def pt_ok_def)
  then show "newer pn es \<inter> epin ` set us = {}" using newer_subset[of pn es] by auto
qed

lemma counted_Insert:
  assumes "counted n p" "PT_Insert p ts pn = Some (p', i)"
  shows "counted n p' \<and> (\<forall>k. 0 < n k \<longrightarrow> protects k p p') \<and> (\<exists>j < pt_count p'. i = slot p' (Suc j) \<and> epin (pt_list p' ! j) = pn)"
proof -
  have ok: "pt_ok p" using assms(1) by (simp add: counted_def)
  obtain us es j where
    i: "pt_list p = us @ es" "\<forall>e \<in> set us. eref e = 0" "pt_ok p'" "pt_list p' = inserted ts pn es" "i = slot p' (Suc j)"
      "j < pt_count p'" "epin (pt_list p' ! j) = pn" "pendingUnpins p' = pendingUnpins p @ map epin us" "pt_same p p'"
    by (rule Insert_Some[OF assms(2) ok]) (rule that)
  note d = counted_drop[OF assms(1) i(1,2)]
  have s: "stamp_sorted es" using ok i(1) by (simp add: pt_ok_def sorted_append)
  have e: "eref e = int (n (epin e))" if "e \<in> set es" for e using assms(1) i(1) that by (auto simp: counted_def)
  have "eref e = int (n (epin e))" if "e \<in> set (inserted ts pn es)" for e
    using that e d(1)[of pn] place_props(2)[OF s] by (auto simp: inserted_def split: if_splits)
  moreover have "epin ` set es \<subseteq> epin ` set (inserted ts pn es)"
    using place_props(2)[OF s] epin_map[of "\<lambda>e. if epin e = pn then e\<lparr>timestamp := ts\<rparr> else e" es]
    by (auto simp: inserted_def simp del: set_map)
  ultimately have "counted n p'" using i(3,4) d(1) by (auto simp: counted_def)
  moreover have "protects k p p'" if "0 < n k" for k
    using d(2,3)[OF that] newer_inserted[of k es ts pn] i(4,8) by (auto simp: protects_def)
  ultimately show ?thesis using i(5-7) by blast
qed

lemma set_ref_map:
  assumes "distinct (map epin es)" "j < length es"
  shows "set_ref es j m = map (\<lambda>e. if epin e = epin (es ! j) then e\<lparr>eref := m\<rparr> else e) es"
proof (rule nth_equalityI)
  fix i
  assume "i < length (set_ref es j m)"
  moreover have "epin (es ! i) = epin (es ! j) \<longleftrightarrow> i = j" if "i < length es"
    using nth_eq_iff_index_eq[OF assms(1), of i j] assms(2) that by simp
  ultimately show "set_ref es j m ! i = map (\<lambda>e. if epin e = epin (es ! j) then e\<lparr>eref := m\<rparr> else e) es ! i"
    by (simp add: set_ref_def nth_list_update)
qed simp

lemma counted_set_ref:
  assumes "counted n p" "pt_ok p'" "j < pt_count p" "epin (pt_list p ! j) = pn" "pt_list p' = set_ref (pt_list p) j (int m)"
  shows "counted (n(pn := m)) p'"
proof -
  have d: "distinct (map epin (pt_list p))" "j < length (pt_list p)" using assms(1,3) by (auto simp: counted_def pt_ok_def)
  have l: "pt_list p' = map (\<lambda>e. if epin e = pn then e\<lparr>eref := int m\<rparr> else e) (pt_list p)"
    using assms(4,5) set_ref_map[OF d] by simp
  have "epin ` set (pt_list p') = epin ` set (pt_list p)" unfolding l by (rule epin_map) simp
  moreover have "pn \<in> epin ` set (pt_list p)" using d(2) assms(4) by force
  ultimately show ?thesis using assms(1,2) unfolding counted_def by (auto simp: l)
qed

lemma counted_AddRef:
  assumes "counted n p" "j < pt_count p" "epin (pt_list p ! j) = pn"
  obtains p' where "PT_AddRef p (slot p (Suc j)) = Some p'" "counted (n(pn := Suc (n pn))) p'" "\<forall>k. protects k p p'"
    "map epin (pt_list p') = map epin (pt_list p)" "map timestamp (pt_list p') = map timestamp (pt_list p)"
proof -
  have ok: "pt_ok p" "distinct (map epin (pt_list p))" "j < length (pt_list p)" using assms(1,2) by (auto simp: counted_def pt_ok_def)
  obtain p' where p': "PT_AddRef p (slot p (Suc j)) = Some p'" "pt_ok p'" "pt_list p' = set_ref (pt_list p) j (eref (pt_list p ! j) + 1)"
      "pendingUnpins p' = pendingUnpins p" using AddRef_list[OF ok(1) assms(2)] by metis
  have "pt_list p ! j \<in> set (pt_list p)" using ok(3) by simp
  then have "eref (pt_list p ! j) + 1 = int (Suc (n pn))" using assms(1,3) by (auto simp: counted_def)
  with p'(3) have l: "pt_list p' = set_ref (pt_list p) j (int (Suc (n pn)))" by simp
  have "newer k (pt_list p') = newer k (pt_list p)" for k unfolding l set_ref_map[OF ok(2,3)] by (rule newer_map) simp
  then have "\<forall>k. protects k p p'" using p'(4) by (simp add: protects_def)
  then show thesis using that[OF p'(1) counted_set_ref[OF assms(1) p'(2) assms(2,3) l]] by (simp add: l)
qed

lemma counted_RemoveRef:
  assumes "counted n p" "0 < n pn" "PT_FindPin p pn = Some r" "PT_RemoveRef p r = Some p'"
  shows "counted (n(pn := n pn - 1)) p' \<and> (\<forall>k. 0 < (n(pn := n pn - 1)) k \<longrightarrow> protects k p p')"
proof -
  let ?n = "n(pn := n pn - 1)"
  have ok: "pt_ok p" "pt_wf p" "distinct (map epin (pt_list p))" using assms(1) by (auto simp: counted_def pt_ok_def)
  have "pn \<in> epin ` set (pt_list p)" using assms(1,2) by (simp add: counted_def)
  then obtain j where j: "j < pt_count p" "epin (pt_list p ! j) = pn" by (auto simp: in_set_conv_nth)
  have r: "r = Some (slot p (Suc j))" using FindPin_Some[OF ok(2,3) j(1)] assms(3) j(2) by simp
  have "pt_list p ! j \<in> set (pt_list p)" using j(1) by simp
  then have e: "eref (pt_list p ! j) = int (n pn)" using assms(1) j(2) by (auto simp: counted_def)
  from RemoveRef_Some[OF assms(4)[unfolded r] ok(1) j(1)] e assms(2) obtain us where
    u: "set_ref (pt_list p) j (int (n pn - 1)) = us @ pt_list p'" "\<forall>e \<in> set us. eref e = 0" "pt_ok p'"
      "pendingUnpins p' = pendingUnpins p @ map epin us" by (metis One_nat_def Suc_leI of_nat_1 of_nat_diff of_nat_mono)
  obtain q where q: "pt_wf q" "pt_list q = us @ pt_list p'" "pendingUnpins q = pendingUnpins p"
    using set_slot_ref[OF ok(2) j(1), of "int (n pn - 1)"] u(1) by metis
  have "pt_ok q" by (rule set_ref_ok[OF ok(1) q(1), of j "int (n pn - 1)"]) (use q u(1) in auto)
  then have c: "counted ?n q" by (rule counted_set_ref[OF assms(1) _ j]) (use q u(1) in simp)
  note d = counted_drop[OF c q(2) u(2)]
  have "newer k (pt_list q) = newer k (pt_list p)" for k
    unfolding q(2) u(1)[symmetric] set_ref_map[OF ok(3) j(1)[folded length_pt_list]] by (rule newer_map) simp
  then have "protects k p p'" if "0 < ?n k" for k
    using d(2,3)[OF that] u(4) by (auto simp: protects_def)
  moreover have "counted ?n p'" using c d(1) u(3) q(2) unfolding counted_def by auto
  ultimately show ?thesis by blast
qed

end
