(* ===== verification/PincushionSystem.thy ===== *)
theory PincushionSystem
  imports Pincushion
begin

text \<open>
  The pincushion with all its connections: \<open>src/src/pincushion/pincushion.c\<close> behind the callbacks of \<open>src/src/lib/rpc.c\<close>.

  The reference counts of the table are the numbers of the connections that hold a reference, in every state that the
  process can reach, whatever bytes the clients send; so a reference that a client holds protects the pins it was
  given.
\<close>

section \<open>What the handlers keep\<close>

text \<open>The invariant of one connection: \<open>n\<close> counts the references of all the other connections, and \<open>p0\<close> is the table at the
  beginning of an event on this connection.\<close>

definition conn_inv :: "(pin_t \<Rightarrow> nat) \<Rightarrow> PinTable_t \<Rightarrow> PinTable_t \<Rightarrow> pc_host \<Rightarrow> bool" where
  "conn_inv n p0 p h \<longleftrightarrow> counted (\<lambda>k. n k + of_bool (refs k h)) p \<and> ((\<exists>k. refs k h) \<longrightarrow> onClose h \<and> RPC_IsValid h) \<and>
     (\<forall>k. 0 < n k \<longrightarrow> protects k p0 p)"

lemma refs_simps [simp]:
  "hdata h = None \<Longrightarrow> refs k h = False"
  "hdata h = Some hi \<Longrightarrow> refs k h = (hasReferencedPin hi \<and> referencedPin hi = k)"
  by (simp_all add: refs_def)

lemma counted_no_refs: "(\<And>k. \<not> refs k h) \<Longrightarrow> counted (\<lambda>k. n k + of_bool (refs k h)) p = counted n p"
  by simp

lemma conn_inv_conn:
  assumes "conn_inv n p0 p h" "same_conn h h'"
  shows "conn_inv n p0 p h'"
proof -
  have "refs k h' = refs k h" for k using assms(2) by (simp add: refs_def same_conn_def)
  then show ?thesis using assms by (simp add: conn_inv_def same_conn_def RPC_IsValid_def)
qed

lemma conn_inv_none:
  "counted n p \<Longrightarrow> (\<And>k. \<not> refs k h) \<Longrightarrow> (\<forall>k. 0 < n k \<longrightarrow> protects k p0 p) \<Longrightarrow> conn_inv n p0 p h"
  by (simp add: conn_inv_def)

lemma ReleaseHostPin_counted:
  assumes "counted (\<lambda>k. n k + of_bool (refs k h)) p" "ReleaseHostPin p h = Some (p', h')"
  shows "counted n p' \<and> (\<forall>k. 0 < n k \<longrightarrow> protects k p p') \<and> (\<forall>k. \<not> refs k h') \<and> onClose h' = onClose h \<and> hsocket h' = hsocket h"
proof (cases "\<exists>pn. refs pn h")
  case True
  then obtain pn hi where r: "hdata h = Some hi" "hasReferencedPin hi" "referencedPin hi = pn"
    by (auto simp: refs_def split: option.splits)
  let ?n = "\<lambda>k. n k + of_bool (refs k h)"
  have n: "?n(pn := ?n pn - 1) = n" "0 < ?n pn" using r by (auto simp: fun_eq_iff)
  obtain e where e: "PT_FindPin p pn = Some e" "PT_RemoveRef p e = Some p'" "h' = h\<lparr>hdata := Some (hi\<lparr>hasReferencedPin := False\<rparr>)\<rparr>"
    using assms(2) r by (auto simp: ReleaseHostPin_def bind_eq_Some_conv)
  have "counted n p' \<and> (\<forall>k. 0 < n k \<longrightarrow> protects k p p')" by (rule counted_RemoveRef[OF assms(1) n(2) e(1,2), unfolded n(1)])
  then show ?thesis by (simp add: e(3))
next
  case False
  then have "p' = p \<and> h' = h"
    using assms(2) by (auto simp: ReleaseHostPin_def refs_def split: option.splits if_splits)
  then show ?thesis using False assms(1) by simp
qed

lemma protects_then: "\<forall>k. 0 < n k \<longrightarrow> protects k p0 p \<Longrightarrow> \<forall>k. 0 < n k \<longrightarrow> protects k p p' \<Longrightarrow> \<forall>k. 0 < n k \<longrightarrow> protects k p0 p'"
  using protects_trans by blast

lemma HandleRelease_keeps:
  assumes "conn_inv n p0 p h" "HandleRelease p h args = Some (p', h')"
  shows "conn_inv n p0 p' h'"
proof -
  have c: "counted (\<lambda>k. n k + of_bool (refs k h)) p" "\<forall>k. 0 < n k \<longrightarrow> protects k p0 p" using assms(1) by (auto simp: conn_inv_def)
  note r = ReleaseHostPin_counted[OF c(1) assms(2)[unfolded HandleRelease_def]]
  show ?thesis by (rule conn_inv_none) (use r protects_then[OF c(2)] in auto)
qed

lemma pc_release_keeps:
  assumes "conn_inv n p0 p h" "RPC_Release HandleConnectionClosed p h = Some (p', h')"
  shows "conn_inv n p0 p' h'"
proof -
  have c: "counted (\<lambda>k. n k + of_bool (refs k h)) p" "\<forall>k. 0 < n k \<longrightarrow> protects k p0 p"
    "\<And>k. refs k h \<Longrightarrow> onClose h \<and> RPC_IsValid h" using assms(1) by (auto simp: conn_inv_def)
  let ?h = "h\<lparr>hre := False, marked := False, hsocket := 0\<rparr>"
  show ?thesis
  proof (cases "RPC_IsValid h \<and> onClose h")
    case True
    have f: "refs k ?h = refs k h" for k by (simp add: refs_def)
    obtain p1 h1 where 1: "ReleaseHostPin p ?h = Some (p1, h1)" "p' = p1" "hdata h' = None"
      using assms(2) True by (auto simp: RPC_Release_def HandleConnectionClosed_def bind_eq_Some_conv Let_def)
    note r = ReleaseHostPin_counted[OF _ 1(1), of n, unfolded f, OF c(1)]
    show ?thesis by (rule conn_inv_none) (use r 1 protects_then[OF c(2)] in auto)
  next
    case False
    then have n: "\<not> refs k h" for k using c(3) by blast
    have "p' = p" "hdata h' = hdata h"
      using assms(2) False by (auto simp: RPC_Release_def bind_eq_Some_conv Let_def split: if_splits)
    then show ?thesis using n c by (intro conn_inv_none) (auto simp: refs_def)
  qed
qed

text \<open>A connection that takes a reference.\<close>

lemma take_reference:
  assumes "counted n p" "j < pt_count p" "PT_AddRef p (slot p (Suc j)) = Some p'" "RPC_IsValid h" "onClose h"
    "hdata h = Some \<lparr>hasReferencedPin = True, referencedPin = epin (pt_list p ! j)\<rparr>" "\<forall>k. 0 < n k \<longrightarrow> protects k p0 p"
  shows "conn_inv n p0 p' h"
proof -
  let ?pn = "epin (pt_list p ! j)"
  obtain p1 where 1: "PT_AddRef p (slot p (Suc j)) = Some p1" "counted (n(?pn := Suc (n ?pn))) p1" "\<forall>k. protects k p p1"
    using counted_AddRef[OF assms(1,2) refl] by metis
  have "n(?pn := Suc (n ?pn)) = (\<lambda>k. n k + of_bool (refs k h))" using assms(6) by (auto simp: fun_eq_iff)
  moreover have "\<forall>k. 0 < n k \<longrightarrow> protects k p0 p1" by (rule protects_then[OF assms(7)]) (use 1(3) in simp)
  ultimately show ?thesis using 1 assms by (auto simp: conn_inv_def)
qed

lemma RPC_Start_conn: "RPC_Start h rpc = Some h' \<Longrightarrow> same_conn h h'"
  by (auto simp: RPC_Start_def bind_eq_Some_conv)

lemma RPC_put_conn: "RPC_put put h x = Some h' \<Longrightarrow> same_conn h h'"
  by (auto simp: RPC_put_def bind_eq_Some_conv)

lemma HandleRequest_loop_conn: "HandleRequest_loop p m is h = Some h' \<Longrightarrow> same_conn h h'"
proof (induction "is" arbitrary: h)
  case (Cons i "is")
  then obtain h1 x y z where "RPC_put (put_all put_item) h [I64 x, I64 y, I32 z] = Some h1" "HandleRequest_loop p m is h1 = Some h'"
    by (auto simp: bind_eq_Some_conv put_items_bind simp flip: put_items_append)
  with Cons.IH show ?case by (blast intro: same_conn_trans RPC_put_conn)
qed simp

lemma reply_keeps:
  assumes "conn_inv n p0 p h" "RPC_Send h = Some (h1, err)"
    "(if err < 0 then pc_release p h1 else Some (p, h1)) = Some (p', h')"
  shows "conn_inv n p0 p' h'"
  using pc_release_keeps[OF conn_inv_conn[OF assms(1) Send_conn[OF assms(2)]]] conn_inv_conn[OF assms(1) Send_conn[OF assms(2)]] assms(3)
  by (auto simp: pc_release_def split: if_splits)

lemma HandleRequest_keeps:
  assumes "conn_inv n p0 p h" "HandleRequest a p h args = Some (p', h')" "RPC_IsValid h"
  shows "conn_inv n p0 p' h'"
proof -
  obtain args1 sec args2 usec where a: "IOBuf_GetInt64 args = Some (args1, sec)" "IOBuf_GetInt64 args1 = Some (args2, usec)"
      "IOBuf_GetEOB args2 = Some ()" "case hdata h of None \<Rightarrow> True | Some hi \<Rightarrow> \<not> hasReferencedPin hi"
    using assms(2) by (auto simp: HandleRequest_def bind_eq_Some_conv)
  have n: "\<not> refs k h" for k using a(4) by (auto simp: refs_def split: option.splits)
  have c: "counted n p" "\<forall>k. 0 < n k \<longrightarrow> protects k p0 p" using assms(1) n by (auto simp: conn_inv_def)
  let ?t = "\<lparr>tv_sec = sint sec, tv_usec = sint usec\<rparr>"
  let ?p = "p\<lparr>nclocktime := Suc (nclocktime p)\<rparr>"
  let ?f = "filter (fresh (timersub (clocktime p (nclocktime p)) ?t)) (pt_list p)"
  have ok: "pt_ok p" using c(1) by (simp add: counted_def)
  note f = Find_list[OF ok, of ?t]
  have s: "pt_list ?p = pt_list p" "slot ?p = slot p" "pt_count ?p = pt_count p" "pt_wf ?p = pt_wf p"
    by (simp_all add: pt_list_def slot_def pt_count_def pt_wf_def fun_eq_iff)
  have cp: "counted n ?p" "\<forall>k. 0 < n k \<longrightarrow> protects k p0 ?p" using c by (simp_all add: counted_def pt_ok_def protects_def s)
  show ?thesis
  proof (cases "?f = []")
    case True
    obtain h1 h2 err where 1: "RPC_Start h PINCUSHION_REP_EMPTY = Some h1" "RPC_Send h1 = Some (h2, err)"
        "(if err < 0 then pc_release ?p h2 else Some (?p, h2)) = Some (p', h')"
      using assms(2) a f True by (auto simp: HandleRequest_def bind_eq_Some_conv)
    have "conn_inv n p0 ?p h1" by (rule conn_inv_conn[OF conn_inv_none[OF cp(1) n cp(2)] RPC_Start_conn[OF 1(1)]])
    then show ?thesis by (rule reply_keeps[OF _ 1(2,3)])
  next
    case False
    let ?j = "pt_count p - length ?f"
    have l: "length ?f \<noteq> 0" "length ?f \<le> pt_count p" using False length_filter_le[of _ "pt_list p"] by simp_all
    have j: "?j < pt_count ?p" using l unfolding s by linarith
    have g: "pt_get ?p (slot ?p (Suc ?j)) = Some (pt_list ?p ! ?j)"
      using pt_get_slot[of ?p "Suc ?j"] ok j by (simp add: s pt_ok_def)
    let ?h = "h\<lparr>hdata := Some \<lparr>hasReferencedPin = True, referencedPin = epin (pt_list ?p ! ?j)\<rparr>, onClose := True\<rparr>"
    obtain q h1 h2 h3 h4 err where 1: "PT_AddRef ?p (slot ?p (Suc ?j)) = Some q" "RPC_Start ?h PINCUSHION_REP_FOUND = Some h1"
        "RPC_put IOBuf_PutInt32 h1 (of_nat (length ?f)) = Some h2" "HandleRequest_loop q (length ?f) [0..<length ?f] h2 = Some h3"
        "RPC_Send h3 = Some (h4, err)" "(if err < 0 then pc_release q h4 else Some (q, h4)) = Some (p', h')"
      using assms(2) a f False g l(1) unfolding s by (auto simp: HandleRequest_def bind_eq_Some_conv Let_def)
    have "conn_inv n p0 q ?h"
      by (rule take_reference[OF cp(1) j 1(1)]) (use assms(3) cp(2) in \<open>simp_all add: RPC_IsValid_def\<close>)
    moreover have "same_conn ?h h3"
      using 1(2-4) by (blast intro: same_conn_trans RPC_Start_conn RPC_put_conn HandleRequest_loop_conn)
    ultimately have "conn_inv n p0 q h3" by (rule conn_inv_conn)
    then show ?thesis by (rule reply_keeps[OF _ 1(5,6)])
  qed
qed

lemma HandleInsert_keeps:
  assumes "conn_inv n p0 p h" "HandleInsert a p h args = Some (p', h')" "RPC_IsValid h"
  shows "conn_inv n p0 p' h'"
proof -
  let ?n = "\<lambda>k. n k + of_bool (refs k h)"
  have c: "counted ?n p" "\<forall>k. 0 < n k \<longrightarrow> protects k p0 p" "\<And>k. refs k h \<Longrightarrow> onClose h"
    using assms(1) by (auto simp: conn_inv_def)
  obtain ts pn q i hi where 1: "PT_Insert p ts pn = Some (q, i)"
      "hi = (case hdata h of None \<Rightarrow> \<lparr>hasReferencedPin = False, referencedPin = 0\<rparr> | Some hi \<Rightarrow> hi)"
      "if hasReferencedPin hi then p' = q \<and> h' = h\<lparr>hdata := Some hi\<rparr>
       else \<exists>en. pt_get q i = Some en \<and> PT_AddRef q i = Some p' \<and>
         h' = h\<lparr>hdata := Some \<lparr>hasReferencedPin = True, referencedPin = epin en\<rparr>, onClose := True\<rparr>"
    using assms(2) by (auto simp: HandleInsert_def bind_eq_Some_conv Let_def split: option.splits if_splits)
  from counted_Insert[OF c(1) 1(1)] obtain j where q: "counted ?n q" "\<forall>k. 0 < ?n k \<longrightarrow> protects k p q"
      "j < pt_count q" "i = slot q (Suc j)" by blast
  have pr: "\<forall>k. 0 < n k \<longrightarrow> protects k p0 q" by (rule protects_then[OF c(2)]) (use q(2) in simp)
  show ?thesis
  proof (cases "hasReferencedPin hi")
    case True
    then have "hdata h = Some hi" using 1(2) by (auto split: option.splits)
    then have "p' = q" "same_conn h h'" using 1(3) True by (simp_all add: same_conn_def)
    moreover have "conn_inv n p0 q h" using q(1) pr c(3) assms(3) by (auto simp: conn_inv_def)
    ultimately show ?thesis using conn_inv_conn by blast
  next
    case False
    have n: "\<not> refs k h" for k using False 1(2) by (auto simp: refs_def split: option.splits)
    have wf: "pt_wf q" using q(1) by (simp add: counted_def pt_ok_def)
    have g: "pt_get q i = Some (pt_list q ! j)" using pt_get_slot[OF wf, of "Suc j"] q(3,4) by simp
    show ?thesis using False 1(3) g q n pr assms(3) by (auto simp: RPC_IsValid_def intro!: take_reference[of n q j])
  qed
qed

lemma PC_HandleSig_keeps:
  assumes "conn_inv n p0 p h" "PC_HandleSig p h args = Some (p', h')"
  shows "conn_inv n p0 p' h'"
proof (cases "p' = p")
  case True
  moreover have "h' = h" using assms(2) by (auto simp: PC_HandleSig_def bind_eq_Some_conv split: if_splits)
  ultimately show ?thesis using assms(1) by simp
next
  case False
  let ?n = "\<lambda>k. n k + of_bool (refs k h)"
  have c: "counted ?n p" using assms(1) by (simp add: conn_inv_def)
  then have wf: "pt_wf p" "length (pendingUnpins p) \<le> MAX_PINS" by (auto simp: counted_def pt_ok_def)
  obtain q where q: "PT_Flush_loop p = Some q" "p' = q\<lparr>last_ref := PinTable_t.head q\<rparr>" "h' = h"
    using assms(2) False by (auto simp: PC_HandleSig_def PT_Flush_def bind_eq_Some_conv split: if_splits)
  from Flush_loop_Some[OF q(1) wf(1)] have f: "pt_wf q" "pt_list q = []" "\<forall>e \<in> set (pt_list p). eref e = 0"
      "length (pendingUnpins q) \<le> MAX_PINS" using wf(2) by auto
  have z: "?n k = 0" for k
  proof (rule ccontr)
    assume k: "?n k \<noteq> 0"
    then have "k \<in> epin ` set (pt_list p)" using c by (auto simp: counted_def)
    then obtain e where e: "e \<in> set (pt_list p)" "epin e = k" by auto
    from c e have "eref e = int (?n k)" by (auto simp: counted_def)
    then have "?n k = 0" using f(3) e(1) by (metis of_nat_eq_0_iff)
    with k show False by contradiction
  qed
  have "pt_wf p'" "pt_list p' = []" "pendingUnpins p' = pendingUnpins q"
    using f(1,2) q(2) by (simp_all add: pt_wf_def pt_list_def slot_def pt_count_def)
  then have "counted ?n p'" using z f(4) by (simp add: counted_def pt_ok_def)
  then show ?thesis using z q(3) by (auto simp: conn_inv_def)
qed

text \<open>The table that \<open>Pincushion_Setup\<close> fills.\<close>

definition pc_handlers :: "bool \<Rightarrow> (PinTable_t, PC_hostinfo_t) handlers" where
  "pc_handlers a = RPCS_Init_handlers[82 := Some (HandleRequest a), 73 := Some (HandleInsert a), 68 := Some HandleRelease, 83 := Some PC_HandleSig]"

lemma Pincushion_Setup_table: "Pincushion_Setup_handlers a RPCS_Init_handlers = Some (pc_handlers a)"
  by (simp add: Pincushion_Setup_handlers_def pc_handlers_def RPCS_RegisterHandler_def handler_at_def RPCS_Init_handlers_def
      PINCUSHION_REQ_REQUEST_def PINCUSHION_REQ_INSERT_def PINCUSHION_REQ_RELEASE_def PINCUSHION_REQ_SIG_def)

lemma pc_handler_cases:
  assumes "handler_at (pc_handlers a) rpc = Some (Some f)"
  shows "f \<in> {HandleRequest a, HandleInsert a, HandleRelease, PC_HandleSig}"
  using assms by (auto simp: handler_at_def pc_handlers_def RPCS_Init_handlers_def nth_list_update split: if_splits)

interpretation pc: rpc_invariant "pc_handlers a" HandleConnectionClosed "conn_inv n p0" for a n p0
proof
  fix rpc f s h args s' h'
  assume f: "handler_at (pc_handlers a) rpc = Some (Some f)"
    and i: "conn_inv n p0 s h" and v: "RPC_IsValid h" and e: "f s h args = Some (s', h')"
  consider "f = HandleRequest a" | "f = HandleInsert a" | "f = HandleRelease" | "f = PC_HandleSig"
    using pc_handler_cases[OF f] by blast
  then show "conn_inv n p0 s' h'"
    by cases (use e HandleRequest_keeps[OF i _ v] HandleInsert_keeps[OF i _ v] HandleRelease_keeps[OF i] PC_HandleSig_keeps[OF i] in simp_all)
qed (rule conn_inv_conn pc_release_keeps; assumption)+

section \<open>The process\<close>

record pc_system =
  ptab :: PinTable_t
  conns :: "pc_host list"

text \<open>What happens to the process: a new connection, a connection that becomes readable or writable, and the
  connection to the database. A step names the connection on which it happens.\<close>

inductive pc_step :: "nat option \<Rightarrow> pc_system \<Rightarrow> pc_system \<Rightarrow> bool" where
  connect: "RPCSOnConnect True cs r a1 a2 added h0 = Some (Some h) \<Longrightarrow> pc_step None s (s\<lparr>conns := conns s @ [h]\<rparr>)"
| readable: "i < length (conns s) \<Longrightarrow> RPCOnReadable HandleConnectionClosed (pc_handlers a) (ptab s) (conns s ! i) = Some (p, h) \<Longrightarrow>
    pc_step (Some i) s (s\<lparr>ptab := p, conns := (conns s)[i := h]\<rparr>)"
| writable: "i < length (conns s) \<Longrightarrow> RPCOnWritable HandleConnectionClosed (ptab s) (conns s ! i) = Some (p, h) \<Longrightarrow>
    pc_step (Some i) s (s\<lparr>ptab := p, conns := (conns s)[i := h]\<rparr>)"
| db_read: "PTOnRead consumed connected rs (ptab s) = Some p \<Longrightarrow> pc_step None s (s\<lparr>ptab := p\<rparr>)"
| db_write: "PTOnWrite allocated snt connected (ptab s) = Some (p, sql) \<Longrightarrow> pc_step None s (s\<lparr>ptab := p\<rparr>)"

inductive_cases pc_stepE: "pc_step l s s'"

text \<open>The states that the process reaches after \<open>Pincushion_Setup\<close>; \<open>p0\<close> is the table in the memory that the process starts with.\<close>

inductive pc_reach :: "pc_system \<Rightarrow> bool" where
  init: "length (table p0) = MAX_PINS \<Longrightarrow> pendingUnpins p0 = [] \<Longrightarrow>
    Pincushion_Setup a connected ps added paired RPCS_Init_handlers staleness p0 = Some (p, hs) \<Longrightarrow> pc_reach \<lparr>ptab = p, conns = []\<rparr>"
| step: "pc_reach s \<Longrightarrow> pc_step l s s' \<Longrightarrow> pc_reach s'"

definition holders :: "pc_host list \<Rightarrow> pin_t \<Rightarrow> nat" where
  "holders cs pn = length (filter (refs pn) cs)"

definition pc_inv :: "pc_system \<Rightarrow> bool" where
  "pc_inv s \<longleftrightarrow> counted (holders (conns s)) (ptab s) \<and> (\<forall>h \<in> set (conns s). (\<exists>k. refs k h) \<longrightarrow> onClose h \<and> RPC_IsValid h)"

text \<open>The references of the other connections.\<close>

definition others :: "pc_host list \<Rightarrow> nat \<Rightarrow> pin_t \<Rightarrow> nat" where
  "others cs i pn = holders (take i cs @ drop (Suc i) cs) pn"

lemma holders_update:
  assumes "i < length cs"
  shows "holders (cs[i := h]) pn = others cs i pn + of_bool (refs pn h)" "holders cs pn = others cs i pn + of_bool (refs pn (cs ! i))"
proof -
  show 1: "holders (cs[i := h]) pn = others cs i pn + of_bool (refs pn h)" for h
    using assms by (simp add: holders_def others_def upd_conv_take_nth_drop)
  show "holders cs pn = others cs i pn + of_bool (refs pn (cs ! i))" using 1[of "cs ! i"] by simp
qed

lemma holders_pos: "refs pn h \<Longrightarrow> h \<in> set cs \<Longrightarrow> 0 < holders cs pn"
  by (auto simp: holders_def filter_empty_conv)

lemma others_pos:
  assumes "refs pn (cs ! j)" "j < length cs" "i \<noteq> j"
  shows "0 < others cs i pn"
proof -
  have "cs ! j \<in> set (take i cs @ drop (Suc i) cs)"
  proof (cases "j < i")
    case True
    then show ?thesis using assms(2) by (auto simp: in_set_conv_nth intro!: exI[of _ j])
  next
    case False
    then have "Suc i \<le> j" using assms(3) by simp
    then show ?thesis using assms(2) by (auto simp: in_set_conv_nth intro!: exI[of _ "j - Suc i"])
  qed
  then show ?thesis unfolding others_def by (rule holders_pos[OF assms(1)])
qed

lemma conn_step:
  assumes "pc_inv s" "i < length (conns s)" "\<And>n p0. conn_inv n p0 (ptab s) (conns s ! i) \<Longrightarrow> conn_inv n p0 p h"
  shows "pc_inv (s\<lparr>ptab := p, conns := (conns s)[i := h]\<rparr>) \<and> (\<forall>k. 0 < others (conns s) i k \<longrightarrow> protects k (ptab s) p)"
proof -
  have h: "holders (conns s) = (\<lambda>k. others (conns s) i k + of_bool (refs k (conns s ! i)))"
    "holders ((conns s)[i := h]) = (\<lambda>k. others (conns s) i k + of_bool (refs k h))"
    using holders_update[OF assms(2)] by (auto simp: fun_eq_iff)
  have "conn_inv (others (conns s) i) (ptab s) p h"
    by (rule assms(3)) (use assms(1,2) h in \<open>auto simp: conn_inv_def pc_inv_def\<close>)
  then show ?thesis using assms(1) h(2) by (auto simp: conn_inv_def pc_inv_def dest!: set_update_subset_insert[THEN subsetD])
qed

lemma db_step:
  assumes "counted n p" "pt_list p' = pt_list p" "pt_wf p'" "set (pendingUnpins p') \<subseteq> set (pendingUnpins p)"
    "length (pendingUnpins p') \<le> length (pendingUnpins p)"
  shows "counted n p'" "protects k p p'"
  using assms by (auto simp: counted_def pt_ok_def protects_def)

lemma pc_step_keeps:
  assumes "pc_step l s s'" "pc_inv s"
  shows "pc_inv s' \<and> (\<forall>j pn. j < length (conns s) \<and> l \<noteq> Some j \<and> refs pn (conns s ! j) \<longrightarrow>
    j < length (conns s') \<and> conns s' ! j = conns s ! j \<and> protects pn (ptab s) (ptab s'))"
  using assms(1)
proof cases
  case (connect cs r a1 a2 added h0 h)
  have "\<not> refs k h" for k using OnConnect_new[OF connect(3)] by simp
  moreover from this have "holders (conns s @ [h]) = holders (conns s)" by (simp add: holders_def fun_eq_iff)
  ultimately show ?thesis using assms(2) connect by (auto simp: pc_inv_def nth_append)
next
  case (readable i a p h)
  note k = conn_step[OF assms(2) readable(3) pc.OnReadable_keeps[OF readable(4)]]
  show ?thesis using k others_pos[of _ "conns s" _ i] unfolding readable(1,2) by auto
next
  case (writable i p h)
  note k = conn_step[OF assms(2) writable(3) pc.OnWritable_keeps[OF writable(4)]]
  show ?thesis using k others_pos[of _ "conns s" _ i] unfolding writable(1,2) by auto
next
  case (db_read consumed connected rs p)
  have "pt_list p = pt_list (ptab s)" "pt_wf p = pt_wf (ptab s)" "pendingUnpins p = pendingUnpins (ptab s)"
    using db_read(3) by (auto simp: PTOnRead_def pt_list_def pt_wf_def slot_def pt_count_def Let_def bind_eq_Some_conv split: if_splits)
  then show ?thesis using db_step[of "holders (conns s)" "ptab s" p] assms(2) db_read by (auto simp: pc_inv_def counted_def pt_ok_def)
next
  case (db_write allocated snt connected p sql)
  have "pt_list p = pt_list (ptab s)" "pt_wf p = pt_wf (ptab s)" "pendingUnpins p \<in> {[], pendingUnpins (ptab s)}"
    using db_write(3) by (auto simp: PTOnWrite_def pt_list_def pt_wf_def slot_def pt_count_def Let_def split: if_splits)
  then show ?thesis using db_step[of "holders (conns s)" "ptab s" p] assms(2) db_write by (auto simp: pc_inv_def counted_def pt_ok_def)
qed

lemma pc_reach_inv: "pc_reach s \<Longrightarrow> pc_inv s"
proof (induction rule: pc_reach.induct)
  case (init p0 a connected ps added paired staleness p hs)
  then have "pt_list p = []" "pt_wf p" "pendingUnpins p = []"
    by (auto simp: Pincushion_Setup_def PT_Init_def pt_list_def pt_wf_def pt_count_def ptr_sub_def MAX_PINS_def Let_def bind_eq_Some_conv)
  then show ?case by (simp add: pc_inv_def counted_def pt_ok_def holders_def)
next
  case (step s l s')
  then show ?case using pc_step_keeps by blast
qed

end
