(* ===== verification/PincushionRemote.thy ===== *)
theory PincushionRemote
  imports PincushionSystem
begin

text \<open>
  The pincushion as its clients see it: the proxies of \<open>src/src/pincushion/proxy.c\<close> against the handlers of
  \<open>src/src/pincushion/pincushion.c\<close>, over connections that deliver the bytes in any pieces.
\<close>

section \<open>Requests\<close>

datatype pc_request =
    Req_Pins "64 word" "64 word"
  | Req_Insert "64 word" "64 word" pin_t
  | Req_Release

fun pc_proc :: "pc_request \<Rightarrow> byte" where
  "pc_proc (Req_Pins sec usec) = PINCUSHION_REQ_REQUEST"
| "pc_proc (Req_Insert sec usec pn) = PINCUSHION_REQ_INSERT"
| "pc_proc Req_Release = PINCUSHION_REQ_RELEASE"

fun pc_items :: "pc_request \<Rightarrow> item list" where
  "pc_items (Req_Pins sec usec) = [I64 sec, I64 usec]"
| "pc_items (Req_Insert sec usec pn) = [I64 sec, I64 usec, I32 pn]"
| "pc_items Req_Release = []"

abbreviation pc_args :: "pc_request \<Rightarrow> byte list" where
  "pc_args q \<equiv> enc_items (pc_items q)"

abbreviation wire_time :: "64 word \<Rightarrow> 64 word \<Rightarrow> timeval" where
  "wire_time sec usec \<equiv> \<lparr>tv_sec = sint sec, tv_usec = sint usec\<rparr>"

text \<open>The items of the reply with pins.\<close>

definition stamp_items :: "PT_Entry_t \<Rightarrow> item list" where
  "stamp_items e = [I64 (of_int (tv_sec (timestamp e))), I64 (of_int (tv_usec (timestamp e))), I32 (epin e)]"

fun collect :: "PinTable_t \<Rightarrow> nat \<Rightarrow> nat list \<Rightarrow> item list option" where
  "collect p m [] = Some []"
| "collect p m (i # is) = do {
     k \<leftarrow> PT_GetEntry p (int m - int i - 1);
     e \<leftarrow> pt_get p k;
     xs \<leftarrow> collect p m is;
     Some (stamp_items e @ xs)
   }"

lemma bind_swap: "Option.bind a (\<lambda>x. Option.bind b (\<lambda>y. f x y)) = Option.bind b (\<lambda>y. Option.bind a (\<lambda>x. f x y))"
  by (cases a; cases b) simp_all

lemma HandleRequest_loop_collect:
  "HandleRequest_loop p m is h = Option.bind (collect p m is) (\<lambda>xs. RPC_put (put_all put_item) h xs)"
proof (induction "is" arbitrary: h)
  case (Cons i "is")
  show ?case
  proof (cases "PT_GetEntry p (int m - int i - 1)")
    case (Some k)
    show ?thesis
    proof (cases "pt_get p k")
      case e: (Some e)
      have "HandleRequest_loop p m (i # is) h =
          Option.bind (RPC_put (put_all put_item) h (stamp_items e)) (\<lambda>h. HandleRequest_loop p m is h)"
        using Some e by (simp add: stamp_items_def put_items_bind bind_assoc)
      also have "\<dots> = Option.bind (collect p m is) (\<lambda>xs. RPC_put (put_all put_item) h (stamp_items e @ xs))"
        unfolding Cons.IH by (subst bind_swap) (simp add: put_items_append)
      finally show ?thesis using Some e by (simp add: bind_assoc)
    qed (use Some in simp)
  qed simp
qed (simp add: RPC_put_def)

definition no_ref :: "pc_host \<Rightarrow> bool" where
  "no_ref h \<longleftrightarrow> (case hdata h of None \<Rightarrow> True | Some hi \<Rightarrow> \<not> hasReferencedPin hi)"

definition pc_reply :: "PinTable_t \<Rightarrow> pc_host \<Rightarrow> byte \<Rightarrow> item list \<Rightarrow> (PinTable_t \<times> pc_host) option" where
  "pc_reply p h rpc xs = do { (h, err) \<leftarrow> send_msg h rpc xs; if err < 0 then pc_release p h else Some (p, h) }"

definition reference :: "pin_t \<Rightarrow> pc_host \<Rightarrow> pc_host" where
  "reference pn h = h\<lparr>hdata := Some \<lparr>hasReferencedPin = True, referencedPin = pn\<rparr>, onClose := True\<rparr>"

text \<open>What a request does to the table and to the connection.\<close>

fun pc_serve :: "bool \<Rightarrow> pc_request \<Rightarrow> PinTable_t \<Rightarrow> pc_host \<Rightarrow> (PinTable_t \<times> pc_host) option" where
  "pc_serve a (Req_Pins sec usec) p h = do {
     Assert (no_ref h);
     (p, m, e) \<leftarrow> PT_Find p (wire_time sec usec);
     if m \<noteq> 0
     then do {
       i \<leftarrow> e;
       en \<leftarrow> pt_get p i;
       Assert (hdata h = None \<longrightarrow> a);
       p \<leftarrow> PT_AddRef p i;
       xs \<leftarrow> collect p m [0..<m];
       pc_reply p (reference (epin en) h) PINCUSHION_REP_FOUND (I32 (of_nat m) # xs)
     }
     else pc_reply p h PINCUSHION_REP_EMPTY []
   }"
| "pc_serve a (Req_Insert sec usec pn) p h = do {
     (p, i) \<leftarrow> PT_Insert p (wire_time sec usec) pn;
     Assert (hdata h = None \<longrightarrow> a);
     if no_ref h
     then do { en \<leftarrow> pt_get p i; p \<leftarrow> PT_AddRef p i; Some (p, reference (epin en) h) }
     else Some (p, h)
   }"
| "pc_serve a Req_Release p h = ReleaseHostPin p h"

lemma HandleRequest_serve:
  assumes "reads v (pc_args (Req_Pins sec usec))"
  shows "HandleRequest a p h v = pc_serve a (Req_Pins sec usec) p h"
proof -
  have v: "reads v (to_bytes 8 sec @ to_bytes 8 usec @ [])" using assms by simp
  have z: "Option.bind x (\<lambda>_. None) = None" for x :: "'c option" by (cases x) simp_all
  have s: "Option.bind (RPC_Start h1 rpc) (\<lambda>h. Option.bind (RPC_put IOBuf_PutInt32 h w) (\<lambda>h.
        Option.bind (HandleRequest_loop q m is h) (\<lambda>h. Option.bind (RPC_Send h) (\<lambda>(h, err). if err < 0 then pc_release q h else Some (q, h))))) =
      Option.bind (collect q m is) (\<lambda>xs. pc_reply q h1 rpc (I32 w # xs))" for q m "is" h1 rpc w
    by (cases "collect q m is") (simp_all add: HandleRequest_loop_collect pc_reply_def send_msg_def bind_assoc put_items_bind z)
  have s': "Option.bind (RPC_Start h1 rpc) (\<lambda>h. Option.bind (RPC_Send h) (\<lambda>(h, err). if err < 0 then pc_release q h else Some (q, h))) =
      pc_reply q h1 rpc []" for q h1 rpc
    by (simp add: pc_reply_def send_msg_def RPC_put_def bind_assoc)
  show ?thesis
    unfolding HandleRequest_def
    apply (rule int64_bind[OF v])
    apply (rule int64_bind, assumption)
    apply (rule eob_bind, assumption)
    apply (unfold Let_def s s' pc_serve.simps reference_def no_ref_def)
    apply (rule refl)
    done
qed

lemma HandleInsert_serve:
  assumes "reads v (pc_args (Req_Insert sec usec pn))"
  shows "HandleInsert a p h v = pc_serve a (Req_Insert sec usec pn) p h"
proof -
  have v: "reads v (to_bytes 8 sec @ to_bytes 8 usec @ to_bytes 4 pn @ [])" using assms by simp
  have d: "hdata h = Some hi \<Longrightarrow> h\<lparr>hdata := Some hi\<rparr> = h" for hi by simp
  show ?thesis
    unfolding HandleInsert_def
    apply (rule int64_bind[OF v])
    apply (rule int64_bind, assumption)
    apply (rule int32_bind, assumption)
    apply (rule eob_bind, assumption)
    apply (cases "hdata h")
    apply (simp_all add: no_ref_def reference_def d Let_def split: if_splits cong: if_cong)
    done
qed

lemma pc_reply_keeps:
  assumes "pc_reply p h rpc xs = Some (p', h')" "RPC_IsValid h'"
  shows "keeps_in h h' \<and> pc_reply p (with_in b rs h) rpc xs = Some (p', with_in b rs h')"
proof -
  obtain h1 err where 1: "send_msg h rpc xs = Some (h1, err)" "(if err < 0 then pc_release p h1 else Some (p, h1)) = Some (p', h')"
    using assms(1) by (auto simp: pc_reply_def bind_eq_Some_conv)
  have "\<not> RPC_IsValid h2" if "pc_release p h1 = Some (p', h2)" for h2
    using that by (auto simp: pc_release_def RPC_Release_def RPC_IsValid_def HandleConnectionClosed_def ReleaseHostPin_def bind_eq_Some_conv Let_def
        split: if_splits option.splits)
  then have "\<not> err < 0" using 1(2) assms(2) by (auto split: if_splits)
  then show ?thesis using send_msg_keeps[OF 1(1), where b = b and rs = rs] 1 by (simp add: pc_reply_def)
qed

lemma with_in_reference [simp]: "reference pn (with_in b rs h) = with_in b rs (reference pn h)" "no_ref (with_in b rs h) = no_ref h"
  by (simp_all add: reference_def with_in_def no_ref_def)

lemma keeps_in_reference [simp]: "keeps_in (reference pn h) h' = keeps_in h h'" "keeps_in h (reference pn h') = keeps_in h h'"
  by (simp_all add: reference_def keeps_in_def)

lemma pc_serve_keeps:
  assumes "pc_serve a q p h = Some (p', h')" "RPC_IsValid h'"
  shows "keeps_in h h' \<and> pc_serve a q p (with_in b rs h) = Some (p', with_in b rs h')"
proof (cases q)
  case (Req_Pins sec usec)
  obtain p1 m e where 1: "no_ref h" "PT_Find p (wire_time sec usec) = Some (p1, m, e)"
    using assms(1) Req_Pins by (auto simp: bind_eq_Some_conv)
  show ?thesis
  proof (cases "m = 0")
    case True
    then have "pc_reply p1 h PINCUSHION_REP_EMPTY [] = Some (p', h')" using assms(1) Req_Pins 1 by simp
    from pc_reply_keeps[OF this assms(2), of b rs] show ?thesis using True Req_Pins 1 by simp
  next
    case False
    obtain i en p2 xs where 2: "e = Some i" "pt_get p1 i = Some en" "hdata h = None \<longrightarrow> a" "PT_AddRef p1 i = Some p2"
        "collect p2 m [0..<m] = Some xs" "pc_reply p2 (reference (epin en) h) PINCUSHION_REP_FOUND (I32 (of_nat m) # xs) = Some (p', h')"
      using assms(1) Req_Pins 1 False by (auto simp: bind_eq_Some_conv)
    from pc_reply_keeps[OF 2(6) assms(2), of b rs] show ?thesis using False Req_Pins 1 2 by simp
  qed
next
  case (Req_Insert sec usec pn)
  obtain p1 i where 1: "PT_Insert p (wire_time sec usec) pn = Some (p1, i)" "hdata h = None \<longrightarrow> a"
    using assms(1) Req_Insert by (auto simp: bind_eq_Some_conv)
  have k: "keeps_in h h" by (simp add: keeps_in_def)
  show ?thesis using assms(1) Req_Insert 1 k
    by (cases "pt_get p1 i"; cases "PT_AddRef p1 i"; cases "no_ref h") auto
next
  case Req_Release
  then show ?thesis using assms
    by (auto simp: ReleaseHostPin_def bind_eq_Some_conv keeps_in_def with_in_def split: if_splits option.splits)
qed

interpretation pcs: rpc_service "pc_handlers a" "\<lambda>q. True" pc_proc pc_args "pc_serve a" for a
proof
  fix q v s h
  assume v: "reads v (pc_args q)"
  show "\<exists>f. handler_at (pc_handlers a) (pc_proc q) = Some (Some f) \<and> f s h v = pc_serve a q s h"
    using v HandleRequest_serve HandleInsert_serve
    by (cases q) (simp_all add: pc_handlers_def handler_at_def RPCS_Init_handlers_def HandleRelease_def
        PINCUSHION_REQ_REQUEST_def PINCUSHION_REQ_INSERT_def PINCUSHION_REQ_RELEASE_def)
next
  fix q s h s' h' b rs
  assume "pc_serve a q s h = Some (s', h')" "RPC_IsValid h'"
  from pc_serve_keeps[OF this, of b rs]
  show "keeps_in h h' \<and> pc_serve a q s (h\<lparr>hin := b, recvs := rs\<rparr>) = Some (s', h'\<lparr>hin := b, recvs := rs\<rparr>)"
    by (simp add: with_in_def)
next
  show "ok_buf (pc_args q)" for q by (cases q) (simp_all add: ok_buf_def)
qed

section \<open>A request for pins\<close>

lemma collect_list:
  assumes "pt_wf p" "m \<le> pt_count p" "i \<le> m"
  shows "collect p m [i..<m] = Some (concat (map stamp_items (drop (pt_count p - m + i) (pt_list p))))"
  using assms(3)
proof (induction "m - i" arbitrary: i)
  case 0
  then show ?case using assms(2) by simp
next
  case (Suc k)
  let ?c = "pt_count p - m + i"
  have l: "i < m" "m - Suc i = k" "Suc i \<le> m" using Suc.hyps(2) by auto
  have c: "?c < length (pt_list p)" using l(1) assms(2) by simp
  have k: "pt_count p - (m - i - 1) = Suc ?c" using l(1) assms(2) by simp
  have "PT_GetEntry p (int m - int i - 1) = Some (slot p (Suc ?c))"
    using GetEntry_slot[OF assms(1), of "m - i - 1"] l(1) assms(2) unfolding k by (simp add: of_nat_diff algebra_simps)
  moreover have "pt_get p (slot p (Suc ?c)) = Some (pt_list p ! ?c)" using pt_get_slot[OF assms(1), of "Suc ?c"] c by simp
  moreover have "drop ?c (pt_list p) = pt_list p ! ?c # drop (Suc ?c) (pt_list p)" using c by (simp add: Cons_nth_drop_Suc)
  moreover have "collect p m [Suc i..<m] = Some (concat (map stamp_items (drop (Suc ?c) (pt_list p))))"
    using Suc.hyps(1)[of "Suc i"] l by simp
  ultimately show ?case using l(1) by (simp add: upt_conv_Cons)
qed

lemma fresh_suffix:
  "stamp_sorted es \<Longrightarrow> filter (fresh b) es = drop (length es - length (filter (fresh b) es)) es"
proof (induction es)
  case (Cons e es)
  show ?case
  proof (cases "fresh b e")
    case True
    then have "filter (fresh b) es = es" using Cons.prems by (auto simp: filter_id_conv intro: order_trans)
    then show ?thesis using True by simp
  next
    case False
    then show ?thesis using Cons Suc_diff_le[OF length_filter_le[of "fresh b" es]] by simp
  qed
qed simp

text \<open>The pins that answer a request: those whose time stamp is recent enough.\<close>

definition recent :: "PinTable_t \<Rightarrow> timeval \<Rightarrow> PT_Entry_t list" where
  "recent p t = filter (fresh (timersub (clocktime p (nclocktime p)) t)) (pt_list p)"

definition stamp_of :: "PT_Entry_t \<Rightarrow> PinStamp_t" where
  "stamp_of e = \<lparr>pin = epin e, tv = timestamp e\<rparr>"

definition pins_reply :: "PT_Entry_t list \<Rightarrow> byte \<times> item list" where
  "pins_reply es = (if es = [] then (PINCUSHION_REP_EMPTY, []) else (PINCUSHION_REP_FOUND, I32 (of_nat (length es)) # concat (map stamp_items es)))"

lemma stamp_items_cong:
  "map epin es = map epin es' \<Longrightarrow> map timestamp es = map timestamp es' \<Longrightarrow> map stamp_items es = map stamp_items es'"
  by (auto simp: list_eq_iff_nth_eq stamp_items_def)

lemma newer_cong: "map epin es = map epin es' \<Longrightarrow> newer pn es = newer pn es'"
proof (induction es arbitrary: es')
  case (Cons e es)
  then obtain e' es1 where e: "es' = e' # es1" "epin e = epin e'" "map epin es = map epin es1" by (cases es') auto
  then have "epin ` set es = epin ` set es1" by (metis list.set_map)
  with Cons.IH[OF e(3)] e(1,2) show ?case by (auto simp: newer_def)
qed simp

text \<open>Serving a request without the reply.\<close>

lemma serve_pins:
  assumes "counted n p" "no_ref h" "a" and f_def: "f = recent p (wire_time sec usec)"
  obtains p' h1 where "pc_serve a (Req_Pins sec usec) p h = pc_reply p' h1 (fst (pins_reply f)) (snd (pins_reply f))"
    "f = [] \<Longrightarrow> h1 = h \<and> pt_list p' = pt_list p"
    "f \<noteq> [] \<Longrightarrow> h1 = reference (epin (hd f)) h \<and> counted (n(epin (hd f) := Suc (n (epin (hd f))))) p' \<and>
       newer (epin (hd f)) (pt_list p') = epin ` set f"
proof -
  have ok: "pt_ok p" "pt_wf p" "stamp_sorted (pt_list p)" "distinct (map epin (pt_list p))"
    using assms(1) by (auto simp: counted_def pt_ok_def)
  let ?p = "p\<lparr>nclocktime := Suc (nclocktime p)\<rparr>"
  note find = Find_list[OF ok(1), of "wire_time sec usec", folded recent_def, folded f_def]
  have s: "pt_list ?p = pt_list p" "slot ?p = slot p" "pt_count ?p = pt_count p" "pt_wf ?p = pt_wf p"
    by (simp_all add: pt_list_def slot_def pt_count_def pt_wf_def fun_eq_iff)
  have cp: "counted n ?p" using assms(1) by (simp add: counted_def pt_ok_def s)
  show thesis
  proof (cases "f = []")
    case True
    then show thesis using that[of ?p h] find assms(2) by (simp add: pins_reply_def s)
  next
    case False
    let ?j = "pt_count p - length f"
    have l: "0 < length f" "length f \<le> pt_count p" using False length_filter_le[of _ "pt_list p"] by (auto simp: f_def recent_def)
    have d: "drop ?j (pt_list p) = f" using fresh_suffix[OF ok(3)] by (simp add: f_def recent_def)
    have j: "?j < pt_count ?p" using l unfolding s by linarith
    then have e: "pt_list ?p ! ?j = hd f" using hd_drop_conv_nth[of ?j "pt_list p"] unfolding s d by simp
    have g: "pt_get ?p (slot ?p (Suc ?j)) = Some (hd f)" using pt_get_slot[of ?p "Suc ?j"] ok(2) j e by (simp add: s)
    obtain q where q: "PT_AddRef ?p (slot ?p (Suc ?j)) = Some q" "counted (n(epin (hd f) := Suc (n (epin (hd f))))) q"
        "map epin (pt_list q) = map epin (pt_list p)" "map timestamp (pt_list q) = map timestamp (pt_list p)"
      using counted_AddRef[OF cp j, of "epin (hd f)"] e unfolding s by metis
    have wq: "pt_wf q" "pt_count q = pt_count p"
      using q(2) arg_cong[OF q(3), of length] by (auto simp: counted_def pt_ok_def)
    have "map stamp_items (drop ?j (pt_list q)) = map stamp_items (drop ?j (pt_list p))"
      by (rule stamp_items_cong) (simp_all add: q(3,4) flip: drop_map)
    then have c: "collect q (length f) [0..<length f] = Some (concat (map stamp_items f))"
      using collect_list[OF wq(1), of "length f" 0] l(2) wq(2) d by simp
    have "pt_list p = take ?j (pt_list p) @ f" using append_take_drop_id[of ?j "pt_list p"] d by simp
    moreover have "epin (hd f) \<notin> epin ` set (take ?j (pt_list p))"
      using ok(4) calculation False by (metis (no_types, lifting) Int_iff distinct_append empty_iff hd_in_set image_eqI list.set_map map_append)
    ultimately have "newer (epin (hd f)) (pt_list p) = newer (epin (hd f)) f" using newer_suffix by metis
    also have "\<dots> = epin ` set f" using False by (cases f) (auto simp: newer_def)
    finally have "newer (epin (hd f)) (pt_list q) = epin ` set f" using newer_cong[OF q(3)] by simp
    then show thesis using that[of q "reference (epin (hd f)) h"] find assms(2,3) False q(1,2) g c l(1)
      by (simp add: pins_reply_def s)
  qed
qed

text \<open>The times that fit the C type.\<close>

definition time_ok :: "timeval \<Rightarrow> bool" where
  "time_ok t \<longleftrightarrow> - (2 ^ 63) \<le> tv_sec t \<and> tv_sec t < 2 ^ 63 \<and> - (2 ^ 63) \<le> tv_usec t \<and> tv_usec t < 2 ^ 63"

lemma sint_of_int64: "- (2 ^ 63) \<le> x \<Longrightarrow> x < 2 ^ 63 \<Longrightarrow> sint (of_int x :: 64 word) = x"
  by (simp add: sint_sbintrunc' signed_take_bit_int_eq_self)

lemma wire_time: "time_ok t \<Longrightarrow> wire_time (of_int (tv_sec t)) (of_int (tv_usec t)) = t"
  by (cases t) (simp add: time_ok_def sint_of_int64)

lemma stamps_bind:
  "reads b (enc_items (concat (map stamp_items es)) @ r) \<Longrightarrow> list_all (\<lambda>e. time_ok (timestamp e)) es \<Longrightarrow>
   (\<And>b. reads b r \<Longrightarrow> F b (map stamp_of es) = R) \<Longrightarrow>
   Option.bind (get_stamps (length es) b) (\<lambda>(b, ps). F b ps) = R"
proof (induction es arbitrary: b F)
  case (Cons e es)
  let ?r = "enc_items (concat (map stamp_items es)) @ r"
  have v: "reads b (to_bytes 8 (of_int (tv_sec (timestamp e)) :: 64 word) @ to_bytes 8 (of_int (tv_usec (timestamp e)) :: 64 word) @
      to_bytes 4 (epin e) @ ?r)" using Cons.prems(1) by (simp add: stamp_items_def[of e])
  have t: "wire_time (of_int (tv_sec (timestamp e))) (of_int (tv_usec (timestamp e))) = timestamp e"
    using wire_time Cons.prems(2) by simp
  have "Option.bind (get_stamps (length es) b) (\<lambda>(b, ps). F b (stamp_of e # ps)) = R" if "reads b ?r" for b
    by (rule Cons.IH[OF that]) (use Cons.prems(2,3) in auto)
  then show ?case
    apply (simp only: list.size(4) add_Suc_right add_0_right get_stamps.simps bind_assoc)
    apply (simp only: split_def bind_assoc bind.simps prod.sel)
    apply (rule int64_bind[where F = "\<lambda>b x. _ b x", unfolded split_def, OF v])
    apply (rule int64_bind[where F = "\<lambda>b x. _ b x", unfolded split_def], assumption)
    apply (rule int32_bind[where F = "\<lambda>b x. _ b x", unfolded split_def], assumption)
    apply (simp add: t stamp_of_def)
    done
qed simp

definition pins_receive :: "bool \<Rightarrow> 'd host_t \<Rightarrow> ('d host_t \<times> PinStamp_t list option \<times> u32) option" where
  "pins_receive copied h = do {
     (h, err, args) \<leftarrow> RPCC_Recv h;
     if err = sint PINCUSHION_REP_FOUND
     then do {
       args \<leftarrow> args;
       (args, n) \<leftarrow> IOBuf_GetInt32 args;
       if \<not> copied then Some (h, None, n)
       else do { (args, ps) \<leftarrow> get_stamps (unat n) args; IOBuf_GetEOB args; Some (h, Some ps, n) }
     }
     else if err = sint PINCUSHION_REP_EMPTY
     then do { args \<leftarrow> args; IOBuf_GetEOB args; Some (h, None, 0) }
     else do { h \<leftarrow> RPC_Release0 h; Some (h, None, 0) }
   }"

lemma PincushionProxy_Request_msg:
  "PincushionProxy_Request copied old h t =
     do { (h, ok) \<leftarrow> proxy_msg h PINCUSHION_REQ_REQUEST (pc_items (Req_Pins (of_int (tv_sec t)) (of_int (tv_usec t))));
          if \<not> ok then Some (h, None, old) else pins_receive copied h }"
  unfolding PincushionProxy_Request_def pins_receive_def proxy_msg_def
  by (simp add: put_items_bind put_items_append bind_assoc)

definition pins_result :: "PT_Entry_t list \<Rightarrow> PinStamp_t list option \<times> u32" where
  "pins_result es = (if es = [] then None else Some (map stamp_of es), of_nat (length es))"

lemma pins_receive_reply:
  assumes r: "RPCC_Recv h = Some (h', sint (fst (pins_reply es)), Some v)" "reads v (enc_items (snd (pins_reply es)))"
    and es: "list_all (\<lambda>e. time_ok (timestamp e)) es" "length es < 2 ^ 32"
  shows "pins_receive True h = Some (h', pins_result es)"
proof (cases "es = []")
  case True
  then show ?thesis using r GetEOB_rest[of v]
    by (simp add: pins_receive_def pins_reply_def pins_result_def PINCUSHION_REP_FOUND_def PINCUSHION_REP_EMPTY_def reads_def)
next
  case False
  have n: "unat (of_nat (length es) :: u32) = length es" using es(2) by (simp add: unat_of_nat)
  have v: "reads v (to_bytes 4 (of_nat (length es) :: u32) @ enc_items (concat (map stamp_items es)) @ [])"
    using r(2) False by (simp add: pins_reply_def)
  have e: "RPCC_Recv h = Some (h', sint PINCUSHION_REP_FOUND, Some v)" using r(1) False by (simp add: pins_reply_def)
  show ?thesis
    unfolding pins_receive_def e
    apply (simp only: bind.simps prod.case simp_thms if_True)
    apply (rule int32_bind[OF v])
    apply (simp only: simp_thms if_False n)
    apply (rule stamps_bind, assumption, rule es(1))
    apply (rule eob_bind, assumption)
    apply (simp add: pins_result_def False)
    done
qed

lemma length_stamps: "length (enc_items (concat (map stamp_items es))) = 20 * length es"
  by (induction es) (simp_all add: stamp_items_def)

lemma pins_reply_length: "length (enc_items (snd (pins_reply es))) \<le> 4 + 20 * length es"
  by (simp add: pins_reply_def length_stamps)

lemma counted_exists:
  assumes "pt_ok p"
  obtains n where "counted n p"
proof -
  let ?m = "map_of (map (\<lambda>e. (epin e, eref e)) (pt_list p))"
  let ?n = "\<lambda>k. case ?m k of None \<Rightarrow> 0 | Some r \<Rightarrow> nat r"
  have d: "distinct (map fst (map (\<lambda>e. (epin e, eref e)) (pt_list p)))" using assms by (simp add: pt_ok_def o_def)
  have "?m (epin e) = Some (eref e)" if "e \<in> set (pt_list p)" for e using map_of_is_SomeI[OF d] that by force
  moreover have "0 \<le> eref e" if "e \<in> set (pt_list p)" for e using assms that by (simp add: pt_ok_def)
  moreover have "k \<in> epin ` set (pt_list p)" if "0 < ?n k" for k
    using that by (auto split: option.splits dest!: map_of_SomeD)
  ultimately have "counted ?n p" using assms by (auto simp: counted_def)
  then show thesis by (rule that)
qed

lemma can_send_reference [simp]: "can_send (reference pn h) xs = can_send h xs" "outstream (reference pn h) = outstream h"
  by (simp_all add: can_send_def reference_def rpc_ready_def RPC_IsValid_def outstream_def)

lemma serve_request:
  assumes h: "no_ref h" and p: "pt_ok p" and f: "f = recent p (wire_time sec usec)" "can_send h (snd (pins_reply f))"
  shows "\<exists>p' h'. serve (pc_serve True) [Req_Pins sec usec] p h = Some (p', h') \<and> RPC_IsValid h' \<and>
    outstream h' = outstream h @ frame (fst (pins_reply f)) (enc_items (snd (pins_reply f))) \<and>
    (f \<noteq> [] \<longrightarrow> refs (epin (hd f)) h' \<and> newer (epin (hd f)) (pt_list p') = epin ` set f)"
proof -
  obtain n where n: "counted n p" by (rule counted_exists[OF p])
  obtain p' h1 where 1: "pc_serve True (Req_Pins sec usec) p h = pc_reply p' h1 (fst (pins_reply f)) (snd (pins_reply f))"
      "f = [] \<Longrightarrow> h1 = h" "f \<noteq> [] \<Longrightarrow> h1 = reference (epin (hd f)) h" "f \<noteq> [] \<Longrightarrow> newer (epin (hd f)) (pt_list p') = epin ` set f"
    by (rule serve_pins[OF n h TrueI f(1)]) blast
  have c: "can_send h1 (snd (pins_reply f))" "outstream h1 = outstream h" using 1(2,3) f(2) by (cases "f = []"; simp)+
  obtain h' where h': "send_msg h1 (fst (pins_reply f)) (snd (pins_reply f)) = Some (h', 0)" "rpc_ready h'"
      "outstream h' = outstream h1 @ frame (fst (pins_reply f)) (enc_items (snd (pins_reply f)))"
    using send_msg_stream[OF c(1), of "fst (pins_reply f)"] by blast
  have "refs (epin (hd f)) h'" if "f \<noteq> []"
    using send_msg_conn[OF h'(1)] 1(3)[OF that] by (simp add: same_conn_def refs_def reference_def)
  with 1(1,4) h' c(2) show ?thesis by (auto simp: pc_reply_def rpc_ready_def simp del: pc_serve.simps)
qed

text \<open>C28: A request for pins. A client calls \<open>PincushionProxy_Request\<close>; request and reply travel in any pieces. Then the call
  returns exactly the pins of the table whose time stamps are recent enough, from the oldest to the newest, with their
  time stamps, or null and the number 0 if there are none. If there are some, the connection holds afterwards a reference to
  the oldest of them, and these pins are exactly the pins of the table that the reference protects.\<close>

theorem remote_request:
  assumes client: "can_send c (pc_items (Req_Pins (of_int (tv_sec t)) (of_int (tv_usec t))))" "\<not> hre c" "outstream c = []"
      "in_ready (hin c)" "rest (hin c) = []" "time_ok t"
    and server: "Pincushion_Setup_handlers True RPCS_Init_handlers = Some hs" "RPC_IsValid h" "hasHandlers h" "in_ready (hin h)"
      "rest (hin h) = []" "outstream h = []" "no_ref h"
    and table: "pt_ok p" "f = recent p t" "list_all (\<lambda>e. time_ok (timestamp e)) f" "can_send h (snd (pins_reply f))"
    and network: "recvs h = map RecvBytes cs" "list_all chunk cs"
      "concat cs = frame PINCUSHION_REQ_REQUEST (pc_args (Req_Pins (of_int (tv_sec t)) (of_int (tv_usec t))))"
      "recvs c = map RecvBytes cs'" "list_all chunk cs'" "concat cs' = frame (fst (pins_reply f)) (enc_items (snd (pins_reply f)))"
  shows "\<exists>c' p' h'. PincushionProxy_Request True old c t = Some (c', pins_result f) \<and> sent c' = concat cs \<and>
    events HandleConnectionClosed hs (length cs) p h = Some (p', h') \<and> outstream h' = concat cs' \<and>
    (f \<noteq> [] \<longrightarrow> refs (epin (hd f)) h' \<and> newer (epin (hd f)) (pt_list p') = epin ` set f)"
proof -
  let ?q = "Req_Pins (of_int (tv_sec t)) (of_int (tv_usec t))"
  have hs: "hs = pc_handlers True" using server(1) by (simp add: Pincushion_Setup_table)
  have "length f \<le> pt_count p" using length_filter_le[of _ "pt_list p"] by (simp add: table(2) recent_def)
  moreover have "pt_count p < 1024" using count_lt[of p] table(1) by (simp add: pt_ok_def MAX_PINS_def)
  ultimately have l: "length f < 1024" by simp
  then have r: "length (enc_items (snd (pins_reply f))) + 2048 < 2 ^ 31" using pins_reply_length[of f] by simp
  obtain c1 c' v where v: "proxy_msg c PINCUSHION_REQ_REQUEST (pc_items ?q) = Some (c1, True)"
      "RPCC_Recv c1 = Some (c', sint (fst (pins_reply f)), Some v)" "reads v (enc_items (snd (pins_reply f)))"
      "outstream c' = outstream c @ frame PINCUSHION_REQ_REQUEST (pc_args ?q)" "rest (hout c') = []"
    using proxy_call[OF client(1,2,4,5) network(4-6) r] by blast
  have "pins_receive True c1 = Some (c', pins_result f)"
    by (rule pins_receive_reply[OF v(2,3) table(3)]) (use l in simp)
  then have c': "PincushionProxy_Request True old c t = Some (c', pins_result f)" "sent c' = concat cs"
    using v client(3) network(3) by (simp_all add: PincushionProxy_Request_msg outstream_def)
  have f: "f = recent p (wire_time (of_int (tv_sec t)) (of_int (tv_usec t)))" using table(2) wire_time[OF client(6)] by simp
  obtain p' h' where h': "serve (pc_serve True) [?q] p h = Some (p', h')" "RPC_IsValid h'" "outstream h' = concat cs'"
      "f \<noteq> [] \<longrightarrow> refs (epin (hd f)) h' \<and> newer (epin (hd f)) (pt_list p') = epin ` set f"
    using serve_request[OF server(7) table(1) f table(4)] server(6) network(6) by auto
  have "\<exists>b. events HandleConnectionClosed hs (length cs) p h = Some (p', h'\<lparr>hin := b, recvs := []\<rparr>) \<and> in_ready b \<and> rest b = []"
    unfolding hs by (rule pcs.events_serve[OF h'(1,2)]) (use server network in auto)
  then obtain b where "events HandleConnectionClosed hs (length cs) p h = Some (p', h'\<lparr>hin := b, recvs := []\<rparr>)" by blast
  moreover have "outstream (h'\<lparr>hin := b, recvs := []\<rparr>) = concat cs'" "refs k (h'\<lparr>hin := b, recvs := []\<rparr>) = refs k h'" for k
    using h'(3) by (simp_all add: outstream_def refs_def)
  ultimately show ?thesis using c' h'(4) by blast
qed

text \<open>A request for pins that are at most 85 seconds old, when the table has one that is 90 and one that is 80 seconds old.\<close>

definition fresh1 :: timeval where "fresh1 = \<lparr>tv_sec = 85, tv_usec = 0\<rparr>"

definition pin8 :: PT_Entry_t where "pin8 = \<lparr>epin = 8, timestamp = \<lparr>tv_sec = 20, tv_usec = 5\<rparr>, eref = 1\<rparr>"

definition ask2 :: "byte list" where
  "ask2 = frame PINCUSHION_REQ_REQUEST (pc_args (Req_Pins (of_int (tv_sec fresh1)) (of_int (tv_usec fresh1))))"

definition answer2 :: "byte list" where
  "answer2 = frame (fst (pins_reply [pin8])) (enc_items (snd (pins_reply [pin8])))"

definition client2 :: "unit host_t" where
  "client2 = host0 [Sent 20, SendAgain, Sent 1] [RecvBytes answer2]"

definition conn2 :: pc_host where
  "conn2 = \<lparr>hsocket = 5, hin = fst (IOBuf_Init (\<lambda>_. 4096) 4096), hout = fst (IOBuf_Init (\<lambda>_. 4096) 8192), hre = True,
     marked = False, hdata = None, onClose = False, hasHandlers = True, sent = [], sends = [Sent 29],
     recvs = map RecvBytes [take 10 ask2, drop 10 ask2]\<rparr>"

lemma recent2: "recent table2 fresh1 = [pin8]"
  by (simp add: recent_def table2_list fresh1_def pin8_def) (simp add: table2_def timersub_def tkey_def)

lemma sizes2: "length ask2 = 21" "length answer2 = 29"
  by (simp_all add: ask2_def answer2_def length_frame pins_reply_def stamp_items_def)

theorem remote_request_witness:
  "\<exists>c' p' h'. PincushionProxy_Request True 0 client2 fresh1 = Some (c', pins_result [pin8]) \<and> sent c' = concat [take 10 ask2, drop 10 ask2] \<and>
    events HandleConnectionClosed (pc_handlers True) (length [take 10 ask2, drop 10 ask2]) table2 conn2 = Some (p', h') \<and>
    outstream h' = concat [answer2] \<and>
    ([pin8] \<noteq> [] \<longrightarrow> refs (epin (hd [pin8])) h' \<and> newer (epin (hd [pin8])) (pt_list p') = epin ` set [pin8])"
proof (rule remote_request)
  show "Pincushion_Setup_handlers True RPCS_Init_handlers = Some (pc_handlers True)" by (rule Pincushion_Setup_table)
  show "pt_ok table2" by (rule table2_ok)
  show "[pin8] = recent table2 fresh1" by (simp add: recent2)
  show "list_all chunk [take 10 ask2, drop 10 ask2]" "list_all chunk [answer2]" using sizes2 by (auto simp: chunk_def)
  show "concat [take 10 ask2, drop 10 ask2] = frame PINCUSHION_REQ_REQUEST (pc_args (Req_Pins (of_int (tv_sec fresh1)) (of_int (tv_usec fresh1))))"
    by (simp add: ask2_def)
  show "concat [answer2] = frame (fst (pins_reply [pin8])) (enc_items (snd (pins_reply [pin8])))" by (simp add: answer2_def)
qed (simp_all add: client2_def conn2_def host0_simps outstream_def in_ready_def can_send_def no_ref_def time_ok_def fresh1_def pin8_def
    pins_reply_def stamp_items_def)

end
