(* ===== verification/PincushionSafety.thy ===== *)
theory PincushionSafety
  imports PincushionRemote
begin

text \<open>
  What the references of the clients guarantee, in every state that the pincushion of \<open>src/src/pincushion/pincushion.c\<close> can reach, and a
  concrete run of the process.
\<close>

text \<open>What happens while one connection is silent.\<close>

inductive pc_others :: "nat \<Rightarrow> pc_system \<Rightarrow> pc_system \<Rightarrow> bool" for i where
  stay: "pc_others i s s"
| other: "pc_others i s s1 \<Longrightarrow> pc_step l s1 s2 \<Longrightarrow> l \<noteq> Some i \<Longrightarrow> pc_others i s s2"

lemma others_protect:
  assumes "pc_others i s s'" "pc_inv s" "i < length (conns s)" "refs pn (conns s ! i)"
  shows "pc_inv s' \<and> i < length (conns s') \<and> conns s' ! i = conns s ! i \<and> protects pn (ptab s) (ptab s')"
  using assms
proof (induction rule: pc_others.induct)
  case (other s s1 l s2)
  then have 1: "pc_inv s1" "i < length (conns s1)" "conns s1 ! i = conns s ! i" "protects pn (ptab s) (ptab s1)" by auto
  with pc_step_keeps[OF other.hyps(2) 1(1)] other.hyps(3) other.prems(3) show ?case
    by (metis protects_trans)
qed simp

lemma release_total:
  assumes "counted n p" "refs pn h" "0 < n pn" "length (pendingUnpins p) + pt_count p \<le> MAX_PINS"
  shows "ReleaseHostPin p h \<noteq> None"
proof -
  obtain hi where h: "hdata h = Some hi" "hasReferencedPin hi" "referencedPin hi = pn"
    using assms(2) by (auto simp: refs_def split: option.splits)
  have ok: "pt_ok p" "pt_wf p" "distinct (map epin (pt_list p))" using assms(1) by (auto simp: counted_def pt_ok_def)
  have "pn \<in> epin ` set (pt_list p)" using assms(1,3) by (simp add: counted_def)
  then obtain j where j: "j < pt_count p" "epin (pt_list p ! j) = pn" by (auto simp: in_set_conv_nth)
  show ?thesis using h FindPin_Some[OF ok(2,3) j(1)] j(2) RemoveRef_total[OF ok(1) j(1) assms(4)]
    by (auto simp: ReleaseHostPin_def)
qed

section \<open>A run\<close>

definition pt0 :: PinTable_t where
  "pt0 = \<lparr>table = replicate 1024 \<lparr>epin = 0, timestamp = \<lparr>tv_sec = 0, tv_usec = 0\<rparr>, eref = 0\<rparr>, head = 0, tail = 0, last_ref = 0,
     pendingUnpins = [], unpinInFlight = False, dbWritable = False, maxStaleness = \<lparr>tv_sec = 30, tv_usec = 0\<rparr>,
     clocktime = (\<lambda>_. \<lparr>tv_sec = 100, tv_usec = 0\<rparr>), nclocktime = 0\<rparr>"

definition entries :: "PT_Entry_t list \<Rightarrow> PinTable_t" where
  "entries es = pt0\<lparr>table := (case es of [] \<Rightarrow> table pt0 | [e] \<Rightarrow> (table pt0)[1 := e] | e # e' # _ \<Rightarrow> (table pt0)[1 := e, Suc (Suc 0) := e']),
     PinTable_t.head := length es\<rparr>"

definition ins_msg :: "64 word \<Rightarrow> pin_t \<Rightarrow> byte list" where
  "ins_msg sec pn = frame PINCUSHION_REQ_INSERT (pc_args (Req_Insert sec 0 pn))"

definition pc_conn :: "byte list \<Rightarrow> pc_host" where
  "pc_conn bs = \<lparr>hsocket = 5, hin = fst (IOBuf_Init (\<lambda>_. 4096) 4096), hout = fst (IOBuf_Init (\<lambda>_. 4096) 8192), hre = True,
     marked = False, hdata = None, onClose = False, hasHandlers = True, sent = [], sends = [], recvs = [RecvBytes bs]\<rparr>"

lemma conn_connect: "RPCSOnConnect True 5 (\<lambda>_. 4096) 4096 8192 True ((pc_conn bs)\<lparr>hasHandlers := False\<rparr>) = Some (Some (pc_conn bs))"
  by (simp add: RPCSOnConnect_def RPC_PrepareHost_def pc_conn_def IOBuf_Init_def Let_def)

lemma insert_event:
  assumes "pc_serve True (Req_Insert sec 0 pn) p (pc_conn (ins_msg sec pn)) = Some (p', h')" "RPC_IsValid h'"
  shows "\<exists>b. RPCOnReadable HandleConnectionClosed (pc_handlers True) p (pc_conn (ins_msg sec pn)) = Some (p', h'\<lparr>hin := b, recvs := []\<rparr>)"
proof -
  have l: "length (ins_msg sec pn) = 25" by (simp add: ins_msg_def length_frame)
  have "\<exists>b. events HandleConnectionClosed (pc_handlers True) (length [ins_msg sec pn]) p (pc_conn (ins_msg sec pn)) =
      Some (p', h'\<lparr>hin := b, recvs := []\<rparr>) \<and> in_ready b \<and> rest b = []"
    by (rule pcs.events_serve[where qs = "[Req_Insert sec 0 pn]"])
      (use assms l in \<open>auto simp: pc_conn_def host0_simps in_ready_def chunk_def ins_msg_def simp del: pc_serve.simps\<close>)
  then show ?thesis by (auto simp: bind_eq_Some_conv simp del: pc_serve.simps)
qed

definition en1 :: "int \<Rightarrow> PT_Entry_t" where "en1 r = \<lparr>epin = 7, timestamp = \<lparr>tv_sec = 10, tv_usec = 0\<rparr>, eref = r\<rparr>"
definition en2 :: "int \<Rightarrow> PT_Entry_t" where "en2 r = \<lparr>epin = 8, timestamp = \<lparr>tv_sec = 20, tv_usec = 0\<rparr>, eref = r\<rparr>"

lemma insert1: "pc_serve True (Req_Insert 10 0 7) (entries []) (pc_conn bs) = Some (entries [en1 1], reference 7 (pc_conn bs))"
  by (simp add: entries_def pt0_def en1_def PT_Insert_def PT_Insert_room_def PT_Insert_pin_def PT_FindPin_def PT_FindPin_loop.simps
      PT_Insert_bubble.simps ptr_sub_def pt_add_def pt_sub_def MAX_PINS_def pt_set_def pt_get_def PT_AddRef_def Let_def no_ref_def pc_conn_def)

lemma insert2: "pc_serve True (Req_Insert 20 0 8) (entries [en1 1]) (pc_conn bs) = Some (entries [en1 1, en2 1], reference 8 (pc_conn bs))"
  by (simp add: entries_def pt0_def en1_def en2_def PT_Insert_def PT_Insert_room_def PT_Insert_pin_def PT_FindPin_def PT_FindPin_loop.simps
      PT_Insert_bubble.simps ptr_sub_def pt_add_def pt_sub_def MAX_PINS_def pt_set_def pt_get_def PT_AddRef_def Let_def no_ref_def pc_conn_def tkey_def)

definition sys0 :: pc_system where "sys0 = \<lparr>ptab = entries [], conns = []\<rparr>"

lemma sys0_reach: "pc_reach sys0"
proof -
  have "Pincushion_Setup True True 3 True True RPCS_Init_handlers \<lparr>tv_sec = 30, tv_usec = 0\<rparr> pt0 = Some (entries [], pc_handlers True)"
    by (simp add: Pincushion_Setup_def DB_Init_def PT_Init_def Pincushion_Setup_table entries_def pt0_def Let_def)
  from pc_reach.init[OF _ _ this] show ?thesis by (simp add: sys0_def pt0_def MAX_PINS_def)
qed

text \<open>A first client inserts pin 7 and holds a reference to it.\<close>

lemma sys1_reach: "\<exists>h. pc_reach \<lparr>ptab = entries [en1 1], conns = [h]\<rparr> \<and> refs 7 h"
proof -
  let ?c = "pc_conn (ins_msg 10 7)"
  have 1: "pc_reach \<lparr>ptab = entries [], conns = [?c]\<rparr>"
    using pc_reach.step[OF sys0_reach pc_step.connect[OF conn_connect]] by (simp add: sys0_def)
  obtain b where b: "RPCOnReadable HandleConnectionClosed (pc_handlers True) (entries []) ?c =
      Some (entries [en1 1], (reference 7 ?c)\<lparr>hin := b, recvs := []\<rparr>)"
    using insert_event[OF insert1] by (auto simp: reference_def pc_conn_def RPC_IsValid_def)
  have "pc_step (Some 0) \<lparr>ptab = entries [], conns = [?c]\<rparr>
      \<lparr>ptab = entries [en1 1], conns = [(reference 7 ?c)\<lparr>hin := b, recvs := []\<rparr>]\<rparr>"
    using pc_step.readable[of 0 "\<lparr>ptab = entries [], conns = [?c]\<rparr>"] b by simp
  from pc_reach.step[OF 1 this] show ?thesis by (intro exI) (auto simp: refs_def reference_def)
qed

text \<open>A second client inserts pin 8, while the first one is silent.\<close>

lemma sys2_others: "\<exists>h'. pc_others 0 \<lparr>ptab = entries [en1 1], conns = [h]\<rparr> \<lparr>ptab = entries [en1 1, en2 1], conns = [h, h']\<rparr>"
proof -
  let ?c = "pc_conn (ins_msg 20 8)"
  have 1: "pc_step None \<lparr>ptab = entries [en1 1], conns = [h]\<rparr> \<lparr>ptab = entries [en1 1], conns = [h, ?c]\<rparr>"
    using pc_step.connect[OF conn_connect, of "\<lparr>ptab = entries [en1 1], conns = [h]\<rparr>" "ins_msg 20 8"] by simp
  obtain b where b: "RPCOnReadable HandleConnectionClosed (pc_handlers True) (entries [en1 1]) ?c =
      Some (entries [en1 1, en2 1], (reference 8 ?c)\<lparr>hin := b, recvs := []\<rparr>)"
    using insert_event[OF insert2] by (auto simp: reference_def pc_conn_def RPC_IsValid_def)
  have 2: "pc_step (Some 1) \<lparr>ptab = entries [en1 1], conns = [h, ?c]\<rparr>
      \<lparr>ptab = entries [en1 1, en2 1], conns = [h, (reference 8 ?c)\<lparr>hin := b, recvs := []\<rparr>]\<rparr>"
    using pc_step.readable[of 1 "\<lparr>ptab = entries [en1 1], conns = [h, ?c]\<rparr>"] b by simp
  have "pc_others 0 \<lparr>ptab = entries [en1 1], conns = [h]\<rparr> \<lparr>ptab = entries [en1 1], conns = [h, ?c]\<rparr>"
    by (rule pc_others.other[OF pc_others.stay 1]) simp
  then show ?thesis by (intro exI) (rule pc_others.other[OF _ 2], simp_all)
qed

lemma entries_list: "pt_list (entries [en1 1]) = [en1 1]" "pt_list (entries [en1 1, en2 1]) = [en1 1, en2 1]"
  by (simp_all add: entries_def pt0_def pt_list_def pt_count_def ptr_sub_def slot_def MAX_PINS_def upt_rec numeral_2_eq_2)

section \<open>Safety of the references\<close>

text \<open>C26: In every state that the pincushion can reach, whatever the clients send and however their connections end, the
  table is in order, the reference count of each pin is the number of the connections that hold a reference to
  it, and a connection that holds a reference is open and its pin is in the table.\<close>

theorem reference_counts:
  assumes "pc_reach s"
  shows "pt_ok (ptab s) \<and> (\<forall>e \<in> set (pt_list (ptab s)). eref e = int (length (filter (refs (epin e)) (conns s)))) \<and>
    (\<forall>h \<in> set (conns s). \<forall>k. refs k h \<longrightarrow> RPC_IsValid h \<and> k \<in> epin ` set (pt_list (ptab s)))"
proof -
  have i: "pc_inv s" by (rule pc_reach_inv[OF assms])
  have "k \<in> epin ` set (pt_list (ptab s))" if "h \<in> set (conns s)" "refs k h" for h k
    using i holders_pos[OF that(2,1)] by (simp add: pc_inv_def counted_def)
  then show ?thesis using i by (auto simp: pc_inv_def counted_def holders_def)
qed

theorem reference_counts_witness:
  "\<exists>h. pc_reach \<lparr>ptab = entries [en1 1], conns = [h]\<rparr> \<and> refs 7 h \<and> pt_ok (entries [en1 1]) \<and> RPC_IsValid h"
  using sys1_reach reference_counts[of "\<lparr>ptab = entries [en1 1], conns = [h]\<rparr>" for h] by force

text \<open>C27: A reference protects the pins that its holder was given. While a connection that references pin \<open>pn\<close> is silent, whatever
  the other clients do, every pin at or after \<open>pn\<close> in the table stays at or after \<open>pn\<close> in the table, and
  none of them is queued for unpinning in the database.\<close>

theorem references_protect:
  assumes "pc_reach s" "i < length (conns s)" "refs pn (conns s ! i)" "pc_others i s s'"
  shows "newer pn (pt_list (ptab s)) \<subseteq> newer pn (pt_list (ptab s')) \<and>
    set (pendingUnpins (ptab s')) \<inter> newer pn (pt_list (ptab s)) \<subseteq> set (pendingUnpins (ptab s))"
  using others_protect[OF assms(4) pc_reach_inv[OF assms(1)] assms(2,3)] by (simp add: protects_def)

theorem references_protect_witness:
  "\<exists>h h'. pc_reach \<lparr>ptab = entries [en1 1], conns = [h]\<rparr> \<and> refs 7 h \<and>
    pc_others 0 \<lparr>ptab = entries [en1 1], conns = [h]\<rparr> \<lparr>ptab = entries [en1 1, en2 1], conns = [h, h']\<rparr> \<and>
    7 \<in> newer 7 (pt_list (entries [en1 1, en2 1]))"
proof -
  obtain h where h: "pc_reach \<lparr>ptab = entries [en1 1], conns = [h]\<rparr>" "refs 7 h" using sys1_reach by blast
  obtain h' where h': "pc_others 0 \<lparr>ptab = entries [en1 1], conns = [h]\<rparr> \<lparr>ptab = entries [en1 1, en2 1], conns = [h, h']\<rparr>"
    using sys2_others by blast
  have "7 \<in> newer 7 (pt_list (entries [en1 1]))" unfolding entries_list by (simp add: newer_def en1_def)
  then show ?thesis using references_protect[OF h(1) _ _ h', of 7] h h' by auto
qed

text \<open>C29: Giving up a reference never goes wrong: in every reachable state in which the queue of pins to unpin has room for the whole table,
  \<open>HandleRelease\<close> finds the entry of the referenced pin and returns for every connection. So the null
  result of \<open>PT_FindPin\<close>, which \<open>ReleaseHostPin\<close> does not test, does not occur.\<close>

theorem release_returns:
  assumes "pc_reach s" "h \<in> set (conns s)" "length (pendingUnpins (ptab s)) + pt_count (ptab s) \<le> MAX_PINS"
  shows "HandleRelease (ptab s) h args \<noteq> None"
proof (cases "\<exists>pn. refs pn h")
  case True
  then obtain pn where r: "refs pn h" by blast
  have c: "counted (holders (conns s)) (ptab s)" using pc_reach_inv[OF assms(1)] by (simp add: pc_inv_def)
  show ?thesis unfolding HandleRelease_def by (rule release_total[OF c r holders_pos[OF r assms(2)] assms(3)])
next
  case False
  then show ?thesis by (auto simp: HandleRelease_def ReleaseHostPin_def refs_def split: option.splits)
qed

theorem release_returns_witness:
  "\<exists>h. pc_reach \<lparr>ptab = entries [en1 1], conns = [h]\<rparr> \<and> refs 7 h \<and> HandleRelease (entries [en1 1]) h (IOBUF_NULL (\<lambda>_. 0)) \<noteq> None"
  using sys1_reach release_returns[of "\<lparr>ptab = entries [en1 1], conns = [h]\<rparr>" h for h]
  by (force simp: entries_def pt0_def pt_count_def ptr_sub_def MAX_PINS_def)

end
