(* ===== verification/Spec2Isabelle.thy ===== *)
theory Spec2Isabelle
  imports PinPolicy Server PincushionSafety
begin

text \<open>
  A verification development for TxCache, a transactional cache for applications on top of a
  multiversion database. The sources are under \<open>src/src\<close>.

  \<^bold>\<open>The system.\<close> A cache server (\<open>server\<close>) stores versions of computed values. Each version has a key and a
  validity interval of \<^emph>\<open>pins\<close>, which are the numbers of database snapshots. The client library (\<open>client\<close>) runs
  read-only transactions on any snapshot that is consistent with everything that the transaction has read; it
  keeps the snapshots that are still possible as a pin set. The pincushion (\<open>pincushion\<close>) hands out pinned
  snapshots. The invalidation daemon (\<open>invald\<close>) reads the tags that the database invalidates and forwards
  them to the cache server, which then ends the intervals of the entries with these tags. The processes talk through
  remote procedure calls on a reactor (\<open>lib\<close>).

  \<^bold>\<open>Conventions.\<close> A function of the source is a function of the same name. A call that panics, fails an
  assertion, accesses memory that it must not access, or does not return has the value \<open>None\<close> in the option
  monad; an error that the code reports is part of the result. Pins have 32 bits, sizes 64 bits and bytes 8 bits, as
  words. The heap is one finite map of objects for each type of object, with \<open>0\<close> as the null pointer; what
  \<open>malloc\<close>, \<open>realloc\<close>, \<open>time\<close>, \<open>send\<close>, \<open>recv\<close> and \<open>write\<close> return is part of the state or a parameter. The model is that of the
  build with \<open>PARANOID\<close> checks. A loop over a linked structure or over input is a \<open>partial_function\<close>, so every
  theorem that gives such a loop a result says that it ends; no definition has fuel.

  \<^bold>\<open>Theories.\<close>
    \<^item> \<open>TxPrelude\<close>: the monad, words, heaps, and shared lemmas on lists.
    \<^item> \<open>Interval\<close>, \<open>PinSet\<close>, \<open>PinPolicy\<close> (\<open>lib/interval.h\<close>, \<open>lib/pinset.c\<close>, \<open>lib/timeval.h\<close>, \<open>client/policy.c\<close>): intervals and pin sets
      mean sets of pins; overlap, intersection, membership and bounds compute the operations on these sets; every
      policy chooses a member.
    \<^item> \<open>DblList\<close> (\<open>lib/tmpl/dbllist*.h\<close>): intrusive lists, with the locale \<open>container_field\<close> for the embedded link.
    \<^item> \<open>RBTree\<close>, \<open>RBShape\<close>, \<open>RBInsert\<close>, \<open>RBFind\<close>, \<open>RBRemove\<close>, \<open>RBMap\<close> (\<open>lib/tmpl/rbtree*.h\<close>): top-down red-black trees with a chain of
      the nodes in order. \<open>RBMap\<close> holds the contract for callers, the locale \<open>rb_order\<close>: the operations are those of a finite map, and
      other nodes of the heap do not change.
    \<^item> \<open>Hash\<close>, \<open>HashTable\<close>, \<open>Memory\<close> (\<open>lib/lookup3.c\<close>, \<open>lib/hash.h\<close>, \<open>lib/tmpl/hashtable*.h\<close>, \<open>lib/memory.c\<close>): the hash
      function on all alignments, chained hash tables with the locale \<open>ht_field\<close>, sizes as text.
    \<^item> \<open>StoreVSet\<close>, \<open>StorePolicy\<close>, \<open>Store\<close>, \<open>StoreExample\<close> (\<open>server/storevset.c\<close>, \<open>server/lookuppolicy.c\<close>,
      \<open>server/evictionpolicy.c\<close>, \<open>server/store.c\<close>): the cache store with its trees, lists and tables; a concrete store for
      witnesses.
    \<^item> \<open>IOBuf\<close> (\<open>lib/iobuf.c\<close>, \<open>lib/iobuf.h\<close>, \<open>lib/iobuf-getput.h\<close>): serialisation buffers, with the locales \<open>encoder\<close> and \<open>codec\<close> for
      a type of values that can be written and read back.
    \<^item> \<open>Rpc\<close>, \<open>RpcService\<close> (\<open>lib/rpc.c\<close>, \<open>lib/rpcc.c\<close>, \<open>lib/rpcs.c\<close>): messages, sending and receiving in pieces, and the dispatch
      loop, with the locale \<open>rpc_service\<close> for the contract of a service.
    \<^item> \<open>Server\<close> (\<open>server/server.c\<close>, \<open>server/proxy.c\<close>, \<open>server/marshal.c\<close>): the handlers and their proxies, composed with the store and the
      remote procedure calls.

  \<^bold>\<open>Not modelled.\<close> The patched PostgreSQL (\<open>pgsql\<close>) and the benchmark (\<open>RUBiS-1.4.3\<close>) are separate programs; the main
  programs only parse arguments; sockets, signals, log messages and the connections to the database are outside.
\<close>

end
